(* ===== verification/Goper_Prelude.thy ===== *)
theory Goper_Prelude
  imports Main "HOL-Library.Word" "HOL-Library.Sublist"
begin

text \<open>
  Shared vocabulary of the development: Go's run-time panics as values, Go's 64-bit
  integers, strings as byte sequences with the UTF-8 decoding that a \<^verbatim>\<open>range\<close> loop
  performs, and the few functions of the packages \<^verbatim>\<open>strings\<close>, \<^verbatim>\<open>strconv\<close> and \<^verbatim>\<open>time\<close>
  that the program calls. The lemma collections at the top carry the component proofs.
\<close>

named_theorems go_simps \<open>equations of the panic-aware primitives\<close>
named_theorems rune_simps \<open>facts about decoding and encoding runes\<close>

section \<open>Panics as values\<close>

text \<open>
  A Go operation either finishes with a value or panics. \<open>'a go\<close> makes the panic a
  value, so that the absence of panics is something to be proved.
\<close>

datatype go_panic = IndexOutOfRange | SliceOutOfRange | NilDereference | SendOnClosed | CloseOfClosed | MakeSliceLen

type_synonym 'a go = "go_panic + 'a"

definition go_bind :: "'a go \<Rightarrow> ('a \<Rightarrow> 'b go) \<Rightarrow> 'b go" where
  "go_bind m f = (case m of Inl p \<Rightarrow> Inl p | Inr x \<Rightarrow> f x)"

lemma go_bind_simps [simp, go_simps]:
  "go_bind (Inl p) f = Inl p"
  "go_bind (Inr x) f = f x"
  by (simp_all add: go_bind_def)

lemma go_bind_eq_Inr: "go_bind m f = Inr y \<longleftrightarrow> (\<exists>x. m = Inr x \<and> f x = Inr y)"
  by (cases m) auto

text \<open>Reading, writing and slicing an array or slice, with Go's bounds checks.\<close>

definition go_index :: "'a list \<Rightarrow> nat \<Rightarrow> 'a go" where
  "go_index xs i = (if i < length xs then Inr (xs ! i) else Inl IndexOutOfRange)"

definition go_update :: "'a list \<Rightarrow> nat \<Rightarrow> 'a \<Rightarrow> 'a list go" where
  "go_update xs i x = (if i < length xs then Inr (xs[i := x]) else Inl IndexOutOfRange)"

definition go_slice :: "'a list \<Rightarrow> nat \<Rightarrow> nat \<Rightarrow> 'a list go" where
  "go_slice xs a b =
     (if a \<le> b \<and> b \<le> length xs then Inr (take (b - a) (drop a xs)) else Inl SliceOutOfRange)"

text \<open>Dereferencing a pointer: nil panics.\<close>

definition go_deref :: "'a option \<Rightarrow> 'a go" where
  "go_deref p = (case p of None \<Rightarrow> Inl NilDereference | Some x \<Rightarrow> Inr x)"

lemma go_index_Inr [simp, go_simps]: "i < length xs \<Longrightarrow> go_index xs i = Inr (xs ! i)"
  by (simp add: go_index_def)

lemma go_update_Inr [simp, go_simps]: "i < length xs \<Longrightarrow> go_update xs i x = Inr (xs[i := x])"
  by (simp add: go_update_def)

lemma go_slice_Inr [simp, go_simps]:
  "a \<le> b \<Longrightarrow> b \<le> length xs \<Longrightarrow> go_slice xs a b = Inr (take (b - a) (drop a xs))"
  by (simp add: go_slice_def)

lemma go_deref_simps [simp, go_simps]:
  "go_deref None = Inl NilDereference"
  "go_deref (Some x) = Inr x"
  by (simp_all add: go_deref_def)

lemma in_set_tl: "x \<in> set (tl xs) \<Longrightarrow> x \<in> set xs"
  by (cases xs) auto

section \<open>Integers and time\<close>

text \<open>
  \<^verbatim>\<open>int64\<close> (and \<^verbatim>\<open>int\<close>, which is 64 bits wide on the supported platforms) is a 64-bit
  word read through \<open>sint\<close> wherever the program's arithmetic can wrap. Integers that are
  only carried or compared are of type \<open>int\<close>.
\<close>

type_synonym byte = "8 word"
type_synonym int64 = "64 word"

lemma sint_int64_bounds: "- (2 ^ 63) \<le> sint (x :: int64)" "sint (x :: int64) < 2 ^ 63"
  using sint_ge [of x] sint_lt [of x] by simp_all

lemma sint_of_int64: "- (2 ^ 63) \<le> n \<Longrightarrow> n < 2 ^ 63 \<Longrightarrow> sint (word_of_int n :: int64) = n"
  by (simp add: signed_take_bit_int_eq_self sint_sbintrunc')

lemma sint_of_nat64 [simp]: "n < 2 ^ 63 \<Longrightarrow> sint (of_nat n :: int64) = int n"
  using sint_of_int64 [of "int n"] by simp

lemma sint_add64:
  "- (2 ^ 63) \<le> sint a + sint b \<Longrightarrow> sint a + sint b < 2 ^ 63
    \<Longrightarrow> sint (a + b :: int64) = sint a + sint b"
  using sint_of_int64 [of "sint a + sint b"] by simp

text \<open>
  A \<^verbatim>\<open>time.Time\<close> is its distance in nanoseconds from Go's zero time; \<^verbatim>\<open>IsZero\<close> holds
  exactly for the zero time and \<^verbatim>\<open>Before\<close> is the order of the distances.
\<close>

type_synonym go_time = int

definition is_zero_time :: "go_time \<Rightarrow> bool" where
  "is_zero_time t \<longleftrightarrow> t = 0"

text \<open>
  \<^verbatim>\<open>time.Since(start).Milliseconds()\<close>: the difference saturates at the range of
  \<^verbatim>\<open>int64\<close> and the division by a million truncates towards zero.
\<close>

definition since_ms :: "go_time \<Rightarrow> go_time \<Rightarrow> int" where
  "since_ms start now =
     (let d = max (- (2 ^ 63)) (min (2 ^ 63 - 1) (now - start))
      in sgn d * (\<bar>d\<bar> div 1000000))"

lemma since_ms_nonneg: "start \<le> now \<Longrightarrow> 0 \<le> since_ms start now"
  by (auto simp: since_ms_def Let_def zero_le_mult_iff max_def min_def
        intro: pos_imp_zdiv_nonneg_iff [THEN iffD2])

section \<open>Progress\<close>

text \<open>
  Transition systems in which one party cannot be held up: as long as it has not finished
  and the system still runs, it has a step of its own to take; its own steps bring it
  closer to the end and the steps of the others do not set it back.
\<close>

abbreviation nat_lex :: "((nat \<times> nat) \<times> (nat \<times> nat)) set" where
  "nat_lex \<equiv> less_than <*lex*> less_than"

lemma nat_lex_trans: "(x, y) \<in> nat_lex \<Longrightarrow> (y, z) \<in> nat_lex \<Longrightarrow> (x, z) \<in> nat_lex"
  by (cases x; cases y; cases z) auto

locale progress =
  fixes step :: "'s \<Rightarrow> 'a \<Rightarrow> 's \<Rightarrow> bool"
    and inv :: "'s \<Rightarrow> bool"
    and own :: "'a \<Rightarrow> bool"
    and left :: "'s \<Rightarrow> nat \<times> nat"
    and finished :: "'s \<Rightarrow> bool"
  assumes inv_step: "inv s \<Longrightarrow> step s a s' \<Longrightarrow> inv s'"
    and own_step: "inv s \<Longrightarrow> step s a s' \<Longrightarrow> own a \<Longrightarrow> step s' b t \<Longrightarrow> (left s', left s) \<in> nat_lex"
    and other_step: "inv s \<Longrightarrow> step s a s' \<Longrightarrow> \<not> own a \<Longrightarrow> left s' = left s \<or> (left s', left s) \<in> nat_lex"
    and own_enabled: "inv s \<Longrightarrow> \<not> finished s \<Longrightarrow> step s b t \<Longrightarrow> \<exists>a s'. own a \<and> step s a s'"
begin

lemma steps_inv:
  assumes "inv (run 0)" "\<And>n. step (run n) (act n) (run (Suc n))"
  shows "inv (run n)"
  using assms by (induction n) (auto intro: inv_step)

lemma left_decreases:
  assumes "inv (run 0)" "\<And>n. step (run n) (act n) (run (Suc n))"
  shows "left (run (n + d)) = left (run n) \<or> (left (run (n + d)), left (run n)) \<in> nat_lex"
proof (induction d)
  case (Suc d)
  have "left (run (Suc (n + d))) = left (run (n + d)) \<or> (left (run (Suc (n + d))), left (run (n + d))) \<in> nat_lex"
    using own_step [OF steps_inv [OF assms] assms(2) _ assms(2)] other_step [OF steps_inv [OF assms] assms(2)] by blast
  then show ?case using Suc nat_lex_trans by (metis add_Suc_right)
qed simp

lemma fair_run_finishes:
  assumes "inv (run 0)" "\<And>n. step (run n) (act n) (run (Suc n))"
    and fair: "\<And>n. (\<forall>m \<ge> n. \<exists>a t. own a \<and> step (run m) a t) \<Longrightarrow> \<exists>m \<ge> n. own (act m)"
  shows "\<exists>n. finished (run n)"
proof (rule ccontr)
  assume "\<nexists>n. finished (run n)"
  then have "\<exists>a t. own a \<and> step (run m) a t" for m
    using own_enabled [OF steps_inv [OF assms(1,2)] _ assms(2)] by blast
  then have often: "\<exists>m \<ge> n. own (act m)" for n using fair by blast
  have "wf nat_lex" by auto
  then have "False" if "left (run n) = v" for n v
    using that
  proof (induction v arbitrary: n rule: wf_induct_rule)
    case (less v)
    obtain m where m: "n \<le> m" "own (act m)" using often by blast
    have "(left (run (Suc m)), left (run m)) \<in> nat_lex"
      using own_step [OF steps_inv [OF assms(1,2)] assms(2) m(2) assms(2)] .
    moreover have "left (run m) = left (run n) \<or> (left (run m), left (run n)) \<in> nat_lex"
      using left_decreases [OF assms(1,2), of n "m - n"] m(1) by simp
    ultimately have "(left (run (Suc m)), v) \<in> nat_lex" using less.prems nat_lex_trans by metis
    then show ?case using less.IH by blast
  qed
  then show False by blast
qed

end

end
