(* ===== verification/Go_Strings.thy ===== *)
theory Go_Strings
  imports Goper_Prelude
begin

text \<open>
  Go strings and the library functions on them. A Go string is a sequence of bytes, here
  a \<open>string\<close> (an Isabelle \<open>char\<close> is one byte). A \<^verbatim>\<open>range\<close> loop over a string decodes
  UTF-8: \<open>decode_rune\<close> is the decoder of package \<^verbatim>\<open>utf8\<close> (an invalid byte yields U+FFFD
  and advances by one) and \<open>runes\<close> lists what the loop sees. The lower-case mapping of
  the non-ASCII runes is a table of package \<^verbatim>\<open>unicode\<close>; it is the argument \<open>ul\<close>
  of every function that depends on it.
\<close>

section \<open>UTF-8\<close>

type_synonym rune = nat

abbreviation byte_val :: "char \<Rightarrow> nat" where
  "byte_val c \<equiv> of_char c"

definition rune_error :: rune where
  "rune_error = 0xFFFD"

text \<open>
  For a lead byte of a multi-byte sequence: the length of the sequence and the range of
  its second byte. \<open>None\<close> for a byte that starts no sequence.
\<close>

definition lead_byte :: "nat \<Rightarrow> (nat \<times> nat \<times> nat) option" where
  "lead_byte b =
     (if 0xC2 \<le> b \<and> b \<le> 0xDF then Some (2, 0x80, 0xBF)
      else if b = 0xE0 then Some (3, 0xA0, 0xBF)
      else if b = 0xED then Some (3, 0x80, 0x9F)
      else if 0xE1 \<le> b \<and> b \<le> 0xEF then Some (3, 0x80, 0xBF)
      else if b = 0xF0 then Some (4, 0x90, 0xBF)
      else if b = 0xF4 then Some (4, 0x80, 0x8F)
      else if 0xF1 \<le> b \<and> b \<le> 0xF3 then Some (4, 0x80, 0xBF)
      else None)"

definition is_cont :: "nat \<Rightarrow> bool" where
  "is_cont b \<longleftrightarrow> 0x80 \<le> b \<and> b \<le> 0xBF"

definition decode_multi :: "nat \<Rightarrow> nat list \<Rightarrow> rune \<times> nat" where
  "decode_multi b0 bs =
     (case lead_byte b0 of
        None \<Rightarrow> (rune_error, 1)
      | Some (n, lo, hi) \<Rightarrow>
          (if length bs < n - 1 \<or> \<not> (lo \<le> bs ! 0 \<and> bs ! 0 \<le> hi)
              \<or> \<not> list_all is_cont (take (n - 1) bs)
           then (rune_error, 1)
           else if n = 2 then ((b0 mod 32) * 64 + bs ! 0 mod 64, 2)
           else if n = 3 then ((b0 mod 16) * 4096 + (bs ! 0 mod 64) * 64 + bs ! 1 mod 64, 3)
           else ((b0 mod 8) * 262144 + (bs ! 0 mod 64) * 4096 + (bs ! 1 mod 64) * 64
                  + bs ! 2 mod 64, 4)))"

fun decode_rune :: "string \<Rightarrow> rune \<times> nat" where
  "decode_rune [] = (rune_error, 0)"
| "decode_rune (c # cs) =
     (if byte_val c < 0x80 then (byte_val c, 1)
      else decode_multi (byte_val c) (map byte_val (take 3 cs)))"

lemma decode_multi_size: "Suc 0 \<le> snd (decode_multi b bs)"
  by (auto simp: decode_multi_def split: option.splits)

lemma decode_rune_size: "s \<noteq> [] \<Longrightarrow> Suc 0 \<le> snd (decode_rune s)"
  by (cases s) (simp_all add: decode_multi_size)

text \<open>The runes of a string, each with the bytes it was decoded from.\<close>

function rune_chunks :: "string \<Rightarrow> (rune \<times> string) list" where
  "rune_chunks s =
     (if s = [] then []
      else (fst (decode_rune s), take (snd (decode_rune s)) s)
             # rune_chunks (drop (snd (decode_rune s)) s))"
  by pat_completeness auto
termination
proof (relation "measure length")
  fix s :: string
  assume "s \<noteq> []"
  then show "(drop (snd (decode_rune s)) s, s) \<in> measure length"
    using decode_rune_size [of s] by (simp add: Suc_le_eq)
qed simp

declare rune_chunks.simps [simp del]

definition runes :: "string \<Rightarrow> rune list" where
  "runes s = map fst (rune_chunks s)"

lemma rune_chunks_Nil [simp, rune_simps]: "rune_chunks [] = []"
  by (simp add: rune_chunks.simps)

lemma rune_chunks_concat: "concat (map snd (rune_chunks s)) = s"
proof (induction s rule: rune_chunks.induct)
  case (1 s)
  then show ?case
    by (cases "s = []") (simp_all add: rune_chunks.simps [of s])
qed

lemma rune_chunks_ascii_Cons:
  "byte_val c < 0x80 \<Longrightarrow> rune_chunks (c # cs) = (byte_val c, [c]) # rune_chunks cs"
  by (simp add: rune_chunks.simps [of "c # cs"])

lemma runes_Nil [simp, rune_simps]: "runes [] = []"
  by (simp add: runes_def)

lemma runes_ascii_Cons [rune_simps]:
  "byte_val c < 0x80 \<Longrightarrow> runes (c # cs) = byte_val c # runes cs"
  by (simp add: runes_def rune_chunks_ascii_Cons)

lemma lead_byte_cases: "lead_byte b = Some (n, lo, hi) \<Longrightarrow> n = 2 \<or> n = 3 \<or> n = 4"
  by (auto simp: lead_byte_def split: if_splits)

lemma decode_multi_le4: "snd (decode_multi b bs) \<le> 4"
  by (simp add: decode_multi_def split: option.split)

lemma mod_in_block: "k * m \<le> b \<Longrightarrow> b < (k + 1) * m \<Longrightarrow> b mod m = b - k * m" for b k m :: nat
proof -
  assume "k * m \<le> b" "b < (k + 1) * m"
  then obtain r where r: "b = k * m + r" "r < m"
    by (metis add.commute add_less_cancel_left le_Suc_ex mult.commute mult_Suc_right Suc_eq_plus1)
  then show ?thesis by simp
qed

lemma decode_multi_ge: "0x80 \<le> fst (decode_multi b bs)"
proof (cases "lead_byte b")
  case None
  then show ?thesis by (simp add: decode_multi_def rune_error_def)
next
  case (Some t)
  obtain n lo hi where t: "t = (n, lo, hi)" by (cases t)
  have two: "2 \<le> b mod 32" if "n = 2"
    using Some t that mod_in_block [of 6 32 b] by (simp add: lead_byte_def split: if_splits)
  have three: "1 \<le> b mod 16 \<or> 32 \<le> bs ! 0 mod 64" if "n = 3" "lo \<le> bs ! 0" "bs ! 0 \<le> hi"
    using Some t that mod_in_block [of 14 16 b] mod_in_block [of 2 64 "bs ! 0"]
    by (auto simp: lead_byte_def split: if_splits)
  have four: "1 \<le> b mod 8 \<or> 16 \<le> bs ! 0 mod 64" if "n = 4" "lo \<le> bs ! 0" "bs ! 0 \<le> hi"
    using Some t that mod_in_block [of 30 8 b] mod_in_block [of 2 64 "bs ! 0"]
    by (auto simp: lead_byte_def split: if_splits)
  show ?thesis
    using lead_byte_cases [of b n lo hi] two three four by (auto simp: decode_multi_def Some t rune_error_def)
qed

lemma decode_multi_cont:
  "x \<in> set (take (snd (decode_multi b bs) - 1) bs) \<Longrightarrow> 0x80 \<le> x"
  by (auto simp: decode_multi_def is_cont_def list_all_iff dest: lead_byte_cases
        split: option.splits if_splits)

text \<open>
  Every byte of a multi-byte chunk is at least 0x80, so a predicate that holds for all
  runes from 0x80 on can be decided byte by byte.
\<close>

lemma decode_rune_multi:
  assumes "0x80 \<le> byte_val c"
  shows "0x80 \<le> fst (decode_rune (c # cs))"
    and "\<forall>d \<in> set (take (snd (decode_rune (c # cs))) (c # cs)). 0x80 \<le> byte_val d"
proof -
  let ?n = "snd (decode_multi (byte_val c) (map byte_val (take 3 cs)))"
  have n: "?n \<le> 4" by (rule decode_multi_le4)
  show "0x80 \<le> fst (decode_rune (c # cs))"
    using assms by (simp add: decode_multi_ge)
  have "set (map byte_val (take (?n - 1) cs)) = set (take (?n - 1) (map byte_val (take 3 cs)))"
    using n by (simp add: take_map min_def)
  then have "0x80 \<le> byte_val d" if "d \<in> set (take (?n - 1) cs)" for d
    using that decode_multi_cont [of "byte_val d" "byte_val c" "map byte_val (take 3 cs)"]
    by (metis image_eqI list.set_map)
  then show "\<forall>d \<in> set (take (snd (decode_rune (c # cs))) (c # cs)). 0x80 \<le> byte_val d"
    using assms decode_multi_size [of "byte_val c" "map byte_val (take 3 cs)"]
    by (auto simp: take_Cons' split: if_splits)
qed

lemma list_all_runes:
  assumes "\<And>r. 0x80 \<le> r \<Longrightarrow> P r"
  shows "list_all P (runes s) \<longleftrightarrow> (\<forall>c \<in> set s. byte_val c < 0x80 \<longrightarrow> P (byte_val c))"
proof (induction s rule: rune_chunks.induct)
  case (1 s)
  show ?case
  proof (cases s)
    case (Cons c cs)
    show ?thesis
    proof (cases "byte_val c < 0x80")
      case True
      with "1" Cons show ?thesis by (simp add: runes_ascii_Cons)
    next
      case False
      define t u where "t = take (snd (decode_rune s)) s" and "u = drop (snd (decode_rune s)) s"
      have m: "0x80 \<le> fst (decode_rune s)" "\<forall>d \<in> set t. 0x80 \<le> byte_val d"
        using False Cons decode_rune_multi [of c cs] by (auto simp: t_def)
      have "runes s = fst (decode_rune s) # runes u"
        using Cons unfolding u_def
        by (subst runes_def, subst rune_chunks.simps) (simp add: runes_def del: decode_rune.simps)
      then have "list_all P (runes s) \<longleftrightarrow> list_all P (runes u)"
        using m(1) assms by simp
      also have "\<dots> \<longleftrightarrow> (\<forall>c \<in> set u. byte_val c < 0x80 \<longrightarrow> P (byte_val c))"
        using "1" Cons by (simp add: u_def del: decode_rune.simps)
      also have "\<dots> \<longleftrightarrow> (\<forall>c \<in> set (t @ u). byte_val c < 0x80 \<longrightarrow> P (byte_val c))"
        using m(2) by auto
      also have "t @ u = s" by (simp add: t_def u_def)
      finally show ?thesis .
    qed
  qed simp
qed

text \<open>\<^verbatim>\<open>utf8.AppendRune\<close>: surrogates and out-of-range values become U+FFFD.\<close>

definition encode_rune :: "rune \<Rightarrow> string" where
  "encode_rune r0 =
     (let r = (if 0x10FFFF < r0 \<or> (0xD800 \<le> r0 \<and> r0 \<le> 0xDFFF) then rune_error else r0)
      in map char_of
        (if r \<le> 0x7F then [r]
         else if r \<le> 0x7FF then [0xC0 + r div 64, 0x80 + r mod 64]
         else if r \<le> 0xFFFF then [0xE0 + r div 4096, 0x80 + r div 64 mod 64, 0x80 + r mod 64]
         else [0xF0 + r div 262144, 0x80 + r div 4096 mod 64, 0x80 + r div 64 mod 64,
               0x80 + r mod 64]))"

lemma encode_rune_ascii [rune_simps]: "r < 0x80 \<Longrightarrow> encode_rune r = [char_of r]"
  by (simp add: encode_rune_def)

section \<open>Package strings\<close>

definition is_ascii :: "string \<Rightarrow> bool" where
  "is_ascii s \<longleftrightarrow> list_all (\<lambda>c. byte_val c < 0x80) s"

definition lower_byte :: "char \<Rightarrow> char" where
  "lower_byte c = (if 65 \<le> byte_val c \<and> byte_val c \<le> 90 then char_of (byte_val c + 32) else c)"

definition lower_rune :: "(rune \<Rightarrow> rune) \<Rightarrow> rune \<Rightarrow> rune" where
  "lower_rune ul r =
     (if r < 0x80 then (if 65 \<le> r \<and> r \<le> 90 then r + 32 else r) else ul r)"

text \<open>\<^verbatim>\<open>strings.ToLower\<close>: byte-wise on ASCII, rune-wise otherwise.\<close>

definition to_lower :: "(rune \<Rightarrow> rune) \<Rightarrow> string \<Rightarrow> string" where
  "to_lower ul s =
     (if is_ascii s then map lower_byte s
      else concat (map (\<lambda>r. encode_rune (lower_rune ul r)) (runes s)))"

text \<open>\<^verbatim>\<open>unicode.IsSpace\<close> and \<^verbatim>\<open>strings.TrimSpace\<close>.\<close>

definition is_space :: "rune \<Rightarrow> bool" where
  "is_space r \<longleftrightarrow> (9 \<le> r \<and> r \<le> 13) \<or> r = 32 \<or> r = 0x85 \<or> r = 0xA0 \<or> r = 0x1680
     \<or> (0x2000 \<le> r \<and> r \<le> 0x200A) \<or> r = 0x2028 \<or> r = 0x2029 \<or> r = 0x202F \<or> r = 0x205F
     \<or> r = 0x3000"

definition trim_space :: "string \<Rightarrow> string" where
  "trim_space s =
     (let ch = dropWhile (\<lambda>p. is_space (fst p)) (rune_chunks s)
      in concat (map snd (rev (dropWhile (\<lambda>p. is_space (fst p)) (rev ch)))))"

text \<open>The prefix before the first occurrence of a byte (all of the string if there is none).\<close>

definition before_byte :: "char \<Rightarrow> string \<Rightarrow> string" where
  "before_byte c s = takeWhile (\<lambda>d. d \<noteq> c) s"

text \<open>\<^verbatim>\<open>strings.HasSuffix\<close>, \<^verbatim>\<open>strings.Contains\<close> and \<^verbatim>\<open>strings.Join\<close>.\<close>

definition has_suffix :: "string \<Rightarrow> string \<Rightarrow> bool" where
  "has_suffix s suf \<longleftrightarrow> suffix suf s"

fun contains :: "string \<Rightarrow> string \<Rightarrow> bool" where
  "contains [] sub \<longleftrightarrow> sub = []"
| "contains (c # cs) sub \<longleftrightarrow> prefix sub (c # cs) \<or> contains cs sub"

fun join :: "string \<Rightarrow> string list \<Rightarrow> string" where
  "join sep [] = []"
| "join sep [x] = x"
| "join sep (x # y # xs) = x @ sep @ join sep (y # xs)"

lemma is_ascii_simps [simp]:
  "is_ascii []" "is_ascii (c # cs) \<longleftrightarrow> byte_val c < 0x80 \<and> is_ascii cs"
  by (simp_all add: is_ascii_def)

lemma before_byte_append: "c \<notin> set a \<Longrightarrow> before_byte c (a @ c # b) = a"
  by (induction a) (auto simp: before_byte_def)

lemma before_byte_absent: "c \<notin> set a \<Longrightarrow> before_byte c a = a"
  by (induction a) (auto simp: before_byte_def)

lemma byte_val_lower:
  "byte_val (lower_byte c) = (if 65 \<le> byte_val c \<and> byte_val c \<le> 90 then byte_val c + 32 else byte_val c)"
  by (simp add: lower_byte_def take_bit_nat_eq_self)

lemma lower_byte_idem [simp]: "lower_byte (lower_byte c) = lower_byte c"
  by (auto simp: lower_byte_def [of "lower_byte c"] byte_val_lower)

lemma lower_byte_semicolon: "lower_byte c = CHR '';'' \<longleftrightarrow> c = CHR '';''"
proof -
  have "byte_val (lower_byte c) = byte_val CHR '';'' \<longleftrightarrow> byte_val c = byte_val CHR '';''"
    by (auto simp: byte_val_lower)
  then show ?thesis by (simp only: of_char_eq_iff)
qed

lemma is_ascii_lower: "is_ascii s \<Longrightarrow> is_ascii (map lower_byte s)"
  by (auto simp: is_ascii_def list_all_iff byte_val_lower)

lemma to_lower_ascii: "is_ascii s \<Longrightarrow> to_lower ul s = map lower_byte s"
  by (simp add: to_lower_def)

lemma runes_ascii_append: "is_ascii a \<Longrightarrow> runes (a @ b) = map byte_val a @ runes b"
  by (induction a) (simp_all add: runes_ascii_Cons)

lemma encode_lower_ascii: "byte_val c < 0x80 \<Longrightarrow> encode_rune (lower_rune ul (byte_val c)) = [lower_byte c]"
  by (simp add: lower_rune_def lower_byte_def encode_rune_ascii)

lemma to_lower_ascii_append:
  assumes "is_ascii a"
  shows "to_lower ul (a @ b) = map lower_byte a @ to_lower ul b"
proof -
  have "is_ascii (a @ b) \<longleftrightarrow> is_ascii b"
    using assms by (simp add: is_ascii_def)
  moreover have "concat (map (\<lambda>r. encode_rune (lower_rune ul r)) (map byte_val a)) = map lower_byte a"
    using assms by (induction a) (simp_all add: encode_lower_ascii)
  ultimately show ?thesis
    using assms by (simp add: to_lower_def runes_ascii_append)
qed

lemma rune_chunks_ascii: "is_ascii s \<Longrightarrow> rune_chunks s = map (\<lambda>c. (byte_val c, [c])) s"
  by (induction s) (simp_all add: rune_chunks_ascii_Cons)

lemma trim_space_ascii:
  assumes "is_ascii s" "s \<noteq> []" "\<not> is_space (byte_val (hd s))" "\<not> is_space (byte_val (last s))"
  shows "trim_space s = s"
proof -
  let ?ch = "map (\<lambda>c. (byte_val c, [c])) s" and ?sp = "\<lambda>p :: rune \<times> string. is_space (fst p)"
  have "dropWhile ?sp ?ch = ?ch"
    using assms(2,3) by (cases s) auto
  moreover have "dropWhile ?sp (rev ?ch) = rev ?ch"
    using assms(2,4) by (cases s rule: rev_cases) auto
  moreover have "concat (map snd ?ch) = s" by (induction s) auto
  ultimately show ?thesis by (simp only: trim_space_def rune_chunks_ascii [OF assms(1)] Let_def rev_rev_ident)
qed

lemma contains_iff_sublist: "contains s sub \<longleftrightarrow> sublist sub s"
  by (induction s) (auto simp: sublist_Cons_right)

section \<open>Package strconv\<close>

definition digit :: "nat \<Rightarrow> char" where
  "digit d = char_of (48 + d)"

fun nat_dec :: "nat \<Rightarrow> string" where
  "nat_dec n = (if n < 10 then [digit n] else nat_dec (n div 10) @ [digit (n mod 10)])"

declare nat_dec.simps [simp del]

text \<open>\<^verbatim>\<open>strconv.Itoa\<close>.\<close>

definition itoa :: "int \<Rightarrow> string" where
  "itoa i = (if i < 0 then CHR ''-'' # nat_dec (nat (- i)) else nat_dec (nat i))"

definition is_digit_byte :: "char \<Rightarrow> bool" where
  "is_digit_byte c \<longleftrightarrow> 48 \<le> byte_val c \<and> byte_val c \<le> 57"

definition dec_val :: "string \<Rightarrow> nat" where
  "dec_val s = foldl (\<lambda>n c. 10 * n + (byte_val c - 48)) 0 s"

text \<open>
  \<^verbatim>\<open>strconv.Atoi\<close>: an optional sign and decimal digits, within the range of \<^verbatim>\<open>int\<close>;
  \<open>None\<close> is the error.
\<close>

definition atoi :: "string \<Rightarrow> int option" where
  "atoi s =
     (let neg = (s \<noteq> [] \<and> hd s = CHR ''-'');
          ds = (if s \<noteq> [] \<and> (hd s = CHR ''-'' \<or> hd s = CHR ''+'') then tl s else s);
          n = int (dec_val ds)
      in if ds = [] \<or> \<not> list_all is_digit_byte ds then None
         else if neg then (if n \<le> 2 ^ 63 then Some (- n) else None)
         else (if n < 2 ^ 63 then Some n else None))"

lemma byte_val_digit [simp]: "d < 10 \<Longrightarrow> byte_val (digit d) = 48 + d"
  by (simp add: digit_def)

lemma is_digit_digit [simp]: "d < 10 \<Longrightarrow> is_digit_byte (digit d)"
  by (simp add: is_digit_byte_def)

lemma nat_dec_digits: "list_all is_digit_byte (nat_dec n)"
proof (induction n rule: nat_dec.induct)
  case (1 n)
  then show ?case by (cases "n < 10") (simp_all add: nat_dec.simps [of n])
qed

lemma nat_dec_not_Nil [simp]: "nat_dec n \<noteq> []"
  by (simp add: nat_dec.simps [of n])

lemma dec_val_snoc [simp]: "dec_val (s @ [c]) = 10 * dec_val s + (byte_val c - 48)"
  by (simp add: dec_val_def)

lemma dec_val_nat_dec [simp]: "dec_val (nat_dec n) = n"
proof (induction n rule: nat_dec.induct)
  case (1 n)
  then show ?case
    by (cases "n < 10") (simp_all add: nat_dec.simps [of n] dec_val_def)
qed

lemma nat_dec_inj: "nat_dec m = nat_dec n \<longleftrightarrow> m = n"
  by (metis dec_val_nat_dec)

lemma minus_not_digit: "list_all is_digit_byte s \<Longrightarrow> CHR ''-'' \<notin> set s"
  by (auto simp: list_all_iff is_digit_byte_def)

lemma itoa_nonneg: "0 \<le> i \<Longrightarrow> itoa i = nat_dec (nat i)"
  by (simp add: itoa_def)

lemma itoa_no_minus: "0 \<le> i \<Longrightarrow> CHR ''-'' \<notin> set (itoa i)"
  by (simp add: itoa_nonneg minus_not_digit nat_dec_digits)

lemma itoa_no_slash: "CHR ''/'' \<notin> set (itoa i)"
  using nat_dec_digits [of "nat i"] nat_dec_digits [of "nat (- i)"]
  by (auto simp: itoa_def list_all_iff is_digit_byte_def)

lemma atoi_itoa:
  assumes "- (2 ^ 63) \<le> i" "i < 2 ^ 63"
  shows "atoi (itoa i) = Some i"
proof (cases "i < 0")
  case True
  then show ?thesis
    using assms nat_dec_digits [of "nat (- i)"] by (simp add: atoi_def itoa_def Let_def)
next
  case False
  have "is_digit_byte (hd (nat_dec (nat i)))"
    using nat_dec_digits [of "nat i"] hd_in_set [OF nat_dec_not_Nil, of "nat i"]
    unfolding list_all_iff by blast
  then have "hd (nat_dec (nat i)) \<noteq> CHR ''-''" "hd (nat_dec (nat i)) \<noteq> CHR ''+''"
    by (auto simp: is_digit_byte_def)
  then show ?thesis
    using False assms nat_dec_digits [of "nat i"] by (simp add: atoi_def itoa_def Let_def)
qed

end
