(* ===== verification/Capture_Entry.thy ===== *)
theory Capture_Entry
  imports Go_Strings
begin

text \<open>
  \<^verbatim>\<open>internal/capture/entry.go\<close>: the captured entry and the generation of its identifier,
  together with the part of \<^verbatim>\<open>net/http\<close> the capture code sees (headers, URLs, body
  readers). The counter behind the identifiers is the process-wide atomic \<^verbatim>\<open>idCounter\<close>;
  it is passed through as a value. Clock readings are arguments.
\<close>

section \<open>The environment\<close>

text \<open>
  Tables and formatters of the standard library that the program only calls:
  \<^verbatim>\<open>unicode.ToLower\<close> on non-ASCII runes, \<^verbatim>\<open>(*url.URL).String\<close> and
  \<^verbatim>\<open>Time.Format("20060102150405")\<close>.
\<close>

record url =
  u_Scheme :: string
  u_Host :: string
  u_Path :: string
  u_RawQuery :: string

record std_env =
  unicode_lower :: "rune \<Rightarrow> rune"
  url_string :: "url \<Rightarrow> string"
  time_stamp :: "go_time \<Rightarrow> string"

type_synonym http_header = "string \<rightharpoonup> string list"
type_synonym str_map = "string \<rightharpoonup> string"

text \<open>\<^verbatim>\<open>http.Header.Get\<close> on a key that is already canonical: the first value or the empty string.\<close>

definition header_get :: "http_header \<Rightarrow> string \<Rightarrow> string" where
  "header_get h k = (case h k of Some (v # _) \<Rightarrow> v | _ \<Rightarrow> [])"

section \<open>Entries\<close>

type_synonym entry_id = string

record captured_entry =
  ce_ID :: entry_id
  ce_Timestamp :: go_time
  ce_DurationMs :: int
  ce_Method :: string
  ce_URL :: string
  ce_Scheme :: string
  ce_Host :: string
  ce_Path :: string
  ce_RequestHeaders :: str_map
  ce_RequestBody :: "string option"
  ce_StatusCode :: int
  ce_ResponseHeaders :: str_map
  ce_ResponseBody :: "string option"
  ce_ContentType :: string

text \<open>The zero value of the struct; a nil map and an empty map are not distinguished.\<close>

definition zero_entry :: captured_entry where
  "zero_entry = \<lparr> ce_ID = [], ce_Timestamp = 0, ce_DurationMs = 0, ce_Method = [], ce_URL = [],
     ce_Scheme = [], ce_Host = [], ce_Path = [], ce_RequestHeaders = Map.empty,
     ce_RequestBody = None, ce_StatusCode = 0, ce_ResponseHeaders = Map.empty,
     ce_ResponseBody = None, ce_ContentType = [] \<rparr>"

text \<open>A concrete environment, used by the witnesses.\<close>

definition demo_env :: std_env where
  "demo_env = \<lparr> unicode_lower = (\<lambda>r. r), url_string = (\<lambda>u. u_Scheme u @ ''://'' @ u_Host u @ u_Path u),
     time_stamp = (\<lambda>t. ''20260101000000'') \<rparr>"

section \<open>Identifiers\<close>

definition NewEntryID :: "std_env \<Rightarrow> go_time \<Rightarrow> int64 \<Rightarrow> entry_id \<times> int64" where
  "NewEntryID env now idCounter =
     (let n = idCounter + 1 in (time_stamp env now @ ''-'' @ itoa (sint n), n))"

text \<open>The identifiers of successive calls at the given clock readings.\<close>

fun entry_ids :: "std_env \<Rightarrow> go_time list \<Rightarrow> int64 \<Rightarrow> entry_id list" where
  "entry_ids env [] c = []"
| "entry_ids env (t # ts) c = (case NewEntryID env t c of (i, c') \<Rightarrow> i # entry_ids env ts c')"

text \<open>The counter part is what follows the last dash, whatever the time stamp looks like.\<close>

definition id_number :: "entry_id \<Rightarrow> string" where
  "id_number i = rev (takeWhile (\<lambda>c. c \<noteq> CHR ''-'') (rev i))"

lemma id_number_mk:
  assumes "CHR ''-'' \<notin> set d"
  shows "id_number (p @ CHR ''-'' # d) = d"
proof -
  have "takeWhile (\<lambda>c. c \<noteq> CHR ''-'') (rev d @ CHR ''-'' # rev p) = rev d"
    using assms by (subst takeWhile_append2) auto
  then show ?thesis by (simp add: id_number_def)
qed

lemma sint_Suc64: "0 \<le> sint c \<Longrightarrow> sint c < 2 ^ 63 - 1 \<Longrightarrow> sint (c + 1 :: int64) = sint c + 1"
  using sint_add64 [of c 1] by simp

lemma id_numbers_entry_ids:
  assumes "0 \<le> sint c" "sint c + int (length ts) < 2 ^ 63"
  shows "map id_number (entry_ids env ts c)
           = map (\<lambda>k. itoa (sint c + int k)) [1..<Suc (length ts)]"
  using assms
proof (induction ts arbitrary: c)
  case Nil
  then show ?case by simp
next
  case (Cons t ts)
  have c: "sint (c + 1) = sint c + 1"
    using Cons.prems by (intro sint_Suc64) auto
  have "map id_number (entry_ids env ts (c + 1))
          = map (\<lambda>k. itoa (sint c + 1 + int k)) [1..<Suc (length ts)]"
    using Cons.IH [of "c + 1"] Cons.prems c by simp
  also have "\<dots> = map (\<lambda>k. itoa (sint c + int k)) [2..<Suc (Suc (length ts))]"
    by (rule nth_equalityI) (auto simp: add.commute add.left_commute simp del: upt_Suc)
  finally have tl: "map id_number (entry_ids env ts (c + 1))
      = map (\<lambda>k. itoa (sint c + int k)) [2..<Suc (Suc (length ts))]" .
  have "[1..<Suc (Suc (length ts))] = 1 # [2..<Suc (Suc (length ts))]"
    by (simp add: upt_conv_Cons numeral_2_eq_2 del: upt_Suc)
  then show ?case
    using tl c Cons.prems(1) by (simp add: NewEntryID_def Let_def id_number_mk itoa_no_minus del: upt_Suc)
qed

lemma itoa_inj_nonneg: "0 \<le> i \<Longrightarrow> 0 \<le> j \<Longrightarrow> itoa i = itoa j \<longleftrightarrow> i = j"
  by (simp add: itoa_nonneg nat_dec_inj nat_eq_iff)

text \<open>
  Entry identifiers never repeat within a process: for any clock readings (even equal
  ones) and any time-stamp format, successive calls of \<^verbatim>\<open>NewEntryID\<close> return distinct
  identifiers as long as the counter has not left the positive range of \<^verbatim>\<open>int64\<close>.
\<close>

theorem entry_ids_distinct:
  assumes "0 \<le> sint c" "sint c + int (length ts) < 2 ^ 63"
  shows "distinct (entry_ids env ts c)"
proof -
  have "distinct (map id_number (entry_ids env ts c))"
    unfolding id_numbers_entry_ids [OF assms]
    using assms by (auto simp: distinct_map inj_on_def itoa_inj_nonneg)
  then show ?thesis by (simp add: distinct_map)
qed

theorem entry_ids_distinct_witness: "distinct (entry_ids demo_env [7, 7, 7] 0)"
  by (rule entry_ids_distinct) simp_all

end
