(* ===== verification/Capture_Recorder.thy ===== *)
theory Capture_Recorder
  imports Capture_Entry
begin

text \<open>
  \<^verbatim>\<open>internal/capture/capture.go\<close>: what is recorded of a request and of a response.
  Body readers are finite byte streams that end with EOF or with an error. The limits are
  64-bit words, because \<^verbatim>\<open>limit+1\<close> is computed on them. The interface \<^verbatim>\<open>Recorder\<close> is
  the locale \<open>recorder\<close>, interpreted on \<^verbatim>\<open>DefaultRecorder\<close>.
\<close>

section \<open>Readers and requests\<close>

record reader =
  rd_bytes :: string
  rd_err :: "string option"

text \<open>
  \<^verbatim>\<open>io.ReadAll\<close> returns what was read together with the error; \<^verbatim>\<open>io.LimitReader(r, n)\<close>
  reports EOF after \<open>n\<close> bytes without touching the rest, and at once when \<open>n \<le> 0\<close>.
\<close>

definition ReadAll :: "reader \<Rightarrow> (string \<times> string option) \<times> reader" where
  "ReadAll r = ((rd_bytes r, rd_err r), r\<lparr>rd_bytes := []\<rparr>)"

definition ReadAllLimit :: "int64 \<Rightarrow> reader \<Rightarrow> (string \<times> string option) \<times> reader" where
  "ReadAllLimit n r =
     (let k = nat (sint n) in
      if k \<le> length (rd_bytes r)
      then ((take k (rd_bytes r), None), r\<lparr>rd_bytes := drop k (rd_bytes r)\<rparr>)
      else ReadAll r)"

text \<open>\<^verbatim>\<open>io.MultiReader(bytes.NewReader(b), r)\<close>.\<close>

definition prepend :: "string \<Rightarrow> reader \<Rightarrow> reader" where
  "prepend b r = r\<lparr>rd_bytes := b @ rd_bytes r\<rparr>"

record http_request =
  rq_Method :: string
  rq_URL :: url
  rq_Host :: string
  rq_Header :: http_header
  rq_Body :: "reader option"

section \<open>Headers\<close>

definition redactedHeaders :: "string list" where
  "redactedHeaders = [''authorization'', ''cookie'', ''set-cookie'', ''proxy-authorization'']"

definition redactHeader :: "string \<Rightarrow> bool" where
  "redactHeader key \<longleftrightarrow> key \<in> set redactedHeaders"

definition joinValues :: "string list \<Rightarrow> string" where
  "joinValues v = (if length v = 1 then v ! 0 else join '', '' v)"

definition redacted_value :: string where
  "redacted_value = ''***REDACTED***''"

definition headersToMap :: "std_env \<Rightarrow> http_header \<Rightarrow> str_map" where
  "headersToMap env h =
     (\<lambda>k. case h k of None \<Rightarrow> None
        | Some v \<Rightarrow> Some (if redactHeader (to_lower (unicode_lower env) k) then redacted_value
                          else joinValues v))"

section \<open>Requests\<close>

definition readBounded :: "reader \<Rightarrow> int64 \<Rightarrow> (string \<times> string option) \<times> reader" where
  "readBounded r limit = (if sint limit \<le> 0 then ReadAll r else ReadAllLimit (limit + 1) r)"

definition request_entry :: "std_env \<Rightarrow> http_request \<Rightarrow> captured_entry" where
  "request_entry env req = zero_entry\<lparr> ce_Method := rq_Method req,
     ce_URL := url_string env (rq_URL req), ce_Scheme := u_Scheme (rq_URL req),
     ce_Host := u_Host (rq_URL req), ce_Path := u_Path (rq_URL req),
     ce_RequestHeaders := headersToMap env (rq_Header req) \<rparr>"

definition captureRequest :: "std_env \<Rightarrow> http_request \<Rightarrow> int64 \<Rightarrow> captured_entry \<times> http_request" where
  "captureRequest env req limit =
     (let entry = request_entry env req in
      case rq_Body req of
        None \<Rightarrow> (entry, req)
      | Some r \<Rightarrow>
          (case readBounded r limit of ((buffered, err), r') \<Rightarrow>
             (case err of
                None \<Rightarrow> (entry\<lparr>ce_RequestBody := Some buffered\<rparr>,
                         req\<lparr>rq_Body := Some (prepend buffered r')\<rparr>)
              | Some _ \<Rightarrow> (entry, req\<lparr>rq_Body := Some r'\<rparr>))))"

definition CaptureRequest :: "std_env \<Rightarrow> http_request \<Rightarrow> captured_entry \<times> http_request" where
  "CaptureRequest env req = captureRequest env req (- 1)"

section \<open>Responses\<close>

definition isToleratedControl :: "rune \<Rightarrow> bool" where
  "isToleratedControl r \<longleftrightarrow> r = 10 \<or> r = 13 \<or> r = 9"

definition isPrintableChar :: "rune \<Rightarrow> bool" where
  "isPrintableChar r \<longleftrightarrow> 32 \<le> r \<or> isToleratedControl r"

definition isPrintable :: "string \<Rightarrow> bool" where
  "isPrintable s \<longleftrightarrow> list_all isPrintableChar (runes s)"

definition NormalizeMediaType :: "std_env \<Rightarrow> string \<Rightarrow> string" where
  "NormalizeMediaType env contentType =
     trim_space (before_byte (CHR '';'') (to_lower (unicode_lower env) contentType))"

definition hasJSONMarker :: "string \<Rightarrow> bool" where
  "hasJSONMarker ct \<longleftrightarrow> has_suffix ct ''+json'' \<or> contains ct ''ndjson''"

definition isJSONMimeType :: "string \<Rightarrow> bool" where
  "isJSONMimeType ct \<longleftrightarrow> ct = ''application/json'' \<or> ct = ''text/json'' \<or> hasJSONMarker ct"

definition IsJSONContentType :: "std_env \<Rightarrow> string \<Rightarrow> bool" where
  "IsJSONContentType env contentType = isJSONMimeType (NormalizeMediaType env contentType)"

definition worthCapturing :: "std_env \<Rightarrow> string \<Rightarrow> string \<Rightarrow> bool" where
  "worthCapturing env s contentType \<longleftrightarrow> isPrintable s \<or> IsJSONContentType env contentType"

definition captureBody :: "std_env \<Rightarrow> string \<Rightarrow> string \<Rightarrow> string option" where
  "captureBody env bodyBytes contentType =
     (if bodyBytes = [] then None
      else if worthCapturing env bodyBytes contentType then Some bodyBytes else None)"

record capture_result =
  cr_StatusCode :: int
  cr_ResponseHeaders :: str_map
  cr_ResponseBody :: "string option"
  cr_ContentType :: string
  cr_DurationMs :: int

definition CaptureResponse ::
  "std_env \<Rightarrow> int \<Rightarrow> http_header \<Rightarrow> string \<Rightarrow> go_time \<Rightarrow> go_time \<Rightarrow> capture_result" where
  "CaptureResponse env statusCode header bodyBytes start now =
     (let ct = header_get header ''Content-Type'' in
      \<lparr> cr_StatusCode = statusCode, cr_ResponseHeaders = headersToMap env header,
        cr_ResponseBody = captureBody env bodyBytes ct, cr_ContentType = ct,
        cr_DurationMs = since_ms start now \<rparr>)"

text \<open>
  \<^verbatim>\<open>CombineEntry\<close> reads the clock twice: inside \<^verbatim>\<open>NewEntryID\<close> (\<open>now1\<close>) and for the
  time stamp of the entry (\<open>now2\<close>). It returns the entry and the advanced counter.
\<close>

definition CombineEntry ::
  "std_env \<Rightarrow> go_time \<Rightarrow> go_time \<Rightarrow> int64 \<Rightarrow> captured_entry \<Rightarrow> capture_result
     \<Rightarrow> captured_entry \<times> int64" where
  "CombineEntry env now1 now2 idCounter reqEntry result =
     (case NewEntryID env now1 idCounter of (i, c) \<Rightarrow>
        (reqEntry\<lparr> ce_StatusCode := cr_StatusCode result,
           ce_ResponseHeaders := cr_ResponseHeaders result,
           ce_ResponseBody := cr_ResponseBody result,
           ce_ContentType := cr_ContentType result,
           ce_DurationMs := cr_DurationMs result,
           ce_ID := i, ce_Timestamp := now2 \<rparr>, c))"

section \<open>The default recorder\<close>

record default_recorder =
  RequestBodyLimit :: int64
  ResponseBodyLimit :: int64

definition NewDefaultRecorder :: "int64 \<Rightarrow> int64 \<Rightarrow> default_recorder" where
  "NewDefaultRecorder requestBodyLimit responseBodyLimit =
     \<lparr> RequestBodyLimit = requestBodyLimit, ResponseBodyLimit = responseBodyLimit \<rparr>"

definition overLimit :: "int64 \<Rightarrow> nat \<Rightarrow> bool" where
  "overLimit limit n \<longleftrightarrow> 0 < sint limit \<and> sint limit < int n"

definition drop_over :: "int64 \<Rightarrow> string option \<Rightarrow> string option" where
  "drop_over limit body =
     (case body of None \<Rightarrow> None | Some b \<Rightarrow> if overLimit limit (length b) then None else Some b)"

definition recorder_CaptureRequest ::
  "std_env \<Rightarrow> default_recorder \<Rightarrow> http_request \<Rightarrow> captured_entry \<times> http_request" where
  "recorder_CaptureRequest env r req =
     (case captureRequest env req (RequestBodyLimit r) of (entry, req') \<Rightarrow>
        (entry\<lparr>ce_RequestBody := drop_over (RequestBodyLimit r) (ce_RequestBody entry)\<rparr>, req'))"

definition recorder_CaptureResponse ::
  "std_env \<Rightarrow> default_recorder \<Rightarrow> int \<Rightarrow> http_header \<Rightarrow> string \<Rightarrow> go_time \<Rightarrow> go_time
     \<Rightarrow> capture_result" where
  "recorder_CaptureResponse env r statusCode header bodyBytes start now =
     (let result = CaptureResponse env statusCode header bodyBytes start now in
      result\<lparr>cr_ResponseBody := drop_over (ResponseBodyLimit r) (cr_ResponseBody result)\<rparr>)"

definition recorder_CombineEntry ::
  "std_env \<Rightarrow> default_recorder \<Rightarrow> go_time \<Rightarrow> go_time \<Rightarrow> int64 \<Rightarrow> captured_entry \<Rightarrow> capture_result
     \<Rightarrow> captured_entry \<times> int64" where
  "recorder_CombineEntry env r = CombineEntry env"

section \<open>Facts shared by the proofs below\<close>

text \<open>Two header maps that differ at most in the values of credential headers.\<close>

definition same_but_credentials :: "std_env \<Rightarrow> http_header \<Rightarrow> http_header \<Rightarrow> bool" where
  "same_but_credentials env h h' \<longleftrightarrow>
     (\<forall>k. if redactHeader (to_lower (unicode_lower env) k) then (h k = None) = (h' k = None)
          else h k = h' k)"

lemma headersToMap_cong: "same_but_credentials env h h' \<Longrightarrow> headersToMap env h = headersToMap env h'"
proof
  fix k
  assume "same_but_credentials env h h'"
  then have "if redactHeader (to_lower (unicode_lower env) k) then (h k = None) = (h' k = None)
             else h k = h' k"
    unfolding same_but_credentials_def by blast
  then show "headersToMap env h k = headersToMap env h' k"
    by (auto simp: headersToMap_def split: if_splits option.splits)
qed

lemma content_type_not_redacted: "\<not> redactHeader (to_lower ul ''Content-Type'')"
  by (simp add: to_lower_ascii lower_byte_def redactHeader_def redactedHeaders_def)

lemma header_get_content_type_cong:
  "same_but_credentials env h h' \<Longrightarrow> header_get h ''Content-Type'' = header_get h' ''Content-Type''"
  unfolding same_but_credentials_def header_get_def
  using content_type_not_redacted [of "unicode_lower env"] by (metis (no_types, lifting))

lemma drop_over_Some: "drop_over limit body = Some b \<longleftrightarrow> body = Some b \<and> \<not> overLimit limit (length b)"
  by (auto simp: drop_over_def split: option.splits)

lemma prepend_take_drop [simp]:
  "prepend (take k (rd_bytes r)) (r\<lparr>rd_bytes := drop k (rd_bytes r)\<rparr>) = r"
  by (simp add: prepend_def)

lemma prepend_all [simp]: "prepend (rd_bytes r) (r\<lparr>rd_bytes := []\<rparr>) = r"
  by (simp add: prepend_def)

text \<open>A bounded read splits the stream: what it returns and what it leaves make up the original.\<close>

lemma readBounded_split:
  assumes "readBounded r limit = ((b, err), r')"
  shows "prepend b r' = r" and "err = None \<or> err = rd_err r"
  using assms by (auto simp: readBounded_def ReadAll_def ReadAllLimit_def Let_def split: if_splits)

lemma readBounded_eof:
  assumes "rd_err r = None"
  shows "\<exists>b r'. readBounded r limit = ((b, None), r') \<and> prepend b r' = r"
proof -
  obtain b err r' where eq: "readBounded r limit = ((b, err), r')"
    by (metis prod.exhaust)
  then show ?thesis
    using readBounded_split [OF eq] assms by auto
qed

lemma captureRequest_request:
  assumes "\<And>r. rq_Body req = Some r \<Longrightarrow> rd_err r = None"
  shows "snd (captureRequest env req limit) = req"
proof (cases "rq_Body req")
  case None
  then show ?thesis by (simp add: captureRequest_def)
next
  case (Some r)
  then obtain b r' where "readBounded r limit = ((b, None), r')" "prepend b r' = r"
    using assms readBounded_eof by blast
  with Some show ?thesis by (simp add: captureRequest_def)
qed

section \<open>The interface Recorder\<close>

text \<open>
  What the proxy relies on: recording a request leaves a request whose body ends normally
  exactly as it was, recorded bodies respect the limits, headers are recorded only up to
  the values of credential headers, and combining keeps both halves.
\<close>

locale recorder =
  fixes env :: std_env
    and capture_request :: "http_request \<Rightarrow> captured_entry \<times> http_request"
    and capture_response :: "int \<Rightarrow> http_header \<Rightarrow> string \<Rightarrow> go_time \<Rightarrow> go_time \<Rightarrow> capture_result"
    and combine :: "go_time \<Rightarrow> go_time \<Rightarrow> int64 \<Rightarrow> captured_entry \<Rightarrow> capture_result
                      \<Rightarrow> captured_entry \<times> int64"
    and req_limit resp_limit :: int64
  assumes request_kept:
      "(\<And>r. rq_Body req = Some r \<Longrightarrow> rd_err r = None) \<Longrightarrow> snd (capture_request req) = req"
    and request_hides: "same_but_credentials env h h' \<Longrightarrow>
      fst (capture_request (req\<lparr>rq_Header := h\<rparr>)) = fst (capture_request (req\<lparr>rq_Header := h'\<rparr>))"
    and response_hides: "same_but_credentials env h h' \<Longrightarrow>
      capture_response st h b t0 t1 = capture_response st h' b t0 t1"
    and request_bounded: "0 < sint req_limit \<Longrightarrow>
      ce_RequestBody (fst (capture_request req)) = Some b \<Longrightarrow> int (length b) \<le> sint req_limit"
    and response_bounded: "0 < sint resp_limit \<Longrightarrow>
      cr_ResponseBody (capture_response st h bb t0 t1) = Some b \<Longrightarrow> int (length b) \<le> sint resp_limit"
    and combine_bodies:
      "ce_RequestBody (fst (combine n1 n2 c e res)) = ce_RequestBody e"
      "ce_ResponseBody (fst (combine n1 n2 c e res)) = cr_ResponseBody res"
begin

text \<open>The entry of a whole exchange: request, response, combination.\<close>

definition exchange ::
  "http_request \<Rightarrow> int \<Rightarrow> http_header \<Rightarrow> string \<Rightarrow> go_time \<Rightarrow> go_time \<Rightarrow> go_time \<Rightarrow> go_time
     \<Rightarrow> int64 \<Rightarrow> captured_entry" where
  "exchange req st h b t0 t1 n1 n2 c =
     fst (combine n1 n2 c (fst (capture_request req)) (capture_response st h b t0 t1))"

lemma exchange_hides:
  assumes "same_but_credentials env hq hq'" "same_but_credentials env hs hs'"
  shows "exchange (req\<lparr>rq_Header := hq\<rparr>) st hs b t0 t1 n1 n2 c
           = exchange (req\<lparr>rq_Header := hq'\<rparr>) st hs' b t0 t1 n1 n2 c"
  unfolding exchange_def request_hides [OF assms(1)] response_hides [OF assms(2)] ..

lemma exchange_bounded:
  "0 < sint req_limit \<Longrightarrow> ce_RequestBody (exchange req st h b t0 t1 n1 n2 c) = Some x
     \<Longrightarrow> int (length x) \<le> sint req_limit"
  "0 < sint resp_limit \<Longrightarrow> ce_ResponseBody (exchange req st h b t0 t1 n1 n2 c) = Some y
     \<Longrightarrow> int (length y) \<le> sint resp_limit"
  by (auto simp: exchange_def combine_bodies dest: request_bounded response_bounded)

end

interpretation default_rec: recorder env "recorder_CaptureRequest env r"
  "recorder_CaptureResponse env r" "recorder_CombineEntry env r"
  "RequestBodyLimit r" "ResponseBodyLimit r" for env r
proof unfold_locales
  fix req :: http_request
  assume "\<And>r. rq_Body req = Some r \<Longrightarrow> rd_err r = None"
  then show "snd (recorder_CaptureRequest env r req) = req"
    using captureRequest_request [of req env "RequestBodyLimit r"]
    by (auto simp: recorder_CaptureRequest_def split: prod.splits)
next
  fix h h' req
  assume "same_but_credentials env h h'"
  then show "fst (recorder_CaptureRequest env r (req\<lparr>rq_Header := h\<rparr>))
      = fst (recorder_CaptureRequest env r (req\<lparr>rq_Header := h'\<rparr>))"
    by (auto simp: recorder_CaptureRequest_def captureRequest_def request_entry_def Let_def
          headersToMap_cong split: option.splits prod.splits)
next
  fix h h' st b t0 t1
  assume "same_but_credentials env h h'"
  then show "recorder_CaptureResponse env r st h b t0 t1 = recorder_CaptureResponse env r st h' b t0 t1"
    by (simp add: recorder_CaptureResponse_def CaptureResponse_def headersToMap_cong
          header_get_content_type_cong)
next
  fix req b
  assume "0 < sint (RequestBodyLimit r)"
    "ce_RequestBody (fst (recorder_CaptureRequest env r req)) = Some b"
  then show "int (length b) \<le> sint (RequestBodyLimit r)"
    by (auto simp: recorder_CaptureRequest_def drop_over_Some overLimit_def split: prod.splits)
next
  fix st h bb t0 t1 b
  assume "0 < sint (ResponseBodyLimit r)"
    "cr_ResponseBody (recorder_CaptureResponse env r st h bb t0 t1) = Some b"
  then show "int (length b) \<le> sint (ResponseBodyLimit r)"
    by (auto simp: recorder_CaptureResponse_def Let_def drop_over_Some overLimit_def)
qed (simp_all add: recorder_CombineEntry_def CombineEntry_def split: prod.splits)

lemma isPrintable_bytes:
  "isPrintable s = list_all (\<lambda>c. 32 \<le> byte_val c \<or> byte_val c \<in> {9, 10, 13}) s"
proof -
  have "isPrintable s \<longleftrightarrow> (\<forall>c \<in> set s. byte_val c < 0x80 \<longrightarrow> isPrintableChar (byte_val c))"
    unfolding isPrintable_def by (rule list_all_runes) (simp add: isPrintableChar_def)
  then show ?thesis
    by (auto simp: list_all_iff isPrintableChar_def isToleratedControl_def)
qed

section \<open>Properties of the recorder\<close>

definition demo_request :: http_request where
  "demo_request = \<lparr> rq_Method = ''POST'',
     rq_URL = \<lparr> u_Scheme = ''http'', u_Host = ''a.example:80'', u_Path = ''/login'', u_RawQuery = [] \<rparr>,
     rq_Host = ''a.example:80'', rq_Header = [''Cookie'' \<mapsto> [''sid=1''], ''Accept'' \<mapsto> [''a'', ''b'']],
     rq_Body = Some \<lparr> rd_bytes = ''user=x'', rd_err = None \<rparr> \<rparr>"

lemma cookie_redacted: "redactHeader (to_lower ul ''Cookie'')"
  by (simp add: to_lower_ascii lower_byte_def char_of_eq_iff redactHeader_def redactedHeaders_def)

text \<open>
  Credentials never reach a captured entry: two exchanges whose requests and whose
  responses differ only in the values of credential headers (authorization, cookie,
  set-cookie, proxy-authorization, in any capitalisation) produce the same entry, so
  nothing that is stored, streamed or written depends on a credential.
\<close>

theorem entry_hides_credentials:
  assumes "same_but_credentials env hq hq'" and "same_but_credentials env hs hs'"
  shows "recorder_CombineEntry env r n1 n2 c
           (fst (recorder_CaptureRequest env r (req\<lparr>rq_Header := hq\<rparr>)))
           (recorder_CaptureResponse env r st hs b t0 t1)
       = recorder_CombineEntry env r n1 n2 c
           (fst (recorder_CaptureRequest env r (req\<lparr>rq_Header := hq'\<rparr>)))
           (recorder_CaptureResponse env r st hs' b t0 t1)"
  using default_rec.request_hides [OF assms(1)] default_rec.response_hides [OF assms(2)] by simp

theorem entry_hides_credentials_witness:
  "recorder_CombineEntry demo_env (NewDefaultRecorder 0 0) 1 2 0
     (fst (recorder_CaptureRequest demo_env (NewDefaultRecorder 0 0)
             (demo_request\<lparr>rq_Header := [''Cookie'' \<mapsto> [''sid=1'']]\<rparr>)))
     (recorder_CaptureResponse demo_env (NewDefaultRecorder 0 0) 200 Map.empty ''ok'' 0 1)
   = recorder_CombineEntry demo_env (NewDefaultRecorder 0 0) 1 2 0
     (fst (recorder_CaptureRequest demo_env (NewDefaultRecorder 0 0)
             (demo_request\<lparr>rq_Header := [''Cookie'' \<mapsto> [''sid=2'', ''x'']]\<rparr>)))
     (recorder_CaptureResponse demo_env (NewDefaultRecorder 0 0) 200 Map.empty ''ok'' 0 1)"
  by (rule entry_hides_credentials) (auto simp: same_but_credentials_def cookie_redacted)

text \<open>
  Recording a request is transparent to proxying: if the request body ends normally,
  the request handed on after recording is exactly the request that came in, for every
  capture limit (the consumed prefix is put back in front of the unread rest).
\<close>

theorem recorder_request_transparent:
  assumes "\<And>rd. rq_Body req = Some rd \<Longrightarrow> rd_err rd = None"
  shows "snd (recorder_CaptureRequest env r req) = req"
  using assms by (rule default_rec.request_kept)

theorem recorder_request_transparent_witness:
  "snd (recorder_CaptureRequest demo_env (NewDefaultRecorder 3 0) demo_request) = demo_request"
  by (rule recorder_request_transparent) (simp add: demo_request_def)

text \<open>
  Exactly which request bodies are recorded: with a limit below the largest
  \<^verbatim>\<open>int64\<close>, a body that ends normally is recorded whole if it fits the limit (or the limit
  is 0 or negative, meaning unlimited) and not at all otherwise; never a proper prefix.
\<close>

theorem recorder_request_body:
  assumes "rq_Body req = Some rd" and "rd_err rd = None" and "sint (RequestBodyLimit r) < 2 ^ 63 - 1"
  shows "ce_RequestBody (fst (recorder_CaptureRequest env r req)) =
     (if 0 < sint (RequestBodyLimit r) \<and> sint (RequestBodyLimit r) < int (length (rd_bytes rd))
      then None else Some (rd_bytes rd))"
proof (cases "sint (RequestBodyLimit r) \<le> 0")
  case True
  then show ?thesis
    using assms by (simp add: recorder_CaptureRequest_def captureRequest_def readBounded_def
        ReadAll_def drop_over_def overLimit_def)
next
  case False
  then have "sint (RequestBodyLimit r + 1) = sint (RequestBodyLimit r) + 1"
    using assms(3) by (intro sint_Suc64) auto
  then show ?thesis
    using assms False by (auto simp: recorder_CaptureRequest_def captureRequest_def readBounded_def
        ReadAllLimit_def ReadAll_def drop_over_def overLimit_def Let_def)
qed

theorem recorder_request_body_witness:
  "ce_RequestBody (fst (recorder_CaptureRequest demo_env (NewDefaultRecorder 6 0) demo_request))
     = Some ''user=x''
   \<and> ce_RequestBody (fst (recorder_CaptureRequest demo_env (NewDefaultRecorder 5 0) demo_request))
     = None"
  using recorder_request_body [of demo_request "\<lparr> rd_bytes = ''user=x'', rd_err = None \<rparr>"
      "NewDefaultRecorder 6 0" demo_env]
    recorder_request_body [of demo_request "\<lparr> rd_bytes = ''user=x'', rd_err = None \<rparr>"
      "NewDefaultRecorder 5 0" demo_env]
  by (simp add: demo_request_def NewDefaultRecorder_def)

text \<open>
  The bound \<^verbatim>\<open>limit+1\<close> wraps at the largest \<^verbatim>\<open>int64\<close>: with that limit every
  request body, however long, is recorded as the empty string.
\<close>

theorem recorder_request_limit_wraps:
  assumes "rq_Body req = Some rd" and "RequestBodyLimit r = 2 ^ 63 - 1"
  shows "ce_RequestBody (fst (recorder_CaptureRequest env r req)) = Some []"
  using assms by (simp add: recorder_CaptureRequest_def captureRequest_def readBounded_def
      ReadAllLimit_def drop_over_def overLimit_def)

theorem recorder_request_limit_wraps_witness:
  "ce_RequestBody (fst (recorder_CaptureRequest demo_env (NewDefaultRecorder (2 ^ 63 - 1) 0) demo_request))
     = Some []"
  by (rule recorder_request_limit_wraps [of _ "\<lparr> rd_bytes = ''user=x'', rd_err = None \<rparr>"])
    (simp_all add: demo_request_def NewDefaultRecorder_def)

text \<open>
  A request body that fails while it is read without a limit loses what was consumed:
  nothing is recorded and the request goes on with an empty rest, not with the consumed
  prefix followed by the rest.
\<close>

theorem recorder_request_error_loses_prefix:
  assumes "rq_Body req = Some rd" and "rd_err rd = Some e" and "sint (RequestBodyLimit r) \<le> 0"
  shows "ce_RequestBody (fst (recorder_CaptureRequest env r req)) = None
    \<and> rq_Body (snd (recorder_CaptureRequest env r req)) = Some (rd\<lparr>rd_bytes := []\<rparr>)"
  using assms by (simp add: recorder_CaptureRequest_def captureRequest_def readBounded_def
      ReadAll_def drop_over_def request_entry_def zero_entry_def)

theorem recorder_request_error_loses_prefix_witness:
  "rq_Body (snd (recorder_CaptureRequest demo_env (NewDefaultRecorder 0 0)
      (demo_request\<lparr>rq_Body := Some \<lparr> rd_bytes = ''abc'', rd_err = Some ''reset'' \<rparr>\<rparr>)))
   = Some \<lparr> rd_bytes = [], rd_err = Some ''reset'' \<rparr>"
  using recorder_request_error_loses_prefix
    [of "demo_request\<lparr>rq_Body := Some \<lparr> rd_bytes = ''abc'', rd_err = Some ''reset'' \<rparr>\<rparr>"
      "\<lparr> rd_bytes = ''abc'', rd_err = Some ''reset'' \<rparr>" "''reset''" "NewDefaultRecorder 0 0" demo_env]
  by (simp add: NewDefaultRecorder_def)

text \<open>
  The printability test, which decodes runes, is a test of single bytes: a body is
  printable exactly if every byte is at least 32 or a tab, newline or carriage return.
\<close>

theorem isPrintable_bytewise:
  "isPrintable s = list_all (\<lambda>c. 32 \<le> byte_val c \<or> byte_val c \<in> {9, 10, 13}) s"
  by (rule isPrintable_bytes)

text \<open>
  Exactly which response bodies are recorded: the whole body, if it is not empty, is
  printable or declared as JSON, and does not exceed a positive limit.
\<close>

theorem recorder_response_body:
  "(cr_ResponseBody (recorder_CaptureResponse env r st h body t0 t1) = Some b) =
     (b = body \<and> body \<noteq> []
      \<and> (isPrintable body \<or> IsJSONContentType env (header_get h ''Content-Type''))
      \<and> (sint (ResponseBodyLimit r) \<le> 0 \<or> int (length body) \<le> sint (ResponseBodyLimit r)))"
  by (auto simp: recorder_CaptureResponse_def CaptureResponse_def captureBody_def worthCapturing_def
      drop_over_Some overLimit_def Let_def)

text \<open>
  The media type ignores parameters and capitalisation: for an ASCII type without a
  semicolon, neither appended parameters (of any bytes) nor changing ASCII upper-case
  letters to lower case changes the normalised type, hence not the JSON decision either.
\<close>

theorem NormalizeMediaType_parameters:
  assumes "is_ascii ct" and "CHR '';'' \<notin> set ct"
  shows "NormalizeMediaType env (ct @ CHR '';'' # params) = NormalizeMediaType env ct
    \<and> NormalizeMediaType env (map lower_byte ct) = NormalizeMediaType env ct"
proof -
  let ?lt = "map lower_byte ct"
  have no_semi: "CHR '';'' \<notin> set ?lt"
    using assms(2) lower_byte_semicolon by (metis (no_types, lifting) image_iff list.set_map)
  have "to_lower (unicode_lower env) (ct @ CHR '';'' # params)
      = ?lt @ CHR '';'' # to_lower (unicode_lower env) params"
    using to_lower_ascii_append [of "ct @ '';''" _ params] assms(1)
    by (simp add: is_ascii_def lower_byte_def)
  then have "before_byte (CHR '';'') (to_lower (unicode_lower env) (ct @ CHR '';'' # params)) = ?lt"
    using no_semi by (metis before_byte_append)
  moreover have "before_byte (CHR '';'') ?lt = ?lt"
    using no_semi by (rule before_byte_absent)
  moreover have "to_lower (unicode_lower env) ?lt = ?lt"
    using assms(1) by (simp add: to_lower_ascii is_ascii_lower lower_byte_idem)
  ultimately show ?thesis
    using assms(1) by (simp add: NormalizeMediaType_def to_lower_ascii)
qed

theorem NormalizeMediaType_parameters_witness:
  "NormalizeMediaType demo_env (''Application/JSON'' @ CHR '';'' # '' charset=utf-8'')
     = NormalizeMediaType demo_env ''Application/JSON''"
  using NormalizeMediaType_parameters [of "''Application/JSON''" demo_env "'' charset=utf-8''"]
  by simp

end
