(* ===== verification/Go_Paths.thy ===== *)
theory Go_Paths
  imports Go_Strings
begin

text \<open>
  The functions of \<^verbatim>\<open>path/filepath\<close> and \<^verbatim>\<open>net\<close> that the program uses on names it does not
  control: \<^verbatim>\<open>filepath.Clean\<close> and \<^verbatim>\<open>filepath.Join\<close> (Unix), and \<^verbatim>\<open>net.SplitHostPort\<close> and
  \<^verbatim>\<open>net.JoinHostPort\<close>. A path denotes whether it is rooted and the list of its segments
  after lexical resolution of \<^verbatim>\<open>.\<close> and \<^verbatim>\<open>..\<close>; confinement of an output file is stated on
  this denotation.
\<close>

section \<open>Splitting\<close>

fun split_byte :: "char \<Rightarrow> string \<Rightarrow> string list" where
  "split_byte c [] = [[]]"
| "split_byte c (x # xs) =
     (if x = c then [] # split_byte c xs
      else (case split_byte c xs of [] \<Rightarrow> [[x]] | y # ys \<Rightarrow> (x # y) # ys))"

lemma split_byte_not_Nil [simp]: "split_byte c s \<noteq> []"
  by (induction s) (auto split: list.splits)

lemma split_byte_append: "split_byte c (a @ c # b) = split_byte c a @ split_byte c b"
proof (induction a)
  case (Cons x a)
  obtain y ys where "split_byte c a = y # ys"
    by (meson split_byte_not_Nil neq_Nil_conv)
  with Cons show ?case by simp
qed simp

lemma split_byte_absent: "c \<notin> set s \<Longrightarrow> split_byte c s = [s]"
  by (induction s) auto

lemma split_byte_parts: "p \<in> set (split_byte c s) \<Longrightarrow> c \<notin> set p"
proof (induction s arbitrary: p)
  case (Cons x s)
  obtain y ys where y: "split_byte c s = y # ys"
    by (meson split_byte_not_Nil neq_Nil_conv)
  with Cons show ?case by (auto split: if_splits)
qed simp

lemma split_byte_join:
  assumes "\<And>p. p \<in> set ps \<Longrightarrow> c \<notin> set p" "ps \<noteq> []"
  shows "split_byte c (join [c] ps) = ps"
  using assms
proof (induction ps rule: induct_list012)
  case (3 x y zs)
  then show ?case by (simp add: split_byte_append split_byte_absent)
qed (simp_all add: split_byte_absent)

section \<open>Paths\<close>

definition push_segment :: "bool \<Rightarrow> string list \<Rightarrow> string \<Rightarrow> string list" where
  "push_segment rooted st seg =
     (if seg = [] \<or> seg = ''.'' then st
      else if seg = ''..''
      then (if st \<noteq> [] \<and> last st \<noteq> ''..'' then butlast st
            else if rooted then st else st @ [''..''])
      else st @ [seg])"

definition is_rooted :: "string \<Rightarrow> bool" where
  "is_rooted s \<longleftrightarrow> s \<noteq> [] \<and> hd s = CHR ''/''"

definition path_segments :: "string \<Rightarrow> string list" where
  "path_segments s = foldl (push_segment (is_rooted s)) [] (split_byte (CHR ''/'') s)"

text \<open>What a path denotes.\<close>

definition path_norm :: "string \<Rightarrow> bool \<times> string list" where
  "path_norm s = (is_rooted s, path_segments s)"

definition render_path :: "bool \<times> string list \<Rightarrow> string" where
  "render_path p = (if fst p then ''/'' else []) @ join ''/'' (snd p)"

text \<open>\<^verbatim>\<open>filepath.Clean\<close> and \<^verbatim>\<open>filepath.Join\<close> (leading empty elements are skipped).\<close>

definition Clean :: "string \<Rightarrow> string" where
  "Clean s = (let p = render_path (path_norm s) in if p = [] then ''.'' else p)"

fun path_Join :: "string list \<Rightarrow> string" where
  "path_Join [] = []"
| "path_Join (e # es) = (if e \<noteq> [] then Clean (join ''/'' (e # es)) else path_Join es)"

text \<open>A segment that names a child: no separator, not empty, not a dot segment.\<close>

definition plain_segment :: "string \<Rightarrow> bool" where
  "plain_segment s \<longleftrightarrow> CHR ''/'' \<notin> set s \<and> s \<noteq> [] \<and> s \<noteq> ''.'' \<and> s \<noteq> ''..''"

definition wf_segments :: "bool \<Rightarrow> string list \<Rightarrow> bool" where
  "wf_segments r st \<longleftrightarrow> (\<forall>s \<in> set st. CHR ''/'' \<notin> set s \<and> s \<noteq> [] \<and> s \<noteq> ''.'')
     \<and> foldl (push_segment r) [] st = st"

lemma push_segment_plain [simp]: "plain_segment s \<Longrightarrow> push_segment r st s = st @ [s]"
  by (simp add: push_segment_def plain_segment_def)

lemma wf_segments_butlast:
  assumes "wf_segments r st" "st \<noteq> []" "last st \<noteq> ''..''"
  shows "wf_segments r (butlast st)"
proof -
  obtain bl x where st: "st = bl @ [x]" using assms(2) by (metis append_butlast_last_id)
  then have "push_segment r (foldl (push_segment r) [] bl) x = bl @ [x]" "x \<noteq> ''..''"
    using assms by (simp_all add: wf_segments_def)
  then have "foldl (push_segment r) [] bl = bl"
    using assms(1) st by (auto simp: push_segment_def wf_segments_def split: if_splits)
  then show ?thesis using assms(1) st by (simp add: wf_segments_def)
qed

lemma wf_segments_push:
  assumes "wf_segments r st" "CHR ''/'' \<notin> set s"
  shows "wf_segments r (push_segment r st s)"
proof -
  consider (drop) "push_segment r st s = st" | (pop) "st \<noteq> []" "last st \<noteq> ''..''" "push_segment r st s = butlast st"
    | (add) "push_segment r st s = st @ [s]" "s \<noteq> []" "s \<noteq> ''.''"
    unfolding push_segment_def by metis
  then show ?thesis
  proof cases
    case add
    then show ?thesis using assms by (simp add: wf_segments_def)
  qed (use assms wf_segments_butlast in auto)
qed

lemma wf_segments_foldl:
  "wf_segments r st \<Longrightarrow> (\<And>s. s \<in> set ss \<Longrightarrow> CHR ''/'' \<notin> set s)
     \<Longrightarrow> wf_segments r (foldl (push_segment r) st ss)"
  by (induction ss arbitrary: st) (simp_all add: wf_segments_push)

lemma wf_path_segments: "wf_segments (is_rooted s) (path_segments s)"
  unfolding path_segments_def
  by (rule wf_segments_foldl) (auto simp: wf_segments_def dest: split_byte_parts)

lemma is_rooted_render:
  assumes "wf_segments r st"
  shows "is_rooted (render_path (r, st)) = r"
proof (cases st)
  case (Cons x xs)
  then obtain h y where "x = h # y" "h \<noteq> CHR ''/''"
    using assms unfolding wf_segments_def
    by (metis list.exhaust list.set_intros(1))
  then show ?thesis
    using Cons by (cases xs) (auto simp: is_rooted_def render_path_def)
qed (simp add: is_rooted_def render_path_def)

lemma path_norm_render:
  assumes "wf_segments r st"
  shows "path_norm (render_path (r, st)) = (r, st)"
proof -
  have "path_segments (render_path (r, st)) = foldl (push_segment r) [] (split_byte (CHR ''/'') (join ''/'' st))"
    using split_byte_append [of "CHR ''/''" "[]" "join ''/'' st"]
    unfolding path_segments_def is_rooted_render [OF assms]
    by (simp add: render_path_def push_segment_def)
  also have "\<dots> = st"
    using assms split_byte_join [of st "CHR ''/''"]
    by (cases "st = []") (auto simp: wf_segments_def push_segment_def)
  finally show ?thesis by (simp add: path_norm_def is_rooted_render [OF assms])
qed

text \<open>Cleaning does not change what a path denotes.\<close>

lemma path_norm_Clean [simp]: "path_norm (Clean s) = path_norm s"
proof (cases "render_path (path_norm s) = []")
  case True
  then have "path_norm s = path_norm []"
    using path_norm_render [OF wf_path_segments, of s] by (simp add: path_norm_def)
  then show ?thesis
    using True by (simp add: Clean_def path_norm_def is_rooted_def path_segments_def push_segment_def)
next
  case False
  then show ?thesis
    using path_norm_render [OF wf_path_segments, of s] by (simp add: Clean_def path_norm_def)
qed

text \<open>Joining a plain segment denotes a child of the directory.\<close>

lemma path_norm_Join_child:
  assumes "plain_segment seg"
  shows "path_norm (path_Join [dir, seg]) = (is_rooted dir, path_segments dir @ [seg])"
proof (cases "dir = []")
  case True
  have "\<not> is_rooted seg" using assms by (cases seg) (auto simp: is_rooted_def plain_segment_def)
  moreover have "CHR ''/'' \<notin> set seg" "seg \<noteq> []" using assms by (simp_all add: plain_segment_def)
  ultimately have "path_norm seg = (is_rooted dir, path_segments dir @ [seg])"
    using True assms
    by (simp add: path_norm_def path_segments_def split_byte_absent is_rooted_def push_segment_def [of _ _ "[]"])
  then show ?thesis using True \<open>seg \<noteq> []\<close> by simp
next
  case False
  have "is_rooted (dir @ CHR ''/'' # seg) = is_rooted dir"
    using False by (simp add: is_rooted_def)
  moreover have "CHR ''/'' \<notin> set seg" using assms by (simp add: plain_segment_def)
  ultimately have "path_norm (dir @ CHR ''/'' # seg) = (is_rooted dir, path_segments dir @ [seg])"
    using assms by (simp add: path_norm_def path_segments_def split_byte_append split_byte_absent)
  then show ?thesis using False by simp
qed

declare path_Join.simps [simp del]

section \<open>Hosts and ports\<close>

text \<open>\<^verbatim>\<open>strings.LastIndexByte\<close> and \<^verbatim>\<open>strings.IndexByte\<close>; \<open>None\<close> is \<open>-1\<close>.\<close>

fun index_byte :: "char \<Rightarrow> string \<Rightarrow> nat option" where
  "index_byte c [] = None"
| "index_byte c (x # xs) = (if x = c then Some 0 else map_option Suc (index_byte c xs))"

definition last_index_byte :: "char \<Rightarrow> string \<Rightarrow> nat option" where
  "last_index_byte c s = map_option (\<lambda>i. length s - Suc i) (index_byte c (rev s))"

text \<open>
  \<^verbatim>\<open>net.SplitHostPort\<close>: the port follows the last colon; a bracketed host must close just
  before it; brackets elsewhere and further colons are errors (\<open>None\<close>).
\<close>

definition SplitHostPort :: "string \<Rightarrow> (string \<times> string) option" where
  "SplitHostPort hostport =
     (case last_index_byte (CHR '':'') hostport of
        None \<Rightarrow> None
      | Some i \<Rightarrow>
          let port = drop (i + 1) hostport in
          if hd hostport = CHR ''[''
          then (case index_byte (CHR '']'') hostport of
                  None \<Rightarrow> None
                | Some end \<Rightarrow>
                    if end + 1 = i \<and> CHR ''['' \<notin> set (drop 1 hostport)
                       \<and> CHR '']'' \<notin> set (drop (end + 1) hostport)
                    then Some (drop 1 (take end hostport), port) else None)
          else (let host = take i hostport in
                if CHR '':'' \<in> set host \<or> CHR ''['' \<in> set hostport \<or> CHR '']'' \<in> set hostport
                then None else Some (host, port)))"

text \<open>\<^verbatim>\<open>net.JoinHostPort\<close>.\<close>

definition JoinHostPort :: "string \<Rightarrow> string \<Rightarrow> string" where
  "JoinHostPort host port =
     (if CHR '':'' \<in> set host then ''['' @ host @ '']:'' @ port else host @ '':'' @ port)"

lemma index_byte_append: "c \<notin> set a \<Longrightarrow> index_byte c (a @ c # b) = Some (length a)"
  by (induction a) auto

lemma index_byte_None: "index_byte c s = None \<longleftrightarrow> c \<notin> set s"
  by (induction s) auto

lemma last_index_byte_append: "c \<notin> set b \<Longrightarrow> last_index_byte c (a @ c # b) = Some (length a)"
  using index_byte_append [of c "rev b" "rev a"] by (simp add: last_index_byte_def)

lemma last_index_byte_None: "last_index_byte c s = None \<longleftrightarrow> c \<notin> set s"
  by (simp add: last_index_byte_def index_byte_None)

lemma SplitHostPort_plain:
  assumes "CHR '':'' \<notin> set host" "CHR ''['' \<notin> set host" "CHR '']'' \<notin> set host"
    "CHR '':'' \<notin> set port" "CHR ''['' \<notin> set port" "CHR '']'' \<notin> set port"
  shows "SplitHostPort (host @ CHR '':'' # port) = Some (host, port)"
proof -
  have "hd (host @ CHR '':'' # port) \<noteq> CHR ''[''"
    using assms(2) by (cases host) auto
  then show ?thesis
    using assms last_index_byte_append [of "CHR '':''" port host] by (simp add: SplitHostPort_def)
qed

lemma SplitHostPort_no_port: "CHR '':'' \<notin> set s \<Longrightarrow> SplitHostPort s = None"
  using last_index_byte_None [of "CHR '':''" s] by (simp add: SplitHostPort_def)

text \<open>Splitting undoes joining, bracketed hosts included.\<close>

lemma SplitHostPort_Join:
  assumes "CHR ''['' \<notin> set host" "CHR '']'' \<notin> set host"
    "CHR '':'' \<notin> set port" "CHR ''['' \<notin> set port" "CHR '']'' \<notin> set port"
  shows "SplitHostPort (JoinHostPort host port) = Some (host, port)"
proof (cases "CHR '':'' \<in> set host")
  case True
  have "last_index_byte (CHR '':'') ((CHR ''['' # host @ '']'') @ CHR '':'' # port) = Some (length host + 2)"
    using last_index_byte_append [OF assms(3), of "CHR ''['' # host @ '']''"] by simp
  moreover have "index_byte (CHR '']'') ((CHR ''['' # host) @ CHR '']'' # CHR '':'' # port) = Some (length host + 1)"
    using index_byte_append [of "CHR '']''" "CHR ''['' # host" "CHR '':'' # port"] assms(2) by simp
  ultimately show ?thesis
    using True assms by (simp add: SplitHostPort_def JoinHostPort_def)
next
  case False
  then show ?thesis
    using SplitHostPort_plain [of host port] assms by (simp add: JoinHostPort_def)
qed

end
