(* ===== verification/Json_Scan.thy ===== *)
theory Json_Scan
  imports Go_Strings
begin

text \<open>
  The scanner of \<^verbatim>\<open>encoding/json\<close> and the two functions of the package that the output
  writers call on captured bodies: \<^verbatim>\<open>json.Compact\<close> and \<^verbatim>\<open>json.Indent\<close>. The scanner is the
  library's byte-driven state machine with its stack of enclosing objects and arrays; both
  functions reject a text that the scanner rejects.
\<close>

section \<open>The scanner\<close>

datatype scan_op = ScanContinue | ScanBeginLiteral | ScanBeginObject | ScanObjectKey
  | ScanObjectValue | ScanEndObject | ScanBeginArray | ScanArrayValue | ScanEndArray
  | ScanSkipSpace | ScanEnd | ScanError

datatype parse_state = ParseObjectKey | ParseObjectValue | ParseArrayValue

datatype scan_state = BeginValue | BeginValueOrEmpty | BeginString | BeginStringOrEmpty
  | EndValue | EndTop | InString | InStringEsc | InStringEscU nat
  | Neg | Digits1 | Zero | Dot | Dot0 | Exp | ExpSign | Exp0 | InLiteral string | Failed

record scanner =
  sc_step :: scan_state
  sc_parse :: "parse_state list"
  sc_endTop :: bool
  sc_err :: bool

definition newScanner :: scanner where
  "newScanner = \<lparr> sc_step = BeginValue, sc_parse = [], sc_endTop = False, sc_err = False \<rparr>"

definition json_space :: "char \<Rightarrow> bool" where
  "json_space c \<longleftrightarrow> byte_val c = 32 \<or> byte_val c = 9 \<or> byte_val c = 13 \<or> byte_val c = 10"

definition is_hex :: "char \<Rightarrow> bool" where
  "is_hex c \<longleftrightarrow> is_digit_byte c \<or> (97 \<le> byte_val c \<and> byte_val c \<le> 102) \<or> (65 \<le> byte_val c \<and> byte_val c \<le> 70)"

definition scan_error :: "scanner \<Rightarrow> scan_op \<times> scanner" where
  "scan_error s = (ScanError, s\<lparr>sc_step := Failed, sc_err := True\<rparr>)"

definition goto :: "scanner \<Rightarrow> scan_state \<Rightarrow> scan_op \<Rightarrow> scan_op \<times> scanner" where
  "goto s st v = (v, s\<lparr>sc_step := st\<rparr>)"

definition stateEndTop :: "scanner \<Rightarrow> char \<Rightarrow> scan_op \<times> scanner" where
  "stateEndTop s c = (ScanEnd, if json_space c then s else snd (scan_error s))"

definition popParseState :: "scanner \<Rightarrow> scanner" where
  "popParseState s =
     (if tl (sc_parse s) = [] then s\<lparr>sc_parse := [], sc_step := EndTop, sc_endTop := True\<rparr>
      else s\<lparr>sc_parse := tl (sc_parse s), sc_step := EndValue\<rparr>)"

text \<open>Nesting deeper than 10000 levels is an error.\<close>

definition pushParseState :: "scanner \<Rightarrow> parse_state \<Rightarrow> scan_op \<Rightarrow> scan_op \<times> scanner" where
  "pushParseState s p v =
     (let s' = s\<lparr>sc_parse := p # sc_parse s\<rparr> in
      if length (sc_parse s') \<le> 10000 then (v, s') else scan_error s')"

definition stateEndValue :: "scanner \<Rightarrow> char \<Rightarrow> scan_op \<times> scanner" where
  "stateEndValue s c =
     (case sc_parse s of
        [] \<Rightarrow> stateEndTop (s\<lparr>sc_step := EndTop, sc_endTop := True\<rparr>) c
      | p # ps \<Rightarrow>
          if json_space c then goto s EndValue ScanSkipSpace
          else (case p of
            ParseObjectKey \<Rightarrow>
              if c = CHR '':'' then goto (s\<lparr>sc_parse := ParseObjectValue # ps\<rparr>) BeginValue ScanObjectKey
              else scan_error s
          | ParseObjectValue \<Rightarrow>
              if c = CHR '','' then goto (s\<lparr>sc_parse := ParseObjectKey # ps\<rparr>) BeginString ScanObjectValue
              else if c = CHR ''}'' then (ScanEndObject, popParseState s)
              else scan_error s
          | ParseArrayValue \<Rightarrow>
              if c = CHR '','' then goto s BeginValue ScanArrayValue
              else if c = CHR '']'' then (ScanEndArray, popParseState s)
              else scan_error s))"

definition stateBeginString :: "scanner \<Rightarrow> char \<Rightarrow> scan_op \<times> scanner" where
  "stateBeginString s c =
     (if json_space c then (ScanSkipSpace, s)
      else if c = CHR 0x22 then goto s InString ScanBeginLiteral
      else scan_error s)"

definition stateBeginValue :: "scanner \<Rightarrow> char \<Rightarrow> scan_op \<times> scanner" where
  "stateBeginValue s c =
     (if json_space c then (ScanSkipSpace, s)
      else if c = CHR ''{'' then pushParseState (s\<lparr>sc_step := BeginStringOrEmpty\<rparr>) ParseObjectKey ScanBeginObject
      else if c = CHR ''['' then pushParseState (s\<lparr>sc_step := BeginValueOrEmpty\<rparr>) ParseArrayValue ScanBeginArray
      else if c = CHR 0x22 then goto s InString ScanBeginLiteral
      else if c = CHR ''-'' then goto s Neg ScanBeginLiteral
      else if c = CHR ''0'' then goto s Zero ScanBeginLiteral
      else if c = CHR ''t'' then goto s (InLiteral ''rue'') ScanBeginLiteral
      else if c = CHR ''f'' then goto s (InLiteral ''alse'') ScanBeginLiteral
      else if c = CHR ''n'' then goto s (InLiteral ''ull'') ScanBeginLiteral
      else if is_digit_byte c then goto s Digits1 ScanBeginLiteral
      else scan_error s)"

definition stateZero :: "scanner \<Rightarrow> char \<Rightarrow> scan_op \<times> scanner" where
  "stateZero s c =
     (if c = CHR ''.'' then goto s Dot ScanContinue
      else if c = CHR ''e'' \<or> c = CHR ''E'' then goto s Exp ScanContinue
      else stateEndValue s c)"

definition stateExpSign :: "scanner \<Rightarrow> char \<Rightarrow> scan_op \<times> scanner" where
  "stateExpSign s c = (if is_digit_byte c then goto s Exp0 ScanContinue else scan_error s)"

definition json_step :: "scanner \<Rightarrow> char \<Rightarrow> scan_op \<times> scanner" where
  "json_step s c =
     (case sc_step s of
        BeginValue \<Rightarrow> stateBeginValue s c
      | BeginValueOrEmpty \<Rightarrow>
          if json_space c then (ScanSkipSpace, s)
          else if c = CHR '']'' then stateEndValue s c else stateBeginValue s c
      | BeginString \<Rightarrow> stateBeginString s c
      | BeginStringOrEmpty \<Rightarrow>
          if json_space c then (ScanSkipSpace, s)
          else if c = CHR ''}''
          then stateEndValue (s\<lparr>sc_parse := ParseObjectValue # tl (sc_parse s)\<rparr>) c
          else stateBeginString s c
      | EndValue \<Rightarrow> stateEndValue s c
      | EndTop \<Rightarrow> stateEndTop s c
      | InString \<Rightarrow>
          if c = CHR 0x22 then goto s EndValue ScanContinue
          else if c = CHR 0x5C then goto s InStringEsc ScanContinue
          else if byte_val c < 0x20 then scan_error s
          else (ScanContinue, s)
      | InStringEsc \<Rightarrow>
          if c \<in> set ''bfnrt/'' \<or> c = CHR 0x5C \<or> c = CHR 0x22 then goto s InString ScanContinue
          else if c = CHR ''u'' then goto s (InStringEscU 0) ScanContinue
          else scan_error s
      | InStringEscU k \<Rightarrow>
          if is_hex c then goto s (if k < 3 then InStringEscU (Suc k) else InString) ScanContinue
          else scan_error s
      | Neg \<Rightarrow>
          if c = CHR ''0'' then goto s Zero ScanContinue
          else if is_digit_byte c then goto s Digits1 ScanContinue
          else scan_error s
      | Digits1 \<Rightarrow> if is_digit_byte c then goto s Digits1 ScanContinue else stateZero s c
      | Zero \<Rightarrow> stateZero s c
      | Dot \<Rightarrow> if is_digit_byte c then goto s Dot0 ScanContinue else scan_error s
      | Dot0 \<Rightarrow>
          if is_digit_byte c then (ScanContinue, s)
          else if c = CHR ''e'' \<or> c = CHR ''E'' then goto s Exp ScanContinue
          else stateEndValue s c
      | Exp \<Rightarrow>
          if c = CHR ''+'' \<or> c = CHR ''-'' then goto s ExpSign ScanContinue else stateExpSign s c
      | ExpSign \<Rightarrow> stateExpSign s c
      | Exp0 \<Rightarrow> if is_digit_byte c then (ScanContinue, s) else stateEndValue s c
      | InLiteral r \<Rightarrow>
          if r \<noteq> [] \<and> c = hd r
          then goto s (if tl r = [] then EndValue else InLiteral (tl r)) ScanContinue
          else scan_error s
      | Failed \<Rightarrow> (ScanError, s))"

text \<open>\<^verbatim>\<open>scanner.eof\<close>: whether the bytes seen so far are one complete value.\<close>

definition scan_complete :: "scanner \<Rightarrow> bool" where
  "scan_complete s \<longleftrightarrow> \<not> sc_err s
     \<and> (sc_endTop s \<or> sc_endTop (snd (json_step s (CHR '' ''))))"

section \<open>Compact\<close>

fun compact_loop :: "scanner \<Rightarrow> string \<Rightarrow> scanner \<times> string" where
  "compact_loop s [] = (s, [])"
| "compact_loop s (c # cs) =
     (case json_step s c of (v, s') \<Rightarrow>
        if v = ScanError then (s', [])
        else (case compact_loop s' cs of (s'', out) \<Rightarrow>
          (s'', if v = ScanSkipSpace \<or> v = ScanEnd then out else c # out)))"

definition json_Compact :: "string \<Rightarrow> string option" where
  "json_Compact src =
     (case compact_loop newScanner src of (s, out) \<Rightarrow> if scan_complete s then Some out else None)"

section \<open>Indent\<close>

text \<open>
  \<^verbatim>\<open>json.Indent\<close> with an empty prefix: a newline and \<open>depth\<close> copies of the indentation after
  every opening bracket and comma, delayed so that empty objects and arrays stay closed.
\<close>

definition indent_newline :: "string \<Rightarrow> nat \<Rightarrow> string" where
  "indent_newline indent depth = CHR 0x0A # concat (replicate depth indent)"

definition indent_punct :: "string \<Rightarrow> char \<Rightarrow> bool \<Rightarrow> nat \<Rightarrow> string \<times> bool \<times> nat" where
  "indent_punct indent c needIndent depth =
     (if c = CHR ''{'' \<or> c = CHR ''['' then ([c], True, depth)
      else if c = CHR '','' then (c # indent_newline indent depth, needIndent, depth)
      else if c = CHR '':'' then ([c, CHR '' ''], needIndent, depth)
      else if c = CHR ''}'' \<or> c = CHR '']''
      then (if needIndent then ([c], False, depth)
            else (indent_newline indent (depth - 1) @ [c], False, depth - 1))
      else ([c], needIndent, depth))"

fun indent_loop :: "string \<Rightarrow> scanner \<Rightarrow> bool \<Rightarrow> nat \<Rightarrow> string \<Rightarrow> scanner \<times> string" where
  "indent_loop indent s needIndent depth [] = (s, [])"
| "indent_loop indent s needIndent depth (c # cs) =
     (case json_step s c of (v, s') \<Rightarrow>
        if v = ScanSkipSpace then indent_loop indent s' needIndent depth cs
        else if v = ScanError then (s', [])
        else
          let opened = needIndent \<and> v \<noteq> ScanEndObject \<and> v \<noteq> ScanEndArray;
              pre = (if opened then indent_newline indent (depth + 1) else []);
              need = (if opened then False else needIndent);
              d = (if opened then depth + 1 else depth);
              (emit, need', d') = (if v = ScanContinue then ([c], need, d) else indent_punct indent c need d)
          in (case indent_loop indent s' need' d' cs of (s'', out) \<Rightarrow> (s'', pre @ emit @ out)))"

definition json_Indent :: "string \<Rightarrow> string \<Rightarrow> string option" where
  "json_Indent indent src =
     (case indent_loop indent newScanner False 0 src of (s, out) \<Rightarrow>
        if scan_complete s then Some out else None)"

section \<open>A compacted text is one line\<close>

lemmas scan_defs = stateEndValue_def stateEndTop_def stateBeginString_def stateBeginValue_def
  stateZero_def stateExpSign_def pushParseState_def goto_def scan_error_def

text \<open>The scanner never keeps a control character.\<close>

lemma digit_not_control: "is_digit_byte c \<Longrightarrow> 0x20 \<le> byte_val c"
  by (simp add: is_digit_byte_def)

lemma stateEndValue_keeps:
  "stateEndValue s c = (v, s') \<Longrightarrow> v \<noteq> ScanError \<Longrightarrow> v \<noteq> ScanSkipSpace \<Longrightarrow> v \<noteq> ScanEnd
     \<Longrightarrow> 0x20 \<le> byte_val c"
  by (auto simp: stateEndValue_def stateEndTop_def goto_def scan_error_def
      split: list.splits parse_state.splits if_splits)

lemma stateBeginString_keeps:
  "stateBeginString s c = (v, s') \<Longrightarrow> v \<noteq> ScanError \<Longrightarrow> v \<noteq> ScanSkipSpace \<Longrightarrow> 0x20 \<le> byte_val c"
  by (auto simp: stateBeginString_def goto_def scan_error_def split: if_splits)

lemma stateBeginValue_keeps:
  "stateBeginValue s c = (v, s') \<Longrightarrow> v \<noteq> ScanError \<Longrightarrow> v \<noteq> ScanSkipSpace \<Longrightarrow> 0x20 \<le> byte_val c"
  by (auto simp: stateBeginValue_def goto_def scan_error_def digit_not_control split: if_splits)

lemma stateZero_keeps:
  "stateZero s c = (v, s') \<Longrightarrow> v \<noteq> ScanError \<Longrightarrow> v \<noteq> ScanSkipSpace \<Longrightarrow> v \<noteq> ScanEnd
     \<Longrightarrow> 0x20 \<le> byte_val c"
  by (auto simp: stateZero_def goto_def stateEndValue_keeps split: if_splits)

definition valid_scan_state :: "scan_state \<Rightarrow> bool" where
  "valid_scan_state st \<longleftrightarrow>
     (case st of InLiteral r \<Rightarrow> list_all (\<lambda>c. 0x20 \<le> byte_val c) r | _ \<Rightarrow> True)"

lemma json_step_keeps:
  assumes "json_step s c = (v, s')" "valid_scan_state (sc_step s)"
    "v \<noteq> ScanError" "v \<noteq> ScanSkipSpace" "v \<noteq> ScanEnd"
  shows "0x20 \<le> byte_val c"
proof (cases "sc_step s")
  case (InLiteral r)
  then show ?thesis
    using assms by (cases r) (auto simp: json_step_def valid_scan_state_def goto_def scan_error_def split: if_splits)
next
  case (InStringEscU k)
  then show ?thesis
    using assms by (auto simp: json_step_def is_hex_def is_digit_byte_def goto_def scan_error_def split: if_splits)
qed (use assms in \<open>auto simp: json_step_def goto_def scan_error_def stateExpSign_def stateEndTop_def
      digit_not_control stateEndValue_keeps stateBeginString_keeps stateBeginValue_keeps stateZero_keeps
      split: if_splits\<close>)

lemma json_step_valid:
  assumes "json_step s c = (v, s')" "valid_scan_state (sc_step s)"
  shows "valid_scan_state (sc_step s')"
proof (cases "sc_step s")
  case (InLiteral r)
  then show ?thesis
    using assms by (cases r) (auto simp: json_step_def valid_scan_state_def goto_def scan_error_def split: if_splits)
qed (use assms in \<open>auto simp: json_step_def valid_scan_state_def scan_defs popParseState_def Let_def
      split: if_splits list.splits parse_state.splits\<close>)

lemma compact_loop_keeps:
  "valid_scan_state (sc_step s) \<Longrightarrow> compact_loop s cs = (s', out) \<Longrightarrow> list_all (\<lambda>c. 0x20 \<le> byte_val c) out"
proof (induction cs arbitrary: s s' out)
  case (Cons c cs)
  obtain v t where st: "json_step s c = (v, t)" by fastforce
  obtain t' o' where lp: "compact_loop t cs = (t', o')" by fastforce
  have "list_all (\<lambda>c. 0x20 \<le> byte_val c) o'"
    using Cons.IH [OF json_step_valid [OF st Cons.prems(1)] lp] .
  then show ?case
    using Cons.prems(2) st lp json_step_keeps [OF st Cons.prems(1)] by (auto split: if_splits)
qed simp

lemma json_Compact_one_line: "json_Compact src = Some out \<Longrightarrow> CHR 0x0A \<notin> set out"
  using compact_loop_keeps [of newScanner src]
  by (auto simp: json_Compact_def valid_scan_state_def newScanner_def list_all_iff split: prod.splits if_splits)

text \<open>Both functions accept the same texts.\<close>

lemma indent_loop_scanner: "fst (indent_loop indent s need d cs) = fst (compact_loop s cs)"
proof (induction cs arbitrary: s need d)
  case (Cons c cs)
  obtain v t where st: "json_step s c = (v, t)" by fastforce
  show ?case
    by (simp add: st Let_def case_prod_beta Cons.IH)
qed simp

lemma json_Indent_iff_Compact: "(json_Indent indent src = None) \<longleftrightarrow> (json_Compact src = None)"
  using indent_loop_scanner [of indent newScanner False 0 src]
  by (auto simp: json_Indent_def json_Compact_def split: prod.splits)

end
