(* ===== verification/Output_Writers.thy ===== *)
theory Output_Writers
  imports Capture_Recorder Go_Paths Json_Scan
begin

text \<open>
  \<^verbatim>\<open>internal/output\<close>: the writers that dump captured JSON bodies below an output directory
  (\<^verbatim>\<open>file_writer.go\<close>) and the line writer of \<^verbatim>\<open>output.go\<close>. The Go interface
  \<^verbatim>\<open>FileSystem\<close> is the record \<open>file_system\<close> of its methods over a state; the locale of the
  same purpose, \<open>file_contract\<close>, states what the writers rely on. \<^verbatim>\<open>OSFileSystem\<close> is modelled on a
  file tree with a umask and injected faults and shown to satisfy the contract; the
  interface \<^verbatim>\<open>Writer\<close> is the locale \<open>entry_writer\<close>, interpreted on both body writers.
\<close>

unbundle bit_operations_syntax

section \<open>The interface FileSystem\<close>

type_synonym file_mode = "32 word"
type_synonym go_error = "string option"
type_synonym path_key = "bool \<times> string list"

datatype open_flag = O_APPEND | O_CREATE | O_WRONLY

text \<open>A \<^verbatim>\<open>WriteCloser\<close> is a handle; writing and closing it are operations of the file system.\<close>

record 'f file_system =
  fs_MkdirAll :: "string \<Rightarrow> file_mode \<Rightarrow> 'f \<Rightarrow> go_error \<times> 'f"
  fs_Chmod :: "string \<Rightarrow> file_mode \<Rightarrow> 'f \<Rightarrow> go_error \<times> 'f"
  fs_WriteFile :: "string \<Rightarrow> string \<Rightarrow> file_mode \<Rightarrow> 'f \<Rightarrow> go_error \<times> 'f"
  fs_OpenFile :: "string \<Rightarrow> open_flag list \<Rightarrow> file_mode \<Rightarrow> 'f \<Rightarrow> (string + nat) \<times> 'f"
  fs_Write :: "nat \<Rightarrow> string \<Rightarrow> 'f \<Rightarrow> go_error \<times> 'f"
  fs_Close :: "nat \<Rightarrow> 'f \<Rightarrow> go_error \<times> 'f"

section \<open>File names\<close>

definition isDigit :: "rune \<Rightarrow> bool" where
  "isDigit r \<longleftrightarrow> 48 \<le> r \<and> r \<le> 57"

definition isLower :: "rune \<Rightarrow> bool" where
  "isLower r \<longleftrightarrow> 97 \<le> r \<and> r \<le> 122"

definition isAlnum :: "rune \<Rightarrow> bool" where
  "isAlnum r \<longleftrightarrow> isLower r \<or> isDigit r"

definition isSafeRune :: "rune \<Rightarrow> bool" where
  "isSafeRune r \<longleftrightarrow> isAlnum r \<or> r = 46 \<or> r = 45"

definition sanitizeHost :: "std_env \<Rightarrow> string \<Rightarrow> string" where
  "sanitizeHost env h =
     concat (map (\<lambda>r. if isSafeRune r then encode_rune r else ''_'') (runes (to_lower (unicode_lower env) h)))"

definition splitHostname :: "string \<Rightarrow> string" where
  "splitHostname host = (case SplitHostPort host of Some (hostname, _) \<Rightarrow> hostname | None \<Rightarrow> host)"

definition validSegmentName :: "string \<Rightarrow> bool" where
  "validSegmentName name \<longleftrightarrow> name \<noteq> [] \<and> name \<noteq> ''.'' \<and> name \<noteq> ''..''"

definition safeDomain :: "std_env \<Rightarrow> string \<Rightarrow> string" where
  "safeDomain env host =
     (let name = sanitizeHost env (splitHostname host) in
      if \<not> validSegmentName name then ''unknown'' else name)"

section \<open>Bodies\<close>

definition hasBody :: "captured_entry option \<Rightarrow> bool" where
  "hasBody entry \<longleftrightarrow> (case entry of None \<Rightarrow> False | Some e \<Rightarrow> ce_ResponseBody e \<noteq> None)"

definition jsonBody :: "captured_entry option \<Rightarrow> string option" where
  "jsonBody entry = (if \<not> hasBody entry then None else Option.bind entry ce_ResponseBody)"

lemma jsonBody_simps [simp]: "jsonBody None = None" "jsonBody (Some e) = ce_ResponseBody e"
  by (auto simp: jsonBody_def hasBody_def)

definition indentJSON :: "captured_entry option \<Rightarrow> string option" where
  "indentJSON entry =
     (case jsonBody entry of None \<Rightarrow> None
      | Some body \<Rightarrow> map_option (\<lambda>pretty. pretty @ [CHR 0x0A]) (json_Indent ''  '' body))"

definition compactJSON :: "captured_entry option \<Rightarrow> string option" where
  "compactJSON entry =
     (case jsonBody entry of None \<Rightarrow> None
      | Some body \<Rightarrow> map_option (\<lambda>line. line @ [CHR 0x0A]) (json_Compact body))"

section \<open>Writing\<close>

definition ensureOutputDir ::
  "std_env \<Rightarrow> 'f file_system \<Rightarrow> string \<Rightarrow> string \<Rightarrow> 'f \<Rightarrow> (string + string) \<times> 'f" where
  "ensureOutputDir env fs dir host st =
     (let domainDir = path_Join [dir, safeDomain env host] in
      case fs_MkdirAll fs domainDir 0x1FF st of
        (Some err, st1) \<Rightarrow> (Inl (''create output dir '' @ domainDir @ '': '' @ err), st1)
      | (None, st1) \<Rightarrow>
          (case fs_Chmod fs domainDir 0x1FF st1 of
             (Some err, st2) \<Rightarrow> (Inl (''chmod output dir '' @ domainDir @ '': '' @ err), st2)
           | (None, st2) \<Rightarrow> (Inr domainDir, st2)))"

definition writePrettyJSON :: "'f file_system \<Rightarrow> string \<Rightarrow> string \<Rightarrow> 'f \<Rightarrow> go_error \<times> 'f" where
  "writePrettyJSON fs path pretty st =
     (case fs_WriteFile fs path pretty 0x1A4 st of
        (Some err, st1) \<Rightarrow> (Some (''write '' @ path @ '': '' @ err), st1)
      | (None, st1) \<Rightarrow> (None, st1))"

definition JSONBodyWriter_WriteEntry ::
  "std_env \<Rightarrow> 'f file_system \<Rightarrow> string \<Rightarrow> captured_entry option \<Rightarrow> 'f \<Rightarrow> (go_error \<times> 'f) go" where
  "JSONBodyWriter_WriteEntry env fs dir entry st =
     (case indentJSON entry of None \<Rightarrow> Inr (None, st)
      | Some pretty \<Rightarrow>
          go_bind (go_deref entry) (\<lambda>e.
          case ensureOutputDir env fs dir (ce_Host e) st of
            (Inl err, st1) \<Rightarrow> Inr (Some err, st1)
          | (Inr domainDir, st1) \<Rightarrow>
              Inr (writePrettyJSON fs (path_Join [domainDir, ce_ID e @ ''.json'']) pretty st1)))"

text \<open>\<^verbatim>\<open>appendLine\<close> under its mutex; the deferred close runs on both ways out.\<close>

definition appendLine :: "'f file_system \<Rightarrow> string \<Rightarrow> string \<Rightarrow> 'f \<Rightarrow> go_error \<times> 'f" where
  "appendLine fs path line st =
     (case fs_OpenFile fs path [O_APPEND, O_CREATE, O_WRONLY] 0x1A4 st of
        (Inl err, st1) \<Rightarrow> (Some (''open '' @ path @ '': '' @ err), st1)
      | (Inr f, st1) \<Rightarrow>
          (case fs_Write fs f line st1 of (err, st2) \<Rightarrow>
             (map_option (\<lambda>e. ''write '' @ path @ '': '' @ e) err, snd (fs_Close fs f st2))))"

definition NDJSONBodyWriter_WriteEntry ::
  "std_env \<Rightarrow> 'f file_system \<Rightarrow> string \<Rightarrow> captured_entry option \<Rightarrow> 'f \<Rightarrow> (go_error \<times> 'f) go" where
  "NDJSONBodyWriter_WriteEntry env fs dir entry st =
     (case compactJSON entry of None \<Rightarrow> Inr (None, st)
      | Some line \<Rightarrow>
          go_bind (go_deref entry) (\<lambda>e.
          case ensureOutputDir env fs dir (ce_Host e) st of
            (Inl err, st1) \<Rightarrow> Inr (Some err, st1)
          | (Inr domainDir, st1) \<Rightarrow>
              Inr (appendLine fs (path_Join [domainDir, ''responses.jsonl'']) line st1)))"

text \<open>
  \<^verbatim>\<open>JSONWriter\<close> of \<^verbatim>\<open>output.go\<close>: the serialiser and the underlying \<^verbatim>\<open>io.Writer\<close> are its
  arguments.
\<close>

definition JSONWriter_WriteEntry ::
  "(captured_entry option \<Rightarrow> string + string) \<Rightarrow> (string \<Rightarrow> 'w \<Rightarrow> go_error \<times> 'w)
     \<Rightarrow> captured_entry option \<Rightarrow> 'w \<Rightarrow> go_error \<times> 'w" where
  "JSONWriter_WriteEntry json_Marshal w_Write entry w =
     (case json_Marshal entry of Inl err \<Rightarrow> (Some err, w)
      | Inr data \<Rightarrow> w_Write (data @ [CHR 0x0A]) w)"

definition NewJSONWriter ::
  "(captured_entry option \<Rightarrow> string + string) \<Rightarrow> (string \<Rightarrow> 'w \<Rightarrow> go_error \<times> 'w)
     \<Rightarrow> captured_entry option \<Rightarrow> 'w \<Rightarrow> go_error \<times> 'w" where
  "NewJSONWriter json_Marshal w_Write = JSONWriter_WriteEntry json_Marshal w_Write"

section \<open>The operating system's file system\<close>

text \<open>
  A tree of files (contents and modes) and directories keyed by what a path denotes, the open handles, the umask
  and the faults to inject: \<open>os_deny\<close> makes an operation on a path fail, \<open>os_short\<close> is the
  number of bytes a failing write still transfers. Whether the process may open, read or
  change a file is not computed from the modes, which depends on its user and capabilities
  (root may): a refusal for lack of permission is an \<open>os_deny\<close> like any other fault.
\<close>

datatype os_op = OpMkdir | OpChmod | OpOpen | OpWrite | OpRead

record os_state =
  os_files :: "path_key \<rightharpoonup> string"
  os_modes :: "path_key \<rightharpoonup> file_mode"
  os_dirs :: "path_key \<rightharpoonup> file_mode"
  os_handles :: "nat \<rightharpoonup> path_key"
  os_next :: nat
  os_umask :: file_mode
  os_deny :: "os_op \<Rightarrow> path_key \<Rightarrow> go_error"
  os_short :: nat

text \<open>The root, the working directory and its ancestors always exist.\<close>

definition dir_exists :: "os_state \<Rightarrow> path_key \<Rightarrow> bool" where
  "dir_exists st d \<longleftrightarrow> list_all (\<lambda>s. s = ''..'') (snd d) \<or> os_dirs st d \<noteq> None"

definition parent_key :: "path_key \<Rightarrow> path_key" where
  "parent_key k = (fst k, butlast (snd k))"

definition ancestors :: "path_key \<Rightarrow> path_key list" where
  "ancestors k = map (\<lambda>n. (fst k, take n (snd k))) [0..<Suc (length (snd k))]"

text \<open>A file gets its mode when it is created; writing to an existing file keeps it.\<close>

definition created_mode :: "os_state \<Rightarrow> path_key \<Rightarrow> file_mode \<Rightarrow> path_key \<rightharpoonup> file_mode" where
  "created_mode st k perm =
     (if os_files st k = None then (os_modes st)(k \<mapsto> perm AND NOT (os_umask st)) else os_modes st)"

definition os_MkdirAll :: "string \<Rightarrow> file_mode \<Rightarrow> os_state \<Rightarrow> go_error \<times> os_state" where
  "os_MkdirAll path perm st =
     (let d = path_norm path in
      case os_deny st OpMkdir d of Some e \<Rightarrow> (Some e, st)
      | None \<Rightarrow>
          if list_ex (\<lambda>a. os_files st a \<noteq> None) (ancestors d) then (Some ''not a directory'', st)
          else (None, st\<lparr>os_dirs := (\<lambda>k. if k \<in> set (ancestors d) \<and> \<not> dir_exists st k
                                       then Some (perm AND NOT (os_umask st)) else os_dirs st k)\<rparr>))"

definition os_Chmod :: "string \<Rightarrow> file_mode \<Rightarrow> os_state \<Rightarrow> go_error \<times> os_state" where
  "os_Chmod path perm st =
     (let k = path_norm path in
      case os_deny st OpChmod k of Some e \<Rightarrow> (Some e, st)
      | None \<Rightarrow>
          if dir_exists st k then (None, st\<lparr>os_dirs := (os_dirs st)(k \<mapsto> perm)\<rparr>)
          else if os_files st k \<noteq> None then (None, st)
          else (Some ''no such file or directory'', st))"

definition os_WriteFile :: "string \<Rightarrow> string \<Rightarrow> file_mode \<Rightarrow> os_state \<Rightarrow> go_error \<times> os_state" where
  "os_WriteFile path data perm st =
     (let k = path_norm path in
      if dir_exists st k then (Some ''is a directory'', st)
      else if \<not> dir_exists st (parent_key k) then (Some ''no such file or directory'', st)
      else if os_deny st OpOpen k \<noteq> None then (os_deny st OpOpen k, st)
      else (case os_deny st OpWrite k of
              Some e \<Rightarrow> (Some e, st\<lparr>os_files := (os_files st)(k \<mapsto> take (os_short st) data),
                                     os_modes := created_mode st k perm\<rparr>)
            | None \<Rightarrow> (None, st\<lparr>os_files := (os_files st)(k \<mapsto> data), os_modes := created_mode st k perm\<rparr>)))"

text \<open>Only handles opened for appending are used by the program.\<close>

definition os_OpenFile ::
  "string \<Rightarrow> open_flag list \<Rightarrow> file_mode \<Rightarrow> os_state \<Rightarrow> (string + nat) \<times> os_state" where
  "os_OpenFile path flags perm st =
     (let k = path_norm path in
      case os_deny st OpOpen k of Some e \<Rightarrow> (Inl e, st)
      | None \<Rightarrow>
          if dir_exists st k then (Inl ''is a directory'', st)
          else if O_APPEND \<notin> set flags \<or> O_WRONLY \<notin> set flags then (Inl ''invalid argument'', st)
          else if os_files st k = None \<and> (O_CREATE \<notin> set flags \<or> \<not> dir_exists st (parent_key k))
          then (Inl ''no such file or directory'', st)
          else (Inr (os_next st),
                st\<lparr>os_files := (os_files st)(k \<mapsto> (case os_files st k of None \<Rightarrow> [] | Some c \<Rightarrow> c)),
                   os_modes := created_mode st k perm,
                   os_handles := (os_handles st)(os_next st \<mapsto> k), os_next := Suc (os_next st)\<rparr>))"

definition os_Write :: "nat \<Rightarrow> string \<Rightarrow> os_state \<Rightarrow> go_error \<times> os_state" where
  "os_Write f data st =
     (case os_handles st f of None \<Rightarrow> (Some ''file already closed'', st)
      | Some k \<Rightarrow>
          let c = (case os_files st k of None \<Rightarrow> [] | Some c \<Rightarrow> c) in
          (case os_deny st OpWrite k of
             Some e \<Rightarrow> (Some e, st\<lparr>os_files := (os_files st)(k \<mapsto> c @ take (os_short st) data)\<rparr>)
           | None \<Rightarrow> (None, st\<lparr>os_files := (os_files st)(k \<mapsto> c @ data)\<rparr>)))"

text \<open>\<^verbatim>\<open>os.ReadFile\<close> and \<^verbatim>\<open>os.Stat\<close>, which other parts of the program call directly.\<close>

definition os_ReadFile :: "string \<Rightarrow> os_state \<Rightarrow> string + string" where
  "os_ReadFile path st =
     (let k = path_norm path in
      case os_deny st OpRead k of Some e \<Rightarrow> Inl e
      | None \<Rightarrow> (case os_files st k of Some c \<Rightarrow> Inr c | None \<Rightarrow> Inl ''no such file or directory''))"

definition os_Stat_ok :: "string \<Rightarrow> os_state \<Rightarrow> bool" where
  "os_Stat_ok path st \<longleftrightarrow> os_files st (path_norm path) \<noteq> None \<or> dir_exists st (path_norm path)"

definition os_Close :: "nat \<Rightarrow> os_state \<Rightarrow> go_error \<times> os_state" where
  "os_Close f st =
     (case os_handles st f of None \<Rightarrow> (Some ''file already closed'', st)
      | Some _ \<Rightarrow> (None, st\<lparr>os_handles := (os_handles st)(f := None)\<rparr>))"

definition OSFileSystem :: "os_state file_system" where
  "OSFileSystem = \<lparr> fs_MkdirAll = os_MkdirAll, fs_Chmod = os_Chmod, fs_WriteFile = os_WriteFile,
     fs_OpenFile = os_OpenFile, fs_Write = os_Write, fs_Close = os_Close \<rparr>"

text \<open>
  The constructors: a writer is its method \<^verbatim>\<open>WriteEntry\<close>, closed over the directory and the
  file system of its struct.
\<close>

definition newJSONBodyWriter :: "std_env \<Rightarrow> string \<Rightarrow> 'f file_system \<Rightarrow> captured_entry option \<Rightarrow> 'f \<Rightarrow> (go_error \<times> 'f) go" where
  "newJSONBodyWriter env dir fs = JSONBodyWriter_WriteEntry env fs dir"

definition NewJSONBodyWriter :: "std_env \<Rightarrow> string \<Rightarrow> captured_entry option \<Rightarrow> os_state \<Rightarrow> (go_error \<times> os_state) go" where
  "NewJSONBodyWriter env dir = newJSONBodyWriter env dir OSFileSystem"

definition newNDJSONBodyWriter :: "std_env \<Rightarrow> string \<Rightarrow> 'f file_system \<Rightarrow> captured_entry option \<Rightarrow> 'f \<Rightarrow> (go_error \<times> 'f) go" where
  "newNDJSONBodyWriter env dir fs = NDJSONBodyWriter_WriteEntry env fs dir"

definition NewNDJSONBodyWriter :: "std_env \<Rightarrow> string \<Rightarrow> captured_entry option \<Rightarrow> os_state \<Rightarrow> (go_error \<times> os_state) go" where
  "NewNDJSONBodyWriter env dir = newNDJSONBodyWriter env dir OSFileSystem"

lemmas new_writer_defs = NewJSONBodyWriter_def newJSONBodyWriter_def NewNDJSONBodyWriter_def newNDJSONBodyWriter_def

section \<open>Segments are safe\<close>

definition safe_byte :: "char \<Rightarrow> bool" where
  "safe_byte c \<longleftrightarrow> isSafeRune (byte_val c) \<or> c = CHR ''_''"

lemma sanitizeHost_safe: "list_all safe_byte (sanitizeHost env h)"
proof -
  define f where "f r = (if isSafeRune r then encode_rune r else ''_'')" for r
  have "list_all safe_byte (f r)" for r
  proof (cases "isSafeRune r")
    case True
    then have "r < 0x80" by (auto simp: isSafeRune_def isAlnum_def isLower_def isDigit_def)
    with True show ?thesis by (simp add: f_def encode_rune_ascii safe_byte_def take_bit_nat_eq_self)
  qed (simp add: f_def safe_byte_def)
  then have "list_all safe_byte (concat (map f rs))" for rs by (auto simp: list_all_iff)
  then show ?thesis by (simp add: sanitizeHost_def f_def [abs_def])
qed

lemma runes_ascii: "is_ascii s \<Longrightarrow> runes s = map byte_val s"
  using runes_ascii_append [of s "[]"] by simp

lemma sanitizeHost_ascii:
  assumes "is_ascii h"
  shows "sanitizeHost env h = map (\<lambda>c. if isSafeRune (byte_val c) then c else CHR ''_'') (map lower_byte h)"
proof -
  have "concat (map (\<lambda>r. if isSafeRune r then encode_rune r else ''_'') (map byte_val s))
      = map (\<lambda>c. if isSafeRune (byte_val c) then c else CHR ''_'') s" if "is_ascii s" for s
    using that by (induction s) (simp_all add: encode_rune_ascii)
  then show ?thesis
    using is_ascii_lower [OF assms] by (simp only: sanitizeHost_def to_lower_ascii [OF assms] runes_ascii)
qed

lemma safe_byte_not_slash: "\<not> safe_byte (CHR ''/'')"
  by (simp add: safe_byte_def isSafeRune_def isAlnum_def isLower_def isDigit_def)

lemma safeDomain_plain: "plain_segment (safeDomain env host)"
  using sanitizeHost_safe [of env "splitHostname host"] safe_byte_not_slash
  by (auto simp: safeDomain_def plain_segment_def validSegmentName_def Let_def list_all_iff)

lemma safeDomain_bytes: "list_all safe_byte (safeDomain env host)"
  using sanitizeHost_safe [of env "splitHostname host"]
  by (auto simp: safeDomain_def Let_def safe_byte_def isSafeRune_def isAlnum_def isLower_def isDigit_def)

text \<open>Where the writers put the body of an entry.\<close>

definition domain_key :: "std_env \<Rightarrow> string \<Rightarrow> captured_entry \<Rightarrow> path_key" where
  "domain_key env dir e = (is_rooted dir, path_segments dir @ [safeDomain env (ce_Host e)])"

definition json_key :: "std_env \<Rightarrow> string \<Rightarrow> captured_entry \<Rightarrow> path_key" where
  "json_key env dir e =
     (is_rooted dir, path_segments dir @ [safeDomain env (ce_Host e), ce_ID e @ ''.json''])"

definition ndjson_key :: "std_env \<Rightarrow> string \<Rightarrow> captured_entry \<Rightarrow> path_key" where
  "ndjson_key env dir e =
     (is_rooted dir, path_segments dir @ [safeDomain env (ce_Host e), ''responses.jsonl''])"

lemma path_norm_domain: "path_norm (path_Join [dir, safeDomain env (ce_Host e)]) = domain_key env dir e"
  for e :: captured_entry
  by (simp only: path_norm_Join_child [OF safeDomain_plain] domain_key_def)

lemma path_norm_in_domain:
  fixes e :: captured_entry
  assumes "plain_segment seg"
  shows "path_norm (path_Join [path_Join [dir, safeDomain env (ce_Host e)], seg])
    = (is_rooted dir, path_segments dir @ [safeDomain env (ce_Host e), seg])"
  using path_norm_Join_child [OF assms, of "path_Join [dir, safeDomain env (ce_Host e)]"]
    path_norm_domain [of dir env e]
  by (simp add: path_norm_def domain_key_def)

lemma plain_json_name: "CHR ''/'' \<notin> set i \<Longrightarrow> plain_segment (i @ ''.json'')"
  by (auto simp: plain_segment_def append_eq_Cons_conv)

lemma path_norm_json:
  "CHR ''/'' \<notin> set (ce_ID e) \<Longrightarrow>
     path_norm (path_Join [path_Join [dir, safeDomain env (ce_Host e)], ce_ID e @ ''.json'']) = json_key env dir e"
  for e :: captured_entry
  unfolding json_key_def by (rule path_norm_in_domain [OF plain_json_name])

lemma path_norm_ndjson:
  "path_norm (path_Join [path_Join [dir, safeDomain env (ce_Host e)], ''responses.jsonl'']) = ndjson_key env dir e"
  for e :: captured_entry
  by (subst path_norm_in_domain) (simp_all add: plain_segment_def ndjson_key_def)

section \<open>What the writers rely on\<close>

locale file_contract =
  fixes fs :: "'f file_system"
    and content :: "'f \<Rightarrow> path_key \<Rightarrow> string option"
    and handle_key :: "'f \<Rightarrow> nat \<Rightarrow> path_key option"
  assumes mkdir_content: "fs_MkdirAll fs p m st = (err, st') \<Longrightarrow> content st' = content st"
    and chmod_content: "fs_Chmod fs p m st = (err, st') \<Longrightarrow> content st' = content st"
    and write_file_ok: "fs_WriteFile fs p d m st = (None, st') \<Longrightarrow>
      content st' = (content st)(path_norm p \<mapsto> d)"
    and write_file_frame: "fs_WriteFile fs p d m st = (err, st') \<Longrightarrow> k \<noteq> path_norm p \<Longrightarrow>
      content st' k = content st k"
    and open_err: "fs_OpenFile fs p fl m st = (Inl e, st') \<Longrightarrow> content st' = content st"
    and open_ok: "fs_OpenFile fs p fl m st = (Inr f, st') \<Longrightarrow> O_APPEND \<in> set fl \<Longrightarrow>
      content st' = (content st)(path_norm p \<mapsto> (case content st (path_norm p) of None \<Rightarrow> [] | Some c \<Rightarrow> c))
        \<and> handle_key st' f = Some (path_norm p)"
    and write_ok: "fs_Write fs f d st = (None, st') \<Longrightarrow> handle_key st f = Some k \<Longrightarrow>
      content st k = Some c \<Longrightarrow> content st' = (content st)(k \<mapsto> c @ d)"
    and write_frame: "fs_Write fs f d st = (err, st') \<Longrightarrow> handle_key st f = Some k \<Longrightarrow> q \<noteq> k \<Longrightarrow>
      content st' q = content st q"
    and close_content: "fs_Close fs f st = (err, st') \<Longrightarrow> content st' = content st"
begin

lemma ensureOutputDir_content:
  "ensureOutputDir env fs dir host st = (r, st') \<Longrightarrow> content st' = content st"
  by (auto simp: ensureOutputDir_def Let_def dest!: mkdir_content chmod_content split: prod.splits option.splits)

lemma ensureOutputDir_path:
  "ensureOutputDir env fs dir host st = (Inr p, st') \<Longrightarrow> p = path_Join [dir, safeDomain env host]"
  by (auto simp: ensureOutputDir_def Let_def split: prod.splits option.splits)

lemma appendLine_ok:
  assumes "appendLine fs p line st = (None, st')"
  shows "content st' = (content st)(path_norm p \<mapsto>
           (case content st (path_norm p) of None \<Rightarrow> [] | Some c \<Rightarrow> c) @ line)"
proof -
  obtain f s1 where o: "fs_OpenFile fs p [O_APPEND, O_CREATE, O_WRONLY] 0x1A4 st = (Inr f, s1)"
    using assms by (auto simp: appendLine_def split: prod.splits sum.splits)
  then obtain s2 s3 e where w: "fs_Write fs f line s1 = (None, s2)" and c: "fs_Close fs f s2 = (e, s3)" and "st' = s3"
    using assms by (cases "fs_Close fs f (snd (fs_Write fs f line s1))")
      (auto simp: appendLine_def split: prod.splits)
  have h: "handle_key s1 f = Some (path_norm p)"
    and s1: "content s1 = (content st)(path_norm p \<mapsto> (case content st (path_norm p) of None \<Rightarrow> [] | Some c \<Rightarrow> c))"
    using open_ok [OF o] by simp_all
  show ?thesis
    using write_ok [OF w h] close_content [OF c] \<open>st' = s3\<close> s1 by simp
qed

lemma appendLine_frame:
  assumes "appendLine fs p line st = (err, st')" "k \<noteq> path_norm p"
  shows "content st' k = content st k"
proof (cases "fs_OpenFile fs p [O_APPEND, O_CREATE, O_WRONLY] 0x1A4 st")
  case (Pair r s1)
  show ?thesis
  proof (cases r)
    case (Inl e)
    then show ?thesis using assms Pair open_err [of p _ _ st e s1] by (auto simp: appendLine_def)
  next
    case (Inr f)
    obtain e2 s2 where w: "fs_Write fs f line s1 = (e2, s2)" by fastforce
    obtain e3 s3 where c: "fs_Close fs f s2 = (e3, s3)" by fastforce
    have o: "fs_OpenFile fs p [O_APPEND, O_CREATE, O_WRONLY] 0x1A4 st = (Inr f, s1)"
      using Pair Inr by simp
    have "st' = s3" using assms o w c by (auto simp: appendLine_def)
    then show ?thesis
      using open_ok [OF o] write_frame [OF w] close_content [OF c] assms(2) by simp
  qed
qed

lemma JSONBodyWriter_frame:
  assumes "JSONBodyWriter_WriteEntry env fs dir (Some e) st = Inr (err, st')"
    "CHR ''/'' \<notin> set (ce_ID e)" "k \<noteq> json_key env dir e"
  shows "content st' k = content st k"
proof (cases "indentJSON (Some e)")
  case (Some pretty)
  obtain r s1 where d: "ensureOutputDir env fs dir (ce_Host e) st = (r, s1)" by fastforce
  show ?thesis
  proof (cases r)
    case (Inr p)
    let ?f = "path_Join [p, ce_ID e @ ''.json'']"
    have "path_norm ?f = json_key env dir e"
      using d Inr ensureOutputDir_path path_norm_json [OF assms(2)] by blast
    moreover obtain e2 s2 where w: "fs_WriteFile fs ?f pretty 0x1A4 s1 = (e2, s2)" by fastforce
    moreover have "st' = s2"
      using assms(1) d Inr Some w
      by (auto simp: JSONBodyWriter_WriteEntry_def writePrettyJSON_def split: option.splits)
    ultimately show ?thesis
      using write_file_frame [OF w] ensureOutputDir_content [OF d] assms(3) by auto
  qed (use assms d Some ensureOutputDir_content [OF d] in \<open>auto simp: JSONBodyWriter_WriteEntry_def\<close>)
qed (use assms in \<open>auto simp: JSONBodyWriter_WriteEntry_def\<close>)

lemma NDJSONBodyWriter_frame:
  assumes "NDJSONBodyWriter_WriteEntry env fs dir (Some e) st = Inr (err, st')"
    "k \<noteq> ndjson_key env dir e"
  shows "content st' k = content st k"
proof (cases "compactJSON (Some e)")
  case (Some line)
  obtain r s1 where d: "ensureOutputDir env fs dir (ce_Host e) st = (r, s1)" by fastforce
  show ?thesis
  proof (cases r)
    case (Inr p)
    let ?f = "path_Join [p, ''responses.jsonl'']"
    have "path_norm ?f = ndjson_key env dir e"
      using d Inr ensureOutputDir_path path_norm_ndjson by blast
    moreover obtain e2 s2 where w: "appendLine fs ?f line s1 = (e2, s2)" by fastforce
    moreover have "st' = s2"
      using assms(1) d Inr Some w by (auto simp: NDJSONBodyWriter_WriteEntry_def)
    ultimately show ?thesis
      using appendLine_frame [OF w] ensureOutputDir_content [OF d] assms(2) by auto
  qed (use assms d Some ensureOutputDir_content [OF d] in \<open>auto simp: NDJSONBodyWriter_WriteEntry_def\<close>)
qed (use assms in \<open>auto simp: NDJSONBodyWriter_WriteEntry_def\<close>)

lemma JSONBodyWriter_ok:
  assumes "JSONBodyWriter_WriteEntry env fs dir (Some e) st = Inr (None, st')"
    "CHR ''/'' \<notin> set (ce_ID e)" "indentJSON (Some e) = Some pretty"
  shows "content st' = (content st)(json_key env dir e \<mapsto> pretty)"
proof -
  obtain p s1 where d: "ensureOutputDir env fs dir (ce_Host e) st = (Inr p, s1)"
    using assms by (auto simp: JSONBodyWriter_WriteEntry_def split: prod.splits sum.splits)
  let ?f = "path_Join [p, ce_ID e @ ''.json'']"
  have "fs_WriteFile fs ?f pretty 0x1A4 s1 = (None, st')"
    using assms d by (auto simp: JSONBodyWriter_WriteEntry_def writePrettyJSON_def split: prod.splits option.splits)
  moreover have "path_norm ?f = json_key env dir e"
    using d ensureOutputDir_path path_norm_json [OF assms(2)] by blast
  ultimately show ?thesis
    using write_file_ok ensureOutputDir_content [OF d] by metis
qed

lemma NDJSONBodyWriter_ok:
  assumes "NDJSONBodyWriter_WriteEntry env fs dir (Some e) st = Inr (None, st')"
    "compactJSON (Some e) = Some line"
  shows "content st' = (content st)(ndjson_key env dir e \<mapsto>
           (case content st (ndjson_key env dir e) of None \<Rightarrow> [] | Some c \<Rightarrow> c) @ line)"
proof -
  obtain p s1 where d: "ensureOutputDir env fs dir (ce_Host e) st = (Inr p, s1)"
    using assms by (auto simp: NDJSONBodyWriter_WriteEntry_def split: prod.splits sum.splits)
  let ?f = "path_Join [p, ''responses.jsonl'']"
  have "appendLine fs ?f line s1 = (None, st')"
    using assms d by (auto simp: NDJSONBodyWriter_WriteEntry_def split: prod.splits)
  moreover have "path_norm ?f = ndjson_key env dir e"
    using d ensureOutputDir_path path_norm_ndjson by blast
  ultimately show ?thesis
    using appendLine_ok ensureOutputDir_content [OF d] by metis
qed

end

interpretation os: file_contract OSFileSystem os_files os_handles
proof unfold_locales
qed (auto simp: OSFileSystem_def os_MkdirAll_def os_Chmod_def os_WriteFile_def os_OpenFile_def
      os_Write_def os_Close_def Let_def split: option.splits if_splits)

section \<open>The interface Writer\<close>

text \<open>
  The proxy hands each entry to every writer and only logs an error. \<open>write_entries\<close> is that
  sequence for one writer; \<open>write_entries_ok\<close> additionally stops at the first error.
\<close>

fun write_entries ::
  "(captured_entry option \<Rightarrow> 'f \<Rightarrow> (go_error \<times> 'f) go) \<Rightarrow> captured_entry list \<Rightarrow> 'f \<Rightarrow> 'f go" where
  "write_entries w [] st = Inr st"
| "write_entries w (e # es) st = go_bind (w (Some e) st) (\<lambda>(err, st'). write_entries w es st')"

fun write_entries_ok ::
  "(captured_entry option \<Rightarrow> 'f \<Rightarrow> (go_error \<times> 'f) go) \<Rightarrow> captured_entry list \<Rightarrow> 'f \<Rightarrow> 'f option" where
  "write_entries_ok w [] st = Some st"
| "write_entries_ok w (e # es) st =
     (case w (Some e) st of Inr (None, st') \<Rightarrow> write_entries_ok w es st' | _ \<Rightarrow> None)"

locale entry_writer =
  fixes write_entry :: "captured_entry option \<Rightarrow> 'f \<Rightarrow> (go_error \<times> 'f) go"
    and content :: "'f \<Rightarrow> path_key \<Rightarrow> string option"
    and accepts :: "captured_entry \<Rightarrow> bool"
    and target :: "captured_entry \<Rightarrow> path_key"
  assumes no_panic: "\<exists>err st'. write_entry p st = Inr (err, st')"
    and frame: "write_entry (Some e) st = Inr (err, st') \<Longrightarrow> accepts e \<Longrightarrow> k \<noteq> target e \<Longrightarrow>
      content st' k = content st k"
begin

lemma write_entries_total: "\<exists>st'. write_entries write_entry es st = Inr st'"
proof (induction es arbitrary: st)
  case (Cons e es)
  obtain err st1 where "write_entry (Some e) st = Inr (err, st1)" using no_panic by blast
  then show ?case using Cons.IH by simp
qed simp

lemma write_entries_frame:
  "write_entries write_entry es st = Inr st' \<Longrightarrow> list_all accepts es \<Longrightarrow> k \<notin> target ` set es
     \<Longrightarrow> content st' k = content st k"
proof (induction es arbitrary: st)
  case (Cons e es)
  obtain err st1 where w: "write_entry (Some e) st = Inr (err, st1)" using no_panic by blast
  then have "write_entries write_entry es st1 = Inr st'" using Cons.prems(1) by simp
  then show ?case using Cons.IH Cons.prems frame [OF w] by auto
qed simp

end

definition slashless_id :: "captured_entry \<Rightarrow> bool" where
  "slashless_id e \<longleftrightarrow> CHR ''/'' \<notin> set (ce_ID e)"

interpretation json_w: entry_writer "JSONBodyWriter_WriteEntry env OSFileSystem dir" os_files slashless_id
  "json_key env dir" for env dir
proof unfold_locales
  fix p st
  show "\<exists>err st'. JSONBodyWriter_WriteEntry env OSFileSystem dir p st = Inr (err, st')"
    by (cases p) (auto simp: JSONBodyWriter_WriteEntry_def indentJSON_def
        split: option.splits prod.splits sum.splits)
next
  fix e st err st' k
  assume "JSONBodyWriter_WriteEntry env OSFileSystem dir (Some e) st = Inr (err, st')" "slashless_id e"
    "k \<noteq> json_key env dir e"
  then show "os_files st' k = os_files st k"
    using os.JSONBodyWriter_frame by (simp add: slashless_id_def)
qed

interpretation ndjson_w: entry_writer "NDJSONBodyWriter_WriteEntry env OSFileSystem dir" os_files
  "\<lambda>_. True" "ndjson_key env dir" for env dir
proof unfold_locales
  fix p st
  show "\<exists>err st'. NDJSONBodyWriter_WriteEntry env OSFileSystem dir p st = Inr (err, st')"
    by (cases p) (auto simp: NDJSONBodyWriter_WriteEntry_def compactJSON_def
        split: option.splits prod.splits sum.splits)
next
  fix e st err st' k
  assume "NDJSONBodyWriter_WriteEntry env OSFileSystem dir (Some e) st = Inr (err, st')"
    "k \<noteq> ndjson_key env dir e"
  then show "os_files st' k = os_files st k"
    using os.NDJSONBodyWriter_frame by blast
qed

section \<open>Lines of a JSONL file\<close>

text \<open>The compact bodies of the entries of one domain, in order.\<close>

definition domain_lines :: "std_env \<Rightarrow> string \<Rightarrow> captured_entry list \<Rightarrow> string list" where
  "domain_lines env d es =
     List.map_filter (\<lambda>e. if safeDomain env (ce_Host e) = d
                          then Option.bind (ce_ResponseBody e) json_Compact else None) es"

lemma compactJSON_Some:
  "compactJSON (Some e) = map_option (\<lambda>l. l @ [CHR 0x0A]) (Option.bind (ce_ResponseBody e) json_Compact)"
  by (simp add: compactJSON_def split: option.splits)

lemma ndjson_key_eq:
  "ndjson_key env dir e = (is_rooted dir, path_segments dir @ [d, ''responses.jsonl''])
     \<longleftrightarrow> safeDomain env (ce_Host e) = d"
  by (auto simp: ndjson_key_def)

lemma domain_lines_Cons:
  "domain_lines env d (e # es) =
     (if safeDomain env (ce_Host e) = d
      then (case Option.bind (ce_ResponseBody e) json_Compact of None \<Rightarrow> [] | Some l \<Rightarrow> [l]) else [])
     @ domain_lines env d es"
  by (simp add: domain_lines_def List.map_filter_def split: option.splits)

lemma ndjson_content:
  fixes d :: string
  assumes "write_entries_ok (NDJSONBodyWriter_WriteEntry env OSFileSystem dir) es st = Some st'"
  defines "k \<equiv> (is_rooted dir, path_segments dir @ [d, ''responses.jsonl''])"
  shows "(case os_files st' k of None \<Rightarrow> [] | Some c \<Rightarrow> c)
    = (case os_files st k of None \<Rightarrow> [] | Some c \<Rightarrow> c)
      @ concat (map (\<lambda>l. l @ [CHR 0x0A]) (domain_lines env d es))"
  using assms(1)
proof (induction es arbitrary: st)
  case Nil
  then show ?case by (simp add: domain_lines_def List.map_filter_def)
next
  case (Cons e es)
  obtain s1 where w: "NDJSONBodyWriter_WriteEntry env OSFileSystem dir (Some e) st = Inr (None, s1)"
    and r: "write_entries_ok (NDJSONBodyWriter_WriteEntry env OSFileSystem dir) es s1 = Some st'"
    using Cons.prems by (auto split: sum.splits prod.splits option.splits)
  have "(case os_files s1 k of None \<Rightarrow> [] | Some c \<Rightarrow> c)
      = (case os_files st k of None \<Rightarrow> [] | Some c \<Rightarrow> c)
        @ (if safeDomain env (ce_Host e) = d
           then (case Option.bind (ce_ResponseBody e) json_Compact of None \<Rightarrow> [] | Some l \<Rightarrow> l @ [CHR 0x0A]) else [])"
  proof (cases "Option.bind (ce_ResponseBody e) json_Compact")
    case None
    then have "s1 = st" using w by (simp add: NDJSONBodyWriter_WriteEntry_def compactJSON_Some)
    with None show ?thesis by simp
  next
    case (Some l)
    then have "os_files s1 = (os_files st)(ndjson_key env dir e \<mapsto>
        (case os_files st (ndjson_key env dir e) of None \<Rightarrow> [] | Some c \<Rightarrow> c) @ l @ [CHR 0x0A])"
      using os.NDJSONBodyWriter_ok [OF w] by (simp add: compactJSON_Some)
    with Some show ?thesis
      using ndjson_key_eq [of env dir e d] by (auto simp: k_def)
  qed
  then show ?case
    using Cons.IH [OF r] by (simp add: domain_lines_Cons split: option.splits)
qed

lemma split_lines: "(\<And>l. l \<in> set ls \<Longrightarrow> c \<notin> set l) \<Longrightarrow> split_byte c (concat (map (\<lambda>l. l @ [c]) ls)) = ls @ [[]]"
  by (induction ls) (simp_all add: split_byte_append split_byte_absent)

lemma in_map_filter: "y \<in> set (List.map_filter f xs) \<Longrightarrow> \<exists>x. f x = Some y"
  by (auto simp: List.map_filter_def)

lemma domain_lines_one_line:
  assumes "l \<in> set (domain_lines env d es)"
  shows "CHR 0x0A \<notin> set l"
proof -
  obtain e :: captured_entry where "(if safeDomain env (ce_Host e) = d then Option.bind (ce_ResponseBody e) json_Compact else None) = Some l"
    using in_map_filter [OF assms [unfolded domain_lines_def]] by blast
  then obtain b where "json_Compact b = Some l"
    by (cases "ce_ResponseBody e") (simp_all split: if_splits)
  then show ?thesis by (rule json_Compact_one_line)
qed

section \<open>Directories\<close>

text \<open>No file stands where the output directory of an entry should be.\<close>

definition dir_free :: "os_state \<Rightarrow> path_key \<Rightarrow> bool" where
  "dir_free st d \<longleftrightarrow> list_all (\<lambda>a. os_files st a = None) (ancestors d)"

definition no_faults :: "os_state \<Rightarrow> bool" where
  "no_faults st \<longleftrightarrow> os_deny st = (\<lambda>_ _. None)"

lemma self_in_ancestors: "k \<in> set (ancestors k)"
proof -
  have "k = (fst k, take (length (snd k)) (snd k))" by simp
  then show ?thesis unfolding ancestors_def by (metis (no_types, lifting) atLeastLessThan_iff
        image_eqI lessI list.set_map set_upt zero_le)
qed

lemma ancestors_length: "a \<in> set (ancestors k) \<Longrightarrow> length (snd a) \<le> length (snd k)"
  by (auto simp: ancestors_def)

lemma ensureOutputDir_os:
  assumes "no_faults st" "dir_free st (domain_key env dir e)"
  shows "\<exists>st'. ensureOutputDir env OSFileSystem dir (ce_Host e) st
           = (Inr (path_Join [dir, safeDomain env (ce_Host e)]), st')
         \<and> os_dirs st' (domain_key env dir e) = Some 0x1FF
         \<and> (\<forall>k. k \<notin> set (ancestors (domain_key env dir e)) \<longrightarrow> os_dirs st' k = os_dirs st k)
         \<and> os_files st' = os_files st \<and> no_faults st'"
  using assms self_in_ancestors [of "domain_key env dir e"]
  by (auto simp: ensureOutputDir_def OSFileSystem_def os_MkdirAll_def os_Chmod_def no_faults_def
      dir_free_def dir_exists_def path_norm_domain Let_def list_all_iff list_ex_iff)

text \<open>A file of the domain directory can be created once the directory exists.\<close>

lemma in_domain_creatable:
  assumes "no_faults st" "dir_free st (domain_key env dir e)" "plain_segment file"
    and "k = (is_rooted dir, path_segments dir @ [safeDomain env (ce_Host e), file])"
    and "os_dirs st k = None"
    and "ensureOutputDir env OSFileSystem dir (ce_Host e) st = (Inr p, st')"
  shows "\<not> dir_exists st' k" and "dir_exists st' (parent_key k)"
proof -
  have st': "os_dirs st' (domain_key env dir e) = Some 0x1FF"
      "\<And>q. q \<notin> set (ancestors (domain_key env dir e)) \<Longrightarrow> os_dirs st' q = os_dirs st q"
    using ensureOutputDir_os [OF assms(1,2)] assms(6) by auto
  have "k \<notin> set (ancestors (domain_key env dir e))"
    using ancestors_length [of k "domain_key env dir e"] assms(4) by (auto simp: domain_key_def)
  then show "\<not> dir_exists st' k"
    using st'(2) assms(3-5) by (simp add: dir_exists_def plain_segment_def)
  have "parent_key k = domain_key env dir e"
    using assms(4) by (simp add: parent_key_def domain_key_def butlast_append)
  then show "dir_exists st' (parent_key k)"
    using st'(1) by (simp add: dir_exists_def)
qed

lemma NDJSONBodyWriter_success:
  assumes "no_faults st" "dir_free st (domain_key env dir e)" "os_dirs st (ndjson_key env dir e) = None"
  shows "\<exists>st'. NDJSONBodyWriter_WriteEntry env OSFileSystem dir (Some e) st = Inr (None, st')"
proof (cases "compactJSON (Some e)")
  case (Some line)
  obtain s1 where d: "ensureOutputDir env OSFileSystem dir (ce_Host e) st
      = (Inr (path_Join [dir, safeDomain env (ce_Host e)]), s1)" and n: "no_faults s1"
    using ensureOutputDir_os [OF assms(1,2)] by blast
  have "\<not> dir_exists s1 (ndjson_key env dir e)" "dir_exists s1 (parent_key (ndjson_key env dir e))"
    using in_domain_creatable [OF assms(1,2) _ ndjson_key_def assms(3) d]
    by (simp_all add: plain_segment_def)
  then show ?thesis
    using Some d n path_norm_ndjson [of dir env e]
    by (simp add: NDJSONBodyWriter_WriteEntry_def appendLine_def OSFileSystem_def os_OpenFile_def
        os_Write_def no_faults_def Let_def)
qed (simp add: NDJSONBodyWriter_WriteEntry_def)

definition demo_os :: os_state where
  "demo_os = \<lparr> os_files = Map.empty, os_modes = Map.empty, os_dirs = Map.empty, os_handles = Map.empty, os_next = 0,
     os_umask = 0x12, os_deny = (\<lambda>_ _. None), os_short = 0 \<rparr>"

definition denying_os :: os_state where
  "denying_os = demo_os\<lparr>os_deny := (\<lambda>p k. if p = OpMkdir then Some ''permission denied'' else None)\<rparr>"

definition demo_json_entry :: "string \<Rightarrow> string \<Rightarrow> string \<Rightarrow> captured_entry" where
  "demo_json_entry i h b = zero_entry\<lparr>ce_ID := i, ce_Host := h, ce_ResponseBody := Some b\<rparr>"

section \<open>Properties\<close>

text \<open>
  \<^bold>\<open>C9\<close>. Path confinement: however hostile the host names of the recorded traffic are, a
  sequence of entries handed to either body writer never panics and changes no file except
  files exactly two levels below the output directory, in a directory named by the
  sanitised host: lower-case letters, digits, dots, dashes and underscores only, and never
  a dot segment. (For the per-entry files the identifier must not contain a slash, which
  identifiers made by the program never do.)
\<close>

theorem body_writers_confined:
  assumes "list_all slashless_id es"
    and "w = JSONBodyWriter_WriteEntry env OSFileSystem dir \<or> w = NDJSONBodyWriter_WriteEntry env OSFileSystem dir"
  shows "\<exists>st'. write_entries w es st = Inr st' \<and>
    (\<forall>k. os_files st' k \<noteq> os_files st k \<longrightarrow>
       (\<exists>e \<in> set es. \<exists>file. k = (is_rooted dir, path_segments dir @ [safeDomain env (ce_Host e), file])
          \<and> plain_segment file \<and> plain_segment (safeDomain env (ce_Host e))
          \<and> list_all safe_byte (safeDomain env (ce_Host e))))"
proof -
  have "\<exists>st' target. write_entries w es st = Inr st'
      \<and> (\<forall>k. k \<notin> target ` set es \<longrightarrow> os_files st' k = os_files st k)
      \<and> (target = json_key env dir \<or> target = ndjson_key env dir)"
    using assms(2)
  proof
    assume w: "w = JSONBodyWriter_WriteEntry env OSFileSystem dir"
    obtain st' where "write_entries w es st = Inr st'"
      using json_w.write_entries_total w by blast
    then show ?thesis using json_w.write_entries_frame [of env dir es st] w assms(1) by blast
  next
    assume w: "w = NDJSONBodyWriter_WriteEntry env OSFileSystem dir"
    obtain st' where "write_entries w es st = Inr st'"
      using ndjson_w.write_entries_total w by blast
    moreover have "list_all (\<lambda>_. True) es" by (simp add: list_all_iff)
    ultimately show ?thesis using ndjson_w.write_entries_frame [of env dir es st] w by blast
  qed
  then obtain st' target where st': "write_entries w es st = Inr st'"
    and fr: "\<And>k. k \<notin> target ` set es \<Longrightarrow> os_files st' k = os_files st k"
    and tg: "target = json_key env dir \<or> target = ndjson_key env dir" by blast
  have "\<exists>file. target e = (is_rooted dir, path_segments dir @ [safeDomain env (ce_Host e), file]) \<and> plain_segment file"
    if "e \<in> set es" for e
  proof -
    have "plain_segment (ce_ID e @ ''.json'')"
      using that assms(1) by (intro plain_json_name) (auto simp: list_all_iff slashless_id_def)
    then show ?thesis
      using tg by (auto simp: json_key_def ndjson_key_def plain_segment_def)
  qed
  then show ?thesis
    using st' fr safeDomain_plain safeDomain_bytes by (metis (no_types, lifting) imageE)
qed

theorem body_writers_confined_witness:
  "\<exists>st'. write_entries (JSONBodyWriter_WriteEntry demo_env OSFileSystem ''/out'')
      [demo_json_entry ''1'' ''../../etc'' ''1''] demo_os = Inr st' \<and>
    (\<forall>k. os_files st' k \<noteq> os_files demo_os k \<longrightarrow>
       (\<exists>e \<in> set [demo_json_entry ''1'' ''../../etc'' ''1'']. \<exists>file.
          k = (is_rooted ''/out'', path_segments ''/out'' @ [safeDomain demo_env (ce_Host e), file])
          \<and> plain_segment file \<and> plain_segment (safeDomain demo_env (ce_Host e))
          \<and> list_all safe_byte (safeDomain demo_env (ce_Host e))))"
  by (rule body_writers_confined) (simp_all add: slashless_id_def demo_json_entry_def)

text \<open>
  The JSONL file of a domain can be read back line by line: when the writes succeed and the
  file did not exist before, splitting it at newlines gives exactly the compact forms of
  the JSON bodies recorded for that domain, one per line, in order, with nothing from
  other domains, non-JSON bodies or missing bodies.
\<close>

theorem ndjson_lines_roundtrip:
  assumes "write_entries_ok (NDJSONBodyWriter_WriteEntry env OSFileSystem dir) es st = Some st'"
    and "os_files st (is_rooted dir, path_segments dir @ [d, ''responses.jsonl'']) = None"
  shows "split_byte (CHR 0x0A)
      (case os_files st' (is_rooted dir, path_segments dir @ [d, ''responses.jsonl'']) of None \<Rightarrow> [] | Some c \<Rightarrow> c)
    = domain_lines env d es @ [[]]"
  using ndjson_content [OF assms(1), of d] assms(2)
    split_lines [of "domain_lines env d es" "CHR 0x0A"] domain_lines_one_line [of _ env d es]
  by simp

theorem ndjson_lines_roundtrip_witness:
  "\<exists>st'. write_entries_ok (NDJSONBodyWriter_WriteEntry demo_env OSFileSystem ''/out'')
       [demo_json_entry ''1'' ''A.b:80'' ''[1, 2]''] demo_os = Some st'
     \<and> split_byte (CHR 0x0A)
        (case os_files st' (is_rooted ''/out'', path_segments ''/out'' @ [''a.b'', ''responses.jsonl'']) of None \<Rightarrow> [] | Some c \<Rightarrow> c)
      = [''[1,2]''] @ [[]]"
proof -
  let ?e = "demo_json_entry ''1'' ''A.b:80'' ''[1, 2]''" and ?w = "NDJSONBodyWriter_WriteEntry demo_env OSFileSystem ''/out''"
  have "\<exists>st'. ?w (Some ?e) demo_os = Inr (None, st')"
    by (rule NDJSONBodyWriter_success) (simp_all add: demo_os_def no_faults_def dir_free_def list_all_iff)
  then obtain st' where run: "write_entries_ok ?w [?e] demo_os = Some st'" by auto
  moreover have "os_files demo_os (is_rooted ''/out'', path_segments ''/out'' @ [''a.b'', ''responses.jsonl'']) = None"
    by (simp add: demo_os_def)
  moreover have "domain_lines demo_env ''a.b'' [?e] = [''[1,2]'']"
  proof -
    have "SplitHostPort ''A.b:80'' = Some (''A.b'', ''80'')" "json_Compact ''[1, 2]'' = Some ''[1,2]''"
      by code_simp+
    then show ?thesis
      by (simp add: domain_lines_def List.map_filter_def demo_json_entry_def safeDomain_def splitHostname_def
          sanitizeHost_ascii lower_byte_def char_of_eq_iff isSafeRune_def isAlnum_def isLower_def isDigit_def
          validSegmentName_def)
  qed
  ultimately show ?thesis using ndjson_lines_roundtrip [OF run, of "''a.b''"] by metis
qed

text \<open>
  \<^bold>\<open>C33\<close>. A JSON body is written: unless the operating system refuses an operation or a file
  stands in the way of a directory, the per-entry writer reports no error, the file
  \<^verbatim>\<open><dir>/<domain>/<id>.json\<close> then holds the indented body followed by a newline, no other file
  has changed, and the domain directory has mode 0777 whatever the umask is.
\<close>

theorem JSONBodyWriter_writes:
  assumes "no_faults st" "dir_free st (domain_key env dir e)" "slashless_id e"
    and "os_dirs st (json_key env dir e) = None"
    and "ce_ResponseBody e = Some body" "json_Indent ''  '' body = Some pretty"
  shows "\<exists>st'. JSONBodyWriter_WriteEntry env OSFileSystem dir (Some e) st = Inr (None, st')
      \<and> os_files st' = (os_files st)(json_key env dir e \<mapsto> pretty @ [CHR 0x0A])
      \<and> os_dirs st' (domain_key env dir e) = Some 0x1FF"
proof -
  obtain s1 where d: "ensureOutputDir env OSFileSystem dir (ce_Host e) st
      = (Inr (path_Join [dir, safeDomain env (ce_Host e)]), s1)"
    and s1: "no_faults s1" "os_files s1 = os_files st" "os_dirs s1 (domain_key env dir e) = Some 0x1FF"
    using ensureOutputDir_os [OF assms(1,2)] by blast
  have id: "CHR ''/'' \<notin> set (ce_ID e)" using assms(3) by (simp add: slashless_id_def)
  have "\<not> dir_exists s1 (json_key env dir e)" "dir_exists s1 (parent_key (json_key env dir e))"
    using in_domain_creatable [OF assms(1,2) plain_json_name [OF id] json_key_def assms(4) d] .
  moreover have "indentJSON (Some e) = Some (pretty @ [CHR 0x0A])"
    using assms(5,6) by (simp add: indentJSON_def)
  ultimately show ?thesis
    using d s1 path_norm_json [OF id, of dir env]
    by (simp add: JSONBodyWriter_WriteEntry_def writePrettyJSON_def OSFileSystem_def os_WriteFile_def
        no_faults_def Let_def)
qed

theorem JSONBodyWriter_writes_witness:
  "\<exists>st'. JSONBodyWriter_WriteEntry demo_env OSFileSystem ''/out'' (Some (demo_json_entry ''1'' ''..'' ''[]'')) demo_os
        = Inr (None, st')
      \<and> os_files st' = (os_files demo_os)(json_key demo_env ''/out'' (demo_json_entry ''1'' ''..'' ''[]'')
            \<mapsto> ''[]'' @ [CHR 0x0A])
      \<and> os_dirs st' (domain_key demo_env ''/out'' (demo_json_entry ''1'' ''..'' ''[]'')) = Some 0x1FF"
proof (rule JSONBodyWriter_writes)
  show "json_Indent ''  '' ''[]'' = Some ''[]''" by code_simp
qed (simp_all add: demo_os_def no_faults_def dir_free_def list_all_iff slashless_id_def demo_json_entry_def)

text \<open>
  A refused operation is reported and nothing is written: when the domain directory cannot
  be created or its mode cannot be set, both writers return the wrapped error, and no file
  content changes.
\<close>

theorem body_writers_report_dir_errors:
  assumes "jsonBody (Some e) = Some body" "json_Compact body \<noteq> None"
    and "os_deny st OpMkdir (domain_key env dir e) = Some err
      \<or> (os_deny st OpMkdir (domain_key env dir e) = None \<and> dir_free st (domain_key env dir e)
         \<and> os_deny st OpChmod (domain_key env dir e) = Some err)"
  defines "p \<equiv> path_Join [dir, safeDomain env (ce_Host e)]"
  shows "\<exists>st' what. JSONBodyWriter_WriteEntry env OSFileSystem dir (Some e) st
         = Inr (Some (what @ '' output dir '' @ p @ '': '' @ err), st')
      \<and> NDJSONBodyWriter_WriteEntry env OSFileSystem dir (Some e) st
         = Inr (Some (what @ '' output dir '' @ p @ '': '' @ err), st')
      \<and> what \<in> {''create'', ''chmod''} \<and> os_files st' = os_files st"
proof -
  have "json_Indent ''  '' body \<noteq> None"
    using assms(2) json_Indent_iff_Compact [of "''  ''" body] by simp
  then have b: "indentJSON (Some e) \<noteq> None" "compactJSON (Some e) \<noteq> None"
    using assms(1,2) by (auto simp: indentJSON_def compactJSON_def)
  have "\<exists>st' what. ensureOutputDir env OSFileSystem dir (ce_Host e) st
      = (Inl (what @ '' output dir '' @ p @ '': '' @ err), st') \<and> what \<in> {''create'', ''chmod''}
      \<and> os_files st' = os_files st"
    using assms(3) unfolding p_def
    by (auto simp: ensureOutputDir_def OSFileSystem_def os_MkdirAll_def os_Chmod_def path_norm_domain
        dir_free_def list_all_iff list_ex_iff Let_def)
  then show ?thesis
    using b by (auto simp: JSONBodyWriter_WriteEntry_def NDJSONBodyWriter_WriteEntry_def)
qed

theorem body_writers_report_dir_errors_witness:
  "\<exists>st' what. JSONBodyWriter_WriteEntry demo_env OSFileSystem ''/out'' (Some (demo_json_entry ''1'' ''h'' ''[]'')) denying_os
         = Inr (Some (what @ '' output dir '' @ path_Join [''/out'', safeDomain demo_env (ce_Host (demo_json_entry ''1'' ''h'' ''[]''))]
              @ '': '' @ ''permission denied''), st')
      \<and> NDJSONBodyWriter_WriteEntry demo_env OSFileSystem ''/out'' (Some (demo_json_entry ''1'' ''h'' ''[]'')) denying_os
         = Inr (Some (what @ '' output dir '' @ path_Join [''/out'', safeDomain demo_env (ce_Host (demo_json_entry ''1'' ''h'' ''[]''))]
              @ '': '' @ ''permission denied''), st')
      \<and> what \<in> {''create'', ''chmod''} \<and> os_files st' = os_files denying_os"
proof (rule body_writers_report_dir_errors)
  show "jsonBody (Some (demo_json_entry ''1'' ''h'' ''[]'')) = Some ''[]''"
    by (simp add: demo_json_entry_def)
  show "json_Compact ''[]'' \<noteq> None" by code_simp
qed (simp add: denying_os_def)

end
