(* ===== verification/Output_Concurrency.thy ===== *)
theory Output_Concurrency
  imports Output_Writers "HOL-Library.Multiset"
begin

text \<open>
  \<^verbatim>\<open>NDJSONBodyWriter\<close> (\<^verbatim>\<open>internal/output/file_writer.go\<close>) called by several goroutines at once,
  at the granularity of its system calls: each call of \<^verbatim>\<open>WriteEntry\<close> is a program counter,
  the mutex of the writer is its holder, and a \<^verbatim>\<open>write\<close> call may transfer only a part of the
  line, as \<^verbatim>\<open>os.File.Write\<close> then calls it again for the rest. The theorems show that the
  mutex makes the calls appear one after the other, in some order, and that no schedule blocks.
\<close>

section \<open>The calls as processes\<close>

datatype write_task =
    WStart "captured_entry option"
  | WMkdir string string
  | WChmod string string
  | WLock string string
  | WOpen string string
  | WWrite string nat string
  | WClose nat go_error
  | WUnlock go_error
  | WDone go_error

record writer_sys =
  ws_os :: os_state
  ws_mu :: "nat option"
  ws_tasks :: "write_task list"

text \<open>One \<^verbatim>\<open>write\<close> call: it fails as a whole or transfers \<open>n\<close> bytes.\<close>

definition os_write_some :: "nat \<Rightarrow> nat \<Rightarrow> string \<Rightarrow> os_state \<Rightarrow> go_error \<times> os_state" where
  "os_write_some n f data st =
     (case os_Write f data st of (Some err, st1) \<Rightarrow> (Some err, st1)
      | (None, _) \<Rightarrow> os_Write f (take n data) st)"

text \<open>
  The next system call of goroutine \<open>i\<close>. \<open>WMkdir\<close> and \<open>WChmod\<close> are the two calls of
  \<^verbatim>\<open>ensureOutputDir\<close>; from \<open>WLock\<close> on it is in \<^verbatim>\<open>appendLine\<close>, whose deferred calls are
  \<open>WClose\<close> and, last, \<open>WUnlock\<close>. A locked mutex leaves \<open>WLock\<close> without a step.
\<close>

fun task_step ::
  "std_env \<Rightarrow> string \<Rightarrow> nat \<Rightarrow> nat \<Rightarrow> write_task \<Rightarrow> nat option \<Rightarrow> os_state
     \<Rightarrow> (write_task \<times> nat option \<times> os_state) option" where
  "task_step env dir i n (WStart None) mu st = Some (WDone None, mu, st)"
| "task_step env dir i n (WStart (Some e)) mu st =
     (case compactJSON (Some e) of
        None \<Rightarrow> Some (WDone None, mu, st)
      | Some line \<Rightarrow> Some (WMkdir (path_Join [dir, safeDomain env (ce_Host e)]) line, mu, st))"
| "task_step env dir i n (WMkdir domainDir line) mu st =
     (case os_MkdirAll domainDir 0x1FF st of
        (Some err, st1) \<Rightarrow> Some (WDone (Some (''create output dir '' @ domainDir @ '': '' @ err)), mu, st1)
      | (None, st1) \<Rightarrow> Some (WChmod domainDir line, mu, st1))"
| "task_step env dir i n (WChmod domainDir line) mu st =
     (case os_Chmod domainDir 0x1FF st of
        (Some err, st1) \<Rightarrow> Some (WDone (Some (''chmod output dir '' @ domainDir @ '': '' @ err)), mu, st1)
      | (None, st1) \<Rightarrow> Some (WLock (path_Join [domainDir, ''responses.jsonl'']) line, mu, st1))"
| "task_step env dir i n (WLock path line) mu st =
     (if mu = None then Some (WOpen path line, Some i, st) else None)"
| "task_step env dir i n (WOpen path line) mu st =
     (case os_OpenFile path [O_APPEND, O_CREATE, O_WRONLY] 0x1A4 st of
        (Inl err, st1) \<Rightarrow> Some (WUnlock (Some (''open '' @ path @ '': '' @ err)), mu, st1)
      | (Inr f, st1) \<Rightarrow> Some (WWrite path f line, mu, st1))"
| "task_step env dir i n (WWrite path f rest) mu st =
     (if 0 < n \<and> n \<le> length rest
      then (case os_write_some n f rest st of
              (Some err, st1) \<Rightarrow> Some (WClose f (Some (''write '' @ path @ '': '' @ err)), mu, st1)
            | (None, st1) \<Rightarrow>
                Some (if n = length rest then WClose f None else WWrite path f (drop n rest), mu, st1))
      else None)"
| "task_step env dir i n (WClose f err) mu st = Some (WUnlock err, mu, snd (os_Close f st))"
| "task_step env dir i n (WUnlock err) mu st = Some (WDone err, None, st)"
| "task_step env dir i n (WDone err) mu st = None"

definition writer_step :: "std_env \<Rightarrow> string \<Rightarrow> nat \<Rightarrow> nat \<Rightarrow> writer_sys \<Rightarrow> writer_sys option" where
  "writer_step env dir i n s =
     (if i < length (ws_tasks s)
      then (case task_step env dir i n (ws_tasks s ! i) (ws_mu s) (ws_os s) of
              None \<Rightarrow> None
            | Some (t, mu, st) \<Rightarrow> Some \<lparr> ws_os = st, ws_mu = mu, ws_tasks = (ws_tasks s)[i := t] \<rparr>)
      else None)"

text \<open>A schedule names the goroutine of each step and the bytes its write call would transfer.\<close>

fun writer_run :: "std_env \<Rightarrow> string \<Rightarrow> (nat \<times> nat) list \<Rightarrow> writer_sys \<Rightarrow> writer_sys option" where
  "writer_run env dir [] s = Some s"
| "writer_run env dir ((i, n) # sch) s =
     (case writer_step env dir i n s of None \<Rightarrow> None | Some s' \<Rightarrow> writer_run env dir sch s')"

definition writer_init :: "os_state \<Rightarrow> captured_entry list \<Rightarrow> writer_sys" where
  "writer_init st es = \<lparr> ws_os = st, ws_mu = None, ws_tasks = map (\<lambda>e. WStart (Some e)) es \<rparr>"

text \<open>What the calls returned, once all of them have.\<close>

fun task_results :: "write_task list \<Rightarrow> go_error list option" where
  "task_results [] = Some []"
| "task_results (WDone err # ts) = map_option (Cons err) (task_results ts)"
| "task_results (_ # ts) = None"

definition is_done :: "write_task \<Rightarrow> bool" where
  "is_done t \<longleftrightarrow> (case t of WDone _ \<Rightarrow> True | _ \<Rightarrow> False)"

text \<open>The same calls one after the other, with their results.\<close>

fun write_results ::
  "(captured_entry option \<Rightarrow> 'f \<Rightarrow> (go_error \<times> 'f) go) \<Rightarrow> captured_entry list \<Rightarrow> 'f
     \<Rightarrow> (go_error list \<times> 'f) go" where
  "write_results w [] st = Inr ([], st)"
| "write_results w (e # es) st =
     go_bind (w (Some e) st) (\<lambda>(err, st1).
     go_bind (write_results w es st1) (\<lambda>(errs, st2). Inr (err # errs, st2)))"

lemma task_results_Some: "task_results ts = Some errs \<longleftrightarrow> ts = map WDone errs"
  by (induction ts arbitrary: errs rule: task_results.induct) (auto simp: map_eq_Cons_conv)

section \<open>No schedule blocks\<close>

text \<open>The steps a call has left at most, given that each write call transfers at least a byte.\<close>

fun steps_left :: "write_task \<Rightarrow> nat" where
  "steps_left (WStart entry) = (case compactJSON entry of None \<Rightarrow> 1 | Some line \<Rightarrow> length line + 7)"
| "steps_left (WMkdir _ line) = length line + 6"
| "steps_left (WChmod _ line) = length line + 5"
| "steps_left (WLock _ line) = length line + 4"
| "steps_left (WOpen _ line) = length line + 3"
| "steps_left (WWrite _ _ rest) = length rest + 2"
| "steps_left (WClose _ _) = 2"
| "steps_left (WUnlock _) = 1"
| "steps_left (WDone _) = 0"

definition total_left :: "writer_sys \<Rightarrow> nat" where
  "total_left s = sum_list (map steps_left (ws_tasks s))"

lemma task_step_decreases:
  "task_step env dir i n t mu st = Some (t', mu', st') \<Longrightarrow> steps_left t' < steps_left t"
  by (induction env dir i n t mu st rule: task_step.induct)
    (auto split: option.splits prod.splits sum.splits if_splits)

lemma writer_step_SomeE:
  assumes "writer_step env dir i n s = Some s'"
  obtains t mu st where "i < length (ws_tasks s)"
    "task_step env dir i n (ws_tasks s ! i) (ws_mu s) (ws_os s) = Some (t, mu, st)"
    "s' = \<lparr> ws_os = st, ws_mu = mu, ws_tasks = (ws_tasks s)[i := t] \<rparr>"
  using assms by (auto simp: writer_step_def split: if_splits option.splits)

lemma writer_step_decreases:
  assumes "writer_step env dir i n s = Some s'"
  shows "total_left s' < total_left s"
proof -
  obtain t mu st where i: "i < length (ws_tasks s)"
    and t: "task_step env dir i n (ws_tasks s ! i) (ws_mu s) (ws_os s) = Some (t, mu, st)"
    and s': "s' = \<lparr> ws_os = st, ws_mu = mu, ws_tasks = (ws_tasks s)[i := t] \<rparr>"
    using writer_step_SomeE [OF assms] .
  have "steps_left (ws_tasks s ! i) \<le> sum_list (map steps_left (ws_tasks s))"
    using i by (simp add: member_le_sum_list)
  then show ?thesis
    using task_step_decreases [OF t] i s' by (simp add: total_left_def map_update sum_list_update)
qed

lemma writer_run_length: "writer_run env dir sch s = Some s' \<Longrightarrow> length sch + total_left s' \<le> total_left s"
proof (induction env dir sch s rule: writer_run.induct)
  case (2 env dir i n sch s)
  then obtain s1 where "writer_step env dir i n s = Some s1" "writer_run env dir sch s1 = Some s'"
    by (auto split: option.splits)
  with 2(1) show ?case using writer_step_decreases by fastforce
qed simp

text \<open>The holder of the mutex is in its critical section, and nobody else is in one.\<close>

fun in_section :: "write_task \<Rightarrow> bool" where
  "in_section (WOpen _ _) = True"
| "in_section (WWrite _ _ _) = True"
| "in_section (WClose _ _) = True"
| "in_section (WUnlock _) = True"
| "in_section _ = False"

fun has_line :: "write_task \<Rightarrow> bool" where
  "has_line (WMkdir _ line) = (line \<noteq> [])"
| "has_line (WChmod _ line) = (line \<noteq> [])"
| "has_line (WLock _ line) = (line \<noteq> [])"
| "has_line (WOpen _ line) = (line \<noteq> [])"
| "has_line (WWrite _ _ rest) = (rest \<noteq> [])"
| "has_line _ = True"

definition mutex_held :: "writer_sys \<Rightarrow> bool" where
  "mutex_held s \<longleftrightarrow> (\<forall>i < length (ws_tasks s). in_section (ws_tasks s ! i) \<longleftrightarrow> ws_mu s = Some i)
     \<and> (\<forall>h. ws_mu s = Some h \<longrightarrow> h < length (ws_tasks s))"

definition lines_left :: "writer_sys \<Rightarrow> bool" where
  "lines_left s \<longleftrightarrow> list_all has_line (ws_tasks s)"

lemma compactJSON_not_Nil: "compactJSON e \<noteq> Some []"
  by (auto simp: compactJSON_def split: option.splits)

lemma task_step_section:
  assumes "task_step env dir i n t mu st = Some (t', mu', st')" "in_section t \<longleftrightarrow> mu = Some i"
  shows "(in_section t' \<longleftrightarrow> mu' = Some i) \<and> (mu' = mu \<or> (mu = None \<and> mu' = Some i) \<or> (mu = Some i \<and> mu' = None))"
  using assms by (induction env dir i n t mu st rule: task_step.induct)
    (auto split: option.splits prod.splits sum.splits if_splits)

lemma task_step_has_line:
  "task_step env dir i n t mu st = Some (t', mu', st') \<Longrightarrow> has_line t \<Longrightarrow> has_line t'"
  by (induction env dir i n t mu st rule: task_step.induct)
    (auto simp: compactJSON_not_Nil split: option.splits prod.splits sum.splits if_splits)

lemma mutex_held_step:
  assumes "writer_step env dir i n s = Some s'" "mutex_held s"
  shows "mutex_held s'"
proof -
  obtain t mu st where i: "i < length (ws_tasks s)"
    and t: "task_step env dir i n (ws_tasks s ! i) (ws_mu s) (ws_os s) = Some (t, mu, st)"
    and s': "s' = \<lparr> ws_os = st, ws_mu = mu, ws_tasks = (ws_tasks s)[i := t] \<rparr>"
    using writer_step_SomeE [OF assms(1)] .
  show ?thesis
    using task_step_section [OF t] assms(2) i
    by (auto simp: s' mutex_held_def nth_list_update)
qed

lemma lines_left_step: "writer_step env dir i n s = Some s' \<Longrightarrow> lines_left s \<Longrightarrow> lines_left s'"
  by (auto simp: lines_left_def list_all_length nth_list_update elim!: writer_step_SomeE dest: task_step_has_line)

lemma writer_init_invs: "mutex_held (writer_init st es)" "lines_left (writer_init st es)"
  by (auto simp: writer_init_def mutex_held_def lines_left_def list_all_iff)

lemma writer_run_invs:
  "writer_run env dir sch s = Some s' \<Longrightarrow> mutex_held s \<Longrightarrow> lines_left s \<Longrightarrow> mutex_held s' \<and> lines_left s'"
proof (induction env dir sch s rule: writer_run.induct)
  case (2 env dir i n sch s)
  then show ?case by (auto split: option.splits dest: mutex_held_step lines_left_step)
qed simp

text \<open>Only a taken mutex holds a call up.\<close>

lemma task_step_enabled:
  assumes "has_line t" "\<not> is_done t" "in_section t \<or> mu = None"
  shows "\<exists>n. task_step env dir i n t mu st \<noteq> None"
proof (cases t)
  case (WStart entry)
  then show ?thesis by (cases entry) (auto split: option.splits)
next
  case (WWrite path f rest)
  then have "task_step env dir i (length rest) t mu st \<noteq> None"
    using assms(1) by (auto split: option.splits prod.splits)
  then show ?thesis by blast
qed (use assms in \<open>auto simp: is_done_def split: option.splits prod.splits sum.splits\<close>)

lemma writer_step_enabled:
  assumes "mutex_held s" "lines_left s" "i < length (ws_tasks s)" "\<not> is_done (ws_tasks s ! i)"
  shows "\<exists>j n. writer_step env dir j n s \<noteq> None"
proof -
  obtain j where j: "j < length (ws_tasks s)" "\<not> is_done (ws_tasks s ! j)" "in_section (ws_tasks s ! j) \<or> ws_mu s = None"
  proof (cases "ws_mu s")
    case None
    then show ?thesis using assms(3,4) that by blast
  next
    case (Some h)
    then have "h < length (ws_tasks s)" "in_section (ws_tasks s ! h)" using assms(1) by (auto simp: mutex_held_def)
    moreover from this have "\<not> is_done (ws_tasks s ! h)"
      by (cases "ws_tasks s ! h") (auto simp: is_done_def)
    ultimately show ?thesis using that by blast
  qed
  moreover have "has_line (ws_tasks s ! j)" using assms(2) j(1) by (simp add: lines_left_def list_all_length)
  ultimately obtain n where "task_step env dir j n (ws_tasks s ! j) (ws_mu s) (ws_os s) \<noteq> None"
    using task_step_enabled by blast
  then have "writer_step env dir j n s \<noteq> None" using j(1) by (auto simp: writer_step_def split: option.splits)
  then show ?thesis by blast
qed

section \<open>The tree under a writer\<close>

text \<open>
  Directories are created and given their mode in any order with the same outcome: the
  directories \<open>M\<close> have been asked for and the directories \<open>C\<close> have been given mode 0777.
\<close>

definition made_dirs :: "os_state \<Rightarrow> path_key set \<Rightarrow> path_key set \<Rightarrow> path_key \<rightharpoonup> file_mode" where
  "made_dirs st0 M C = (\<lambda>k. if k \<in> C then Some 0x1FF
     else if k \<in> M \<and> \<not> dir_exists st0 k then Some (0x1FF AND NOT (os_umask st0)) else os_dirs st0 k)"

definition entry_dir :: "std_env \<Rightarrow> string \<Rightarrow> captured_entry \<Rightarrow> string" where
  "entry_dir env dir e = path_Join [dir, safeDomain env (ce_Host e)]"

definition entry_file :: "std_env \<Rightarrow> string \<Rightarrow> captured_entry \<Rightarrow> string" where
  "entry_file env dir e = path_Join [entry_dir env dir e, ''responses.jsonl'']"

definition entry_line :: "captured_entry \<Rightarrow> string" where
  "entry_line e = (case compactJSON (Some e) of None \<Rightarrow> [] | Some line \<Rightarrow> line)"

definition mkdir_ok :: "std_env \<Rightarrow> string \<Rightarrow> os_state \<Rightarrow> captured_entry \<Rightarrow> bool" where
  "mkdir_ok env dir st0 e \<longleftrightarrow> compactJSON (Some e) \<noteq> None \<and> fst (os_MkdirAll (entry_dir env dir e) 0x1FF st0) = None"

definition admitted :: "std_env \<Rightarrow> string \<Rightarrow> os_state \<Rightarrow> captured_entry \<Rightarrow> bool" where
  "admitted env dir st0 e \<longleftrightarrow> mkdir_ok env dir st0 e \<and> os_deny st0 OpChmod (domain_key env dir e) = None"

definition mk_dirs :: "std_env \<Rightarrow> string \<Rightarrow> os_state \<Rightarrow> captured_entry \<Rightarrow> path_key set" where
  "mk_dirs env dir st0 e = (if mkdir_ok env dir st0 e then set (ancestors (domain_key env dir e)) else {})"

definition ch_dirs :: "std_env \<Rightarrow> string \<Rightarrow> os_state \<Rightarrow> captured_entry \<Rightarrow> path_key set" where
  "ch_dirs env dir st0 e = (if admitted env dir st0 e then {domain_key env dir e} else {})"

text \<open>What a call returns depends on the entry and on what the system refuses only.\<close>

definition append_error :: "std_env \<Rightarrow> string \<Rightarrow> os_state \<Rightarrow> captured_entry \<Rightarrow> go_error" where
  "append_error env dir st0 e =
     (let p = entry_file env dir e; k = ndjson_key env dir e in
      case os_deny st0 OpOpen k of Some err \<Rightarrow> Some (''open '' @ p @ '': '' @ err)
      | None \<Rightarrow> if dir_exists st0 k then Some (''open '' @ p @ '': '' @ ''is a directory'')
                else map_option (\<lambda>err. ''write '' @ p @ '': '' @ err) (os_deny st0 OpWrite k))"

definition call_error :: "std_env \<Rightarrow> string \<Rightarrow> os_state \<Rightarrow> captured_entry \<Rightarrow> go_error" where
  "call_error env dir st0 e =
     (if compactJSON (Some e) = None then None
      else case fst (os_MkdirAll (entry_dir env dir e) 0x1FF st0) of
        Some err \<Rightarrow> Some (''create output dir '' @ entry_dir env dir e @ '': '' @ err)
      | None \<Rightarrow>
          (case os_deny st0 OpChmod (domain_key env dir e) of
             Some err \<Rightarrow> Some (''chmod output dir '' @ entry_dir env dir e @ '': '' @ err)
           | None \<Rightarrow> append_error env dir st0 e))"

text \<open>Since the start \<open>st0\<close>, only the directories \<open>M\<close> and \<open>C\<close> and the JSONL files have changed.\<close>

definition world :: "std_env \<Rightarrow> string \<Rightarrow> os_state \<Rightarrow> path_key set \<Rightarrow> path_key set \<Rightarrow> os_state \<Rightarrow> bool" where
  "world env dir st0 M C st \<longleftrightarrow> os_deny st = os_deny st0 \<and> os_umask st = os_umask st0
     \<and> os_dirs st = made_dirs st0 M C
     \<and> (\<forall>k. k \<notin> range (ndjson_key env dir) \<longrightarrow> os_files st k = os_files st0 k)
     \<and> M \<subseteq> (\<Union>e. set (ancestors (domain_key env dir e))) \<and> C \<subseteq> range (domain_key env dir)"

text \<open>The state with all domain directories in place, on which the order of their creation leaves no trace.\<close>

definition full_dirs :: "std_env \<Rightarrow> string \<Rightarrow> os_state \<Rightarrow> path_key \<rightharpoonup> file_mode" where
  "full_dirs env dir st0 = made_dirs st0 {} (range (domain_key env dir))"

definition full :: "std_env \<Rightarrow> string \<Rightarrow> os_state \<Rightarrow> os_state \<Rightarrow> os_state" where
  "full env dir st0 st = st\<lparr>os_dirs := full_dirs env dir st0\<rparr>"

lemmas path_norm_entry = path_norm_domain [folded entry_dir_def] path_norm_ndjson [folded entry_dir_def, folded entry_file_def]

lemma parent_ndjson: "parent_key (ndjson_key env dir e) = domain_key env dir e"
  by (simp add: parent_key_def ndjson_key_def domain_key_def butlast_append)

lemma domain_ancestor_length:
  "a \<in> set (ancestors (domain_key env dir e)) \<Longrightarrow> length (snd a) \<le> Suc (length (path_segments dir))"
  using ancestors_length [of a "domain_key env dir e"] by (simp add: domain_key_def)

lemma ndjson_not_ancestor: "ndjson_key env dir e' \<notin> set (ancestors (domain_key env dir e))"
  using domain_ancestor_length [of "ndjson_key env dir e'" env dir e] by (auto simp: ndjson_key_def)

lemma ndjson_not_domain: "ndjson_key env dir e' \<noteq> domain_key env dir e"
  using ndjson_not_ancestor [of env dir e' e] self_in_ancestors [of "domain_key env dir e"] by metis

lemma ndjson_dir_exists:
  assumes "M \<subseteq> (\<Union>e. set (ancestors (domain_key env dir e)))" "C \<subseteq> range (domain_key env dir)"
    "os_dirs st = made_dirs st0 M C"
  shows "dir_exists st (ndjson_key env dir e) \<longleftrightarrow> dir_exists st0 (ndjson_key env dir e)"
proof -
  have "ndjson_key env dir e \<notin> M" "ndjson_key env dir e \<notin> C"
    using assms(1,2) ndjson_not_ancestor ndjson_not_domain by blast+
  then show ?thesis using assms(3) by (simp add: dir_exists_def made_dirs_def)
qed

lemma full_ndjson_dir: "dir_exists (full env dir st0 st) (ndjson_key env dir e) \<longleftrightarrow> dir_exists st0 (ndjson_key env dir e)"
  by (rule ndjson_dir_exists [of "{}" _ _ "range (domain_key env dir)"]) (auto simp: full_def full_dirs_def)

lemma full_domain_dir: "dir_exists (full env dir st0 st) (domain_key env dir e)"
  by (simp add: dir_exists_def full_def full_dirs_def made_dirs_def)

subsection \<open>Making the directory of an entry\<close>

lemma world_deny: "world env dir st0 M C st \<Longrightarrow> os_deny st = os_deny st0"
  by (simp add: world_def)

lemma world_ancestor_file:
  assumes "world env dir st0 M C st" "a \<in> set (ancestors (domain_key env dir e))"
  shows "os_files st a = os_files st0 a"
proof -
  have "a \<notin> range (ndjson_key env dir)" using assms(2) ndjson_not_ancestor by blast
  then show ?thesis using assms(1) unfolding world_def by blast
qed

lemma mkdir_fst:
  assumes "world env dir st0 M C st"
  shows "fst (os_MkdirAll (entry_dir env dir e) 0x1FF st) = fst (os_MkdirAll (entry_dir env dir e) 0x1FF st0)"
  using world_ancestor_file [OF assms, of _ e]
  by (auto simp: os_MkdirAll_def Let_def path_norm_entry world_deny [OF assms] list_ex_iff split: option.splits)

lemma mkdir_refused: "fst (os_MkdirAll p m st) \<noteq> None \<Longrightarrow> snd (os_MkdirAll p m st) = st"
  by (auto simp: os_MkdirAll_def Let_def split: option.splits if_splits)

lemma mkdir_snd:
  assumes "world env dir st0 M C st" "fst (os_MkdirAll (entry_dir env dir e) 0x1FF st) = None"
  shows "snd (os_MkdirAll (entry_dir env dir e) 0x1FF st)
    = st\<lparr>os_dirs := made_dirs st0 (M \<union> set (ancestors (domain_key env dir e))) C\<rparr>"
proof -
  have "(if k \<in> A \<and> \<not> dir_exists st k then Some (0x1FF AND NOT (os_umask st)) else os_dirs st k)
      = made_dirs st0 (M \<union> A) C k" for k A
    using assms(1) by (auto simp: world_def made_dirs_def dir_exists_def)
  then show ?thesis
    using assms(2) by (auto simp: os_MkdirAll_def Let_def path_norm_entry split: option.splits if_splits)
qed

lemma world_dirs:
  "world env dir st0 M C st \<Longrightarrow> M' \<subseteq> (\<Union>e. set (ancestors (domain_key env dir e))) \<Longrightarrow> C' \<subseteq> range (domain_key env dir)
     \<Longrightarrow> world env dir st0 M' C' (st\<lparr>os_dirs := made_dirs st0 M' C'\<rparr>)"
  by (simp add: world_def)

lemma mkdir_world:
  assumes "world env dir st0 M C st" "compactJSON (Some e) \<noteq> None"
  shows "world env dir st0 (M \<union> mk_dirs env dir st0 e) C (snd (os_MkdirAll (entry_dir env dir e) 0x1FF st))" (is ?W)
    and "full env dir st0 (snd (os_MkdirAll (entry_dir env dir e) 0x1FF st)) = full env dir st0 st" (is ?F)
proof -
  have "?W \<and> ?F"
  proof (cases "mkdir_ok env dir st0 e")
    case True
    then have "M \<union> mk_dirs env dir st0 e \<subseteq> (\<Union>e. set (ancestors (domain_key env dir e)))" "C \<subseteq> range (domain_key env dir)"
      using assms(1) by (auto simp: world_def mk_dirs_def)
    then show ?thesis
      using mkdir_snd [OF assms(1), of e] mkdir_fst [OF assms(1), of e] world_dirs [OF assms(1)] True
      by (auto simp: mkdir_ok_def mk_dirs_def full_def)
  next
    case False
    then show ?thesis
      using mkdir_fst [OF assms(1), of e] mkdir_refused assms by (auto simp: mkdir_ok_def mk_dirs_def)
  qed
  then show ?W ?F by blast+
qed

lemma chmod_world:
  assumes "world env dir st0 M C st" "mkdir_ok env dir st0 e" "domain_key env dir e \<in> M"
  shows "fst (os_Chmod (entry_dir env dir e) 0x1FF st) = os_deny st0 OpChmod (domain_key env dir e)"
    and "world env dir st0 M (C \<union> ch_dirs env dir st0 e) (snd (os_Chmod (entry_dir env dir e) 0x1FF st))"
    and "full env dir st0 (snd (os_Chmod (entry_dir env dir e) 0x1FF st)) = full env dir st0 st"
proof -
  have ex: "dir_exists st (domain_key env dir e)"
    using assms(1,3) by (auto simp: world_def dir_exists_def made_dirs_def)
  have up: "(os_dirs st)(domain_key env dir e \<mapsto> 0x1FF) = made_dirs st0 M (insert (domain_key env dir e) C)"
    using assms(1) by (auto simp: world_def made_dirs_def fun_eq_iff)
  have "world env dir st0 M (insert (domain_key env dir e) C) (st\<lparr>os_dirs := (os_dirs st)(domain_key env dir e \<mapsto> 0x1FF)\<rparr>)"
    unfolding up by (rule world_dirs [OF assms(1)]) (use assms(1) in \<open>auto simp: world_def\<close>)
  then show "world env dir st0 M (C \<union> ch_dirs env dir st0 e) (snd (os_Chmod (entry_dir env dir e) 0x1FF st))"
    using ex assms(1,2)
    by (auto simp: os_Chmod_def Let_def path_norm_entry world_deny [OF assms(1)] ch_dirs_def admitted_def
        split: option.splits)
qed (use assms in \<open>auto simp: os_Chmod_def Let_def path_norm_entry world_def full_def dir_exists_def made_dirs_def
      split: option.splits\<close>)

subsection \<open>The critical section\<close>

text \<open>Its calls do not depend on the directories, but for those that hold the file and the file itself.\<close>

lemma os_OpenFile_dirs:
  assumes "dir_exists (st\<lparr>os_dirs := d\<rparr>) (path_norm p) = dir_exists st (path_norm p)"
    "dir_exists (st\<lparr>os_dirs := d\<rparr>) (parent_key (path_norm p)) = dir_exists st (parent_key (path_norm p))"
  shows "os_OpenFile p fl m (st\<lparr>os_dirs := d\<rparr>)
    = (fst (os_OpenFile p fl m st), (snd (os_OpenFile p fl m st))\<lparr>os_dirs := d\<rparr>)"
  using assms by (simp add: os_OpenFile_def Let_def created_mode_def split: option.split)

lemma os_Write_dirs:
  "os_Write f data (st\<lparr>os_dirs := d\<rparr>) = (fst (os_Write f data st), (snd (os_Write f data st))\<lparr>os_dirs := d\<rparr>)"
  by (simp add: os_Write_def Let_def split: option.split)

lemma os_write_some_dirs:
  "os_write_some n f data (st\<lparr>os_dirs := d\<rparr>)
    = (fst (os_write_some n f data st), (snd (os_write_some n f data st))\<lparr>os_dirs := d\<rparr>)"
  by (simp add: os_write_some_def os_Write_dirs split: option.split prod.split)

lemma os_Close_dirs:
  "os_Close f (st\<lparr>os_dirs := d\<rparr>) = (fst (os_Close f st), (snd (os_Close f st))\<lparr>os_dirs := d\<rparr>)"
  by (simp add: os_Close_def split: option.split)

definition append_entry :: "std_env \<Rightarrow> string \<Rightarrow> captured_entry \<Rightarrow> os_state \<Rightarrow> go_error \<times> os_state" where
  "append_entry env dir e st = appendLine OSFileSystem (entry_file env dir e) (entry_line e) st"

lemma append_entry_error:
  assumes "os_deny st = os_deny st0" "dir_exists st (domain_key env dir e)"
    "dir_exists st (ndjson_key env dir e) = dir_exists st0 (ndjson_key env dir e)"
  shows "fst (append_entry env dir e st) = append_error env dir st0 e"
  using assms by (auto simp: append_entry_def append_error_def appendLine_def OSFileSystem_def os_OpenFile_def
      os_Write_def path_norm_entry parent_ndjson Let_def split: option.split)

lemma append_entry_keeps:
  "os_deny (snd (append_entry env dir e st)) = os_deny st"
  "os_umask (snd (append_entry env dir e st)) = os_umask st"
  "os_dirs (snd (append_entry env dir e st)) = os_dirs st"
  "k \<noteq> ndjson_key env dir e \<Longrightarrow> os_files (snd (append_entry env dir e st)) k = os_files st k"
  by (auto simp: append_entry_def appendLine_def OSFileSystem_def os_OpenFile_def os_Write_def os_Close_def
      path_norm_entry Let_def split: option.split)

lemma append_entry_full:
  assumes "world env dir st0 M C st" "domain_key env dir e \<in> C"
  shows "append_entry env dir e (full env dir st0 st)
      = (fst (append_entry env dir e st), full env dir st0 (snd (append_entry env dir e st)))"
    and "world env dir st0 M C (snd (append_entry env dir e st))"
    and "fst (append_entry env dir e st) = append_error env dir st0 e"
proof -
  have d: "dir_exists st (ndjson_key env dir e) = dir_exists st0 (ndjson_key env dir e)"
    by (rule ndjson_dir_exists) (use assms(1) in \<open>auto simp: world_def\<close>)
  have p: "dir_exists st (domain_key env dir e)"
    using assms by (simp add: world_def dir_exists_def made_dirs_def)
  note o = os_OpenFile_dirs [where p = "entry_file env dir e" and st = st and d = "full_dirs env dir st0",
      unfolded path_norm_entry parent_ndjson, folded full_def, unfolded full_ndjson_dir, OF d [symmetric]]
  show "append_entry env dir e (full env dir st0 st)
      = (fst (append_entry env dir e st), full env dir st0 (snd (append_entry env dir e st)))"
    using o p full_domain_dir
    by (simp add: append_entry_def appendLine_def OSFileSystem_def full_def os_Write_dirs os_Close_dirs
        split: prod.split sum.split)
  show "world env dir st0 M C (snd (append_entry env dir e st))"
    using assms(1) append_entry_keeps [where st = st and e = e and env = env and dir = dir]
    unfolding world_def by (metis rangeI)
  show "fst (append_entry env dir e st) = append_error env dir st0 e"
    by (rule append_entry_error) (use assms p d in \<open>simp_all add: world_def\<close>)
qed

text \<open>The log: the state after the critical sections of some entries, one after the other.\<close>

definition log_os :: "std_env \<Rightarrow> string \<Rightarrow> os_state \<Rightarrow> captured_entry list \<Rightarrow> os_state" where
  "log_os env dir st0 es = fold (\<lambda>e st. snd (append_entry env dir e st)) es (full env dir st0 st0)"

lemma log_os_snoc: "log_os env dir st0 (es @ [e]) = snd (append_entry env dir e (log_os env dir st0 es))"
  by (simp add: log_os_def)

lemma log_os_keeps:
  "os_deny (log_os env dir st0 es) = os_deny st0 \<and> os_dirs (log_os env dir st0 es) = full_dirs env dir st0"
proof (induction es rule: rev_induct)
  case Nil
  then show ?case by (simp add: log_os_def full_def)
next
  case (snoc e es)
  then show ?case by (simp add: log_os_snoc append_entry_keeps)
qed

section \<open>One call after the other\<close>

lemma WriteEntry_world:
  assumes "world env dir st0 M C st"
  shows "\<exists>st'. NDJSONBodyWriter_WriteEntry env OSFileSystem dir (Some e) st = Inr (call_error env dir st0 e, st')
    \<and> world env dir st0 (M \<union> mk_dirs env dir st0 e) (C \<union> ch_dirs env dir st0 e) st'
    \<and> full env dir st0 st' = (if admitted env dir st0 e then snd (append_entry env dir e (full env dir st0 st))
        else full env dir st0 st)"
proof (cases "compactJSON (Some e)")
  case None
  then show ?thesis
    using assms by (simp add: NDJSONBodyWriter_WriteEntry_def call_error_def mk_dirs_def ch_dirs_def
        admitted_def mkdir_ok_def)
next
  case line: (Some line)
  obtain r1 s1 where mk: "os_MkdirAll (entry_dir env dir e) 0x1FF st = (r1, s1)" by fastforce
  have w1: "world env dir st0 (M \<union> mk_dirs env dir st0 e) C s1" and f1: "full env dir st0 s1 = full env dir st0 st"
    and r1: "fst (os_MkdirAll (entry_dir env dir e) 0x1FF st0) = r1"
    using mkdir_world [OF assms, of e] mkdir_fst [OF assms, of e] line mk by simp_all
  show ?thesis
  proof (cases r1)
    case (Some err)
    then show ?thesis
      using mk r1 w1 f1 line by (simp add: NDJSONBodyWriter_WriteEntry_def ensureOutputDir_def OSFileSystem_def
          entry_dir_def [symmetric] call_error_def ch_dirs_def admitted_def mkdir_ok_def)
  next
    case None
    then have ok: "mkdir_ok env dir st0 e" using r1 line by (simp add: mkdir_ok_def)
    then have m: "domain_key env dir e \<in> M \<union> mk_dirs env dir st0 e"
      using self_in_ancestors by (simp add: mk_dirs_def)
    obtain r2 s2 where ch: "os_Chmod (entry_dir env dir e) 0x1FF s1 = (r2, s2)" by fastforce
    have w2: "world env dir st0 (M \<union> mk_dirs env dir st0 e) (C \<union> ch_dirs env dir st0 e) s2"
      and f2: "full env dir st0 s2 = full env dir st0 st" and r2: "os_deny st0 OpChmod (domain_key env dir e) = r2"
      using chmod_world [OF w1 ok m] ch f1 by simp_all
    show ?thesis
    proof (cases r2)
      case (Some err)
      then show ?thesis
        using mk None ch r1 r2 w2 f2 line
        by (simp add: NDJSONBodyWriter_WriteEntry_def ensureOutputDir_def OSFileSystem_def
            entry_dir_def [symmetric] call_error_def admitted_def)
    next
      case n2: None
      then have ad: "admitted env dir st0 e" using ok r2 by (simp add: admitted_def)
      then have c: "domain_key env dir e \<in> C \<union> ch_dirs env dir st0 e" by (simp add: ch_dirs_def)
      have "NDJSONBodyWriter_WriteEntry env OSFileSystem dir (Some e) st = Inr (append_entry env dir e s2)"
        using mk None ch n2 line
        by (simp add: NDJSONBodyWriter_WriteEntry_def ensureOutputDir_def append_entry_def entry_line_def entry_file_def
            OSFileSystem_def entry_dir_def [symmetric])
      moreover have "call_error env dir st0 e = append_error env dir st0 e"
        using r1 None r2 n2 line by (simp add: call_error_def)
      ultimately show ?thesis
        using append_entry_full [OF w2 c] ad f2 by (metis prod.collapse snd_conv)
    qed
  qed
qed

lemma write_results_world:
  "world env dir st0 M C st \<Longrightarrow> full env dir st0 st = log_os env dir st0 ls \<Longrightarrow>
    \<exists>st'. write_results (NDJSONBodyWriter_WriteEntry env OSFileSystem dir) es st = Inr (map (call_error env dir st0) es, st')
    \<and> world env dir st0 (M \<union> (\<Union>e \<in> set es. mk_dirs env dir st0 e)) (C \<union> (\<Union>e \<in> set es. ch_dirs env dir st0 e)) st'
    \<and> full env dir st0 st' = log_os env dir st0 (ls @ filter (admitted env dir st0) es)"
proof (induction es arbitrary: M C st ls)
  case (Cons e es)
  obtain s1 where w: "NDJSONBodyWriter_WriteEntry env OSFileSystem dir (Some e) st = Inr (call_error env dir st0 e, s1)"
    and w1: "world env dir st0 (M \<union> mk_dirs env dir st0 e) (C \<union> ch_dirs env dir st0 e) s1"
    and f1: "full env dir st0 s1 = log_os env dir st0 (ls @ filter (admitted env dir st0) [e])"
    using WriteEntry_world [OF Cons.prems(1), of e] Cons.prems(2) by (auto simp: log_os_snoc)
  show ?case using Cons.IH [OF w1 f1] w by (auto simp: Un_assoc)
qed simp

section \<open>Any schedule\<close>

text \<open>What the program counter of the call for entry \<open>e\<close> says about it.\<close>

fun task_ok :: "std_env \<Rightarrow> string \<Rightarrow> os_state \<Rightarrow> captured_entry \<Rightarrow> write_task \<Rightarrow> bool" where
  "task_ok env dir st0 e (WStart p) = (p = Some e)"
| "task_ok env dir st0 e (WMkdir d line) = (d = entry_dir env dir e \<and> compactJSON (Some e) = Some line)"
| "task_ok env dir st0 e (WChmod d line) =
     (d = entry_dir env dir e \<and> compactJSON (Some e) = Some line \<and> mkdir_ok env dir st0 e)"
| "task_ok env dir st0 e (WLock p line) = (p = entry_file env dir e \<and> line = entry_line e \<and> admitted env dir st0 e)"
| "task_ok env dir st0 e (WOpen p line) = (p = entry_file env dir e \<and> line = entry_line e \<and> admitted env dir st0 e)"
| "task_ok env dir st0 e (WWrite p f rest) = (p = entry_file env dir e \<and> admitted env dir st0 e)"
| "task_ok env dir st0 e (WClose f err) = admitted env dir st0 e"
| "task_ok env dir st0 e (WUnlock err) = admitted env dir st0 e"
| "task_ok env dir st0 e (WDone err) = (err = call_error env dir st0 e)"

text \<open>How far the holder has come, on top of the log.\<close>

fun phase :: "std_env \<Rightarrow> string \<Rightarrow> captured_entry \<Rightarrow> os_state \<Rightarrow> write_task \<Rightarrow> os_state \<Rightarrow> bool" where
  "phase env dir e base (WWrite p f rest) st =
     (\<exists>pre st1 c. entry_line e = pre @ rest
        \<and> os_OpenFile (entry_file env dir e) [O_APPEND, O_CREATE, O_WRONLY] 0x1A4 base = (Inr f, st1)
        \<and> os_handles st1 f = Some (ndjson_key env dir e) \<and> os_files st1 (ndjson_key env dir e) = Some c
        \<and> (pre = [] \<or> os_deny st1 OpWrite (ndjson_key env dir e) = None)
        \<and> st = st1\<lparr>os_files := (os_files st1)(ndjson_key env dir e \<mapsto> c @ pre)\<rparr>)"
| "phase env dir e base (WClose f err) st =
     (\<exists>st1. os_OpenFile (entry_file env dir e) [O_APPEND, O_CREATE, O_WRONLY] 0x1A4 base = (Inr f, st1)
        \<and> st = snd (os_Write f (entry_line e) st1)
        \<and> err = map_option (\<lambda>x. ''write '' @ entry_file env dir e @ '': '' @ x) (fst (os_Write f (entry_line e) st1)))"
| "phase env dir e base (WUnlock err) st = (append_entry env dir e base = (err, st))"
| "phase env dir e base t st = (st = base)"

fun task_mk :: "std_env \<Rightarrow> string \<Rightarrow> os_state \<Rightarrow> captured_entry \<Rightarrow> write_task \<Rightarrow> path_key set" where
  "task_mk env dir st0 e (WStart p) = {}"
| "task_mk env dir st0 e (WMkdir d line) = {}"
| "task_mk env dir st0 e t = mk_dirs env dir st0 e"

fun task_ch :: "std_env \<Rightarrow> string \<Rightarrow> os_state \<Rightarrow> captured_entry \<Rightarrow> write_task \<Rightarrow> path_key set" where
  "task_ch env dir st0 e (WStart p) = {}"
| "task_ch env dir st0 e (WMkdir d line) = {}"
| "task_ch env dir st0 e (WChmod d line) = {}"
| "task_ch env dir st0 e t = ch_dirs env dir st0 e"

lemma open_full:
  assumes "world env dir st0 M C st" "domain_key env dir e \<in> C"
  shows "os_OpenFile (entry_file env dir e) fl m (full env dir st0 st)
    = (fst (os_OpenFile (entry_file env dir e) fl m st), full env dir st0 (snd (os_OpenFile (entry_file env dir e) fl m st)))"
proof -
  have "dir_exists st (ndjson_key env dir e) = dir_exists st0 (ndjson_key env dir e)"
    by (rule ndjson_dir_exists) (use assms(1) in \<open>auto simp: world_def\<close>)
  moreover have "dir_exists st (domain_key env dir e)"
    using assms by (simp add: world_def dir_exists_def made_dirs_def)
  ultimately show ?thesis
    unfolding full_def
    by (intro os_OpenFile_dirs) (simp_all add: path_norm_entry parent_ndjson full_domain_dir [unfolded full_def]
        full_ndjson_dir [unfolded full_def])
qed

lemma os_OpenFile_effect:
  assumes "os_OpenFile (entry_file env dir e) fl m st = (r, st')"
  shows "os_deny st' = os_deny st \<and> os_umask st' = os_umask st \<and> os_dirs st' = os_dirs st
    \<and> (\<forall>k. k \<noteq> ndjson_key env dir e \<longrightarrow> os_files st' k = os_files st k)"
    and "r = Inl err \<Longrightarrow> st' = st"
    and "r = Inr f \<Longrightarrow> os_handles st' f = Some (ndjson_key env dir e) \<and> os_files st' (ndjson_key env dir e) \<noteq> None"
  using assms by (auto simp: os_OpenFile_def path_norm_entry Let_def split: option.splits if_splits)

lemma os_write_some_effect:
  assumes "os_write_some n f data st = (r, st')" "os_handles st f = Some k"
  shows "os_deny st' = os_deny st \<and> os_umask st' = os_umask st \<and> os_dirs st' = os_dirs st
    \<and> (\<forall>q. q \<noteq> k \<longrightarrow> os_files st' q = os_files st q)"
  using assms by (auto simp: os_write_some_def os_Write_def Let_def split: option.splits prod.splits)

text \<open>
  One step of the call for \<open>e\<close>: in the critical section it advances the phase, and outside it
  leaves the state alone up to directories.
\<close>

lemma section_step:
  assumes "task_step env dir i n t mu st = Some (t', mu', st')" "task_ok env dir st0 e t"
    "world env dir st0 M C st" "task_ch env dir st0 e t \<subseteq> C" "in_section t"
    "phase env dir e base t (full env dir st0 st)"
  shows "if in_section t' then phase env dir e base t' (full env dir st0 st')
    else is_done t' \<and> admitted env dir st0 e \<and> t' = WDone (fst (append_entry env dir e base))
      \<and> full env dir st0 st' = snd (append_entry env dir e base)"
proof (cases t)
  case (WOpen p line)
  let ?open = "os_OpenFile (entry_file env dir e) [O_APPEND, O_CREATE, O_WRONLY] 0x1A4"
  have a: "p = entry_file env dir e" "line = entry_line e" "admitted env dir st0 e" and b: "full env dir st0 st = base"
    using assms(2,6) WOpen by simp_all
  have c: "domain_key env dir e \<in> C" using assms(4) WOpen a(3) by (simp add: ch_dirs_def)
  obtain r s1 where o: "?open st = (r, s1)" by fastforce
  have of: "?open base = (r, full env dir st0 s1)"
    using open_full [OF assms(3) c] o b by simp
  show ?thesis
  proof (cases r)
    case (Inl err)
    then show ?thesis
      using assms(1) o of WOpen a by (auto simp: append_entry_def appendLine_def OSFileSystem_def)
  next
    case (Inr f)
    obtain c where "os_handles (full env dir st0 s1) f = Some (ndjson_key env dir e)"
      "os_files (full env dir st0 s1) (ndjson_key env dir e) = Some c"
      using os_OpenFile_effect(3) [OF of Inr] by blast
    moreover from this have "full env dir st0 s1
        = (full env dir st0 s1)\<lparr>os_files := (os_files (full env dir st0 s1))(ndjson_key env dir e \<mapsto> c @ [])\<rparr>"
      by (simp add: fun_upd_idem)
    moreover have "t' = WWrite p f line" "st' = s1" using assms(1) o Inr WOpen a by simp_all
    ultimately show ?thesis using of Inr a by auto
  qed
next
  case (WWrite p f rest)
  have a: "p = entry_file env dir e" using assms(2) WWrite by simp
  have n: "0 < n" "n \<le> length rest" using assms(1) WWrite by (simp_all split: if_splits)
  obtain pre st1 c where ph: "entry_line e = pre @ rest"
      "os_OpenFile (entry_file env dir e) [O_APPEND, O_CREATE, O_WRONLY] 0x1A4 base = (Inr f, st1)"
      "os_handles st1 f = Some (ndjson_key env dir e)" "os_files st1 (ndjson_key env dir e) = Some c"
      "pre = [] \<or> os_deny st1 OpWrite (ndjson_key env dir e) = None"
    and st: "full env dir st0 st = st1\<lparr>os_files := (os_files st1)(ndjson_key env dir e \<mapsto> c @ pre)\<rparr>"
    using assms(6) WWrite by auto
  obtain r s2 where w: "os_write_some n f rest st = (r, s2)" by fastforce
  have wf: "os_write_some n f rest (full env dir st0 st) = (r, full env dir st0 s2)"
    using w by (simp add: full_def os_write_some_dirs)
  show ?thesis
  proof (cases "os_deny st1 OpWrite (ndjson_key env dir e)")
    case (Some err)
    then have pre: "pre = []" using ph(5) by simp
    have wr: "os_Write f (entry_line e) st1
        = (Some err, st1\<lparr>os_files := (os_files st1)(ndjson_key env dir e \<mapsto> c @ take (os_short st1) (entry_line e))\<rparr>)"
      using Some ph(3,4) by (simp add: os_Write_def)
    have "os_write_some n f rest (full env dir st0 st)
        = (Some err, st1\<lparr>os_files := (os_files st1)(ndjson_key env dir e \<mapsto> c @ take (os_short st1) rest)\<rparr>)"
      unfolding st using Some ph(3) pre by (simp add: os_write_some_def os_Write_def)
    then have r: "r = Some err" and s2: "full env dir st0 s2 = snd (os_Write f (entry_line e) st1)"
      using wf wr ph(1) pre by simp_all
    have "t' = WClose f (Some (''write '' @ p @ '': '' @ err))" "st' = s2"
      using assms(1) w r WWrite n by simp_all
    then show ?thesis using ph(2) s2 a wr by auto
  next
    case None
    then have r: "r = None" and s2: "full env dir st0 s2
        = st1\<lparr>os_files := (os_files st1)(ndjson_key env dir e \<mapsto> c @ pre @ take n rest)\<rparr>"
      using wf ph(3) st by (auto simp: os_write_some_def os_Write_def Let_def)
    show ?thesis
    proof (cases "n = length rest")
      case True
      then show ?thesis
        using assms(1) w WWrite n ph r s2 None by (auto simp: os_Write_def Let_def)
    next
      case False
      then have "t' = WWrite p f (drop n rest)" "st' = s2" using assms(1) w r WWrite n by simp_all
      moreover have "entry_line e = (pre @ take n rest) @ drop n rest" using ph(1) by simp
      ultimately show ?thesis
        using ph(2-4) None s2 by (auto intro!: exI [of _ "pre @ take n rest"])
    qed
  qed
next
  case (WClose f err)
  then obtain st1 where o: "os_OpenFile (entry_file env dir e) [O_APPEND, O_CREATE, O_WRONLY] 0x1A4 base = (Inr f, st1)"
    and st: "full env dir st0 st = snd (os_Write f (entry_line e) st1)"
    and err: "err = map_option (\<lambda>x. ''write '' @ entry_file env dir e @ '': '' @ x) (fst (os_Write f (entry_line e) st1))"
    using assms(6) by auto
  have "append_entry env dir e base = (err, snd (os_Close f (full env dir st0 st)))"
    using o st err by (simp add: append_entry_def appendLine_def OSFileSystem_def split: prod.split)
  then show ?thesis using assms(1) WClose by (auto simp: full_def os_Close_dirs)
next
  case (WUnlock err)
  then show ?thesis using assms(1,2,6) by (auto simp: is_done_def)
qed (use assms(5) in simp_all)

lemma admitted_call_error: "admitted env dir st0 e \<Longrightarrow> call_error env dir st0 e = append_error env dir st0 e"
  by (auto simp: admitted_def mkdir_ok_def call_error_def)

lemma log_os_error: "fst (append_entry env dir e (log_os env dir st0 es)) = append_error env dir st0 e"
  using log_os_keeps [of env dir st0 es] full_domain_dir [of env dir st0 st0 e] full_ndjson_dir [of env dir st0 st0 e]
  by (intro append_entry_error) (simp_all add: dir_exists_def full_def)

lemma section_world:
  assumes "task_step env dir i n t mu st = Some (t', mu', st')" "task_ok env dir st0 e t"
    "world env dir st0 M C st" "task_mk env dir st0 e t \<subseteq> M" "task_ch env dir st0 e t \<subseteq> C" "in_section t"
    "phase env dir e (log_os env dir st0 ls) t (full env dir st0 st)"
  shows "task_ok env dir st0 e t' \<and> world env dir st0 M C st'
    \<and> task_mk env dir st0 e t' \<subseteq> M \<and> task_ch env dir st0 e t' \<subseteq> C"
proof (cases t)
  case (WOpen p line)
  obtain r s1 where o: "os_OpenFile (entry_file env dir e) [O_APPEND, O_CREATE, O_WRONLY] 0x1A4 st = (r, s1)" by fastforce
  have "world env dir st0 M C s1"
    using os_OpenFile_effect(1) [OF o] assms(3) unfolding world_def by (metis rangeI)
  then show ?thesis using assms(1,2,4,5) o WOpen by (auto split: sum.splits)
next
  case (WWrite p f rest)
  have "0 < n" "n \<le> length rest" using assms(1) WWrite by (simp_all split: if_splits)
  moreover obtain r s1 where w: "os_write_some n f rest st = (r, s1)" by fastforce
  moreover have "os_handles st f = Some (ndjson_key env dir e)"
  proof -
    have "os_handles (full env dir st0 st) f = Some (ndjson_key env dir e)" using assms(7) WWrite by auto
    then show ?thesis by (simp add: full_def)
  qed
  then have "world env dir st0 M C s1"
    using os_write_some_effect [OF w] assms(3) unfolding world_def by (metis rangeI)
  ultimately show ?thesis using assms(1,2,4,5) WWrite by (auto split: option.splits if_splits)
next
  case (WClose f err)
  have "world env dir st0 M C (snd (os_Close f st))"
    using assms(3) by (simp add: os_Close_def world_def split: option.split)
  then show ?thesis using assms(1,2,4,5) WClose by auto
next
  case (WUnlock err)
  then show ?thesis
    using assms(1-5,7) log_os_error [of env dir e st0 ls] by (auto simp: admitted_call_error)
qed (use assms(6) in simp_all)

lemma outside_step:
  assumes "task_step env dir i n t mu st = Some (t', mu', st')" "task_ok env dir st0 e t"
    "world env dir st0 M C st" "task_mk env dir st0 e t \<subseteq> M" "task_ch env dir st0 e t \<subseteq> C" "\<not> in_section t"
  shows "task_ok env dir st0 e t' \<and> world env dir st0 (M \<union> task_mk env dir st0 e t') (C \<union> task_ch env dir st0 e t') st'
    \<and> full env dir st0 st' = full env dir st0 st \<and> (in_section t' \<longrightarrow> (\<forall>x. phase env dir e x t' x))
    \<and> (is_done t' \<longrightarrow> \<not> admitted env dir st0 e)"
proof (cases t)
  case (WStart p)
  then show ?thesis
    using assms(1-3) by (auto simp: call_error_def mk_dirs_def ch_dirs_def admitted_def mkdir_ok_def entry_dir_def
        is_done_def split: option.splits)
next
  case (WMkdir d line)
  then have a: "d = entry_dir env dir e" and l: "compactJSON (Some e) = Some line" using assms(2) by simp_all
  obtain r s1 where mk: "os_MkdirAll (entry_dir env dir e) 0x1FF st = (r, s1)" by fastforce
  have "world env dir st0 (M \<union> mk_dirs env dir st0 e) C s1" "full env dir st0 s1 = full env dir st0 st"
    "fst (os_MkdirAll (entry_dir env dir e) 0x1FF st0) = r"
    using mkdir_world [OF assms(3), of e] mkdir_fst [OF assms(3), of e] mk l by simp_all
  then show ?thesis
    using assms(1) mk WMkdir a l
    by (auto simp: call_error_def ch_dirs_def admitted_def mkdir_ok_def is_done_def split: option.splits)
next
  case (WChmod d line)
  then have a: "d = entry_dir env dir e" and l: "compactJSON (Some e) = Some line" and ok: "mkdir_ok env dir st0 e"
    using assms(2) by simp_all
  have m: "mk_dirs env dir st0 e \<subseteq> M" using assms(4) WChmod by simp
  then have "domain_key env dir e \<in> M" using ok self_in_ancestors [of "domain_key env dir e"] by (metis mk_dirs_def subsetD)
  note ch = chmod_world [OF assms(3) ok this]
  obtain r s1 where s1: "os_Chmod (entry_dir env dir e) 0x1FF st = (r, s1)" by fastforce
  show ?thesis
    using assms(1) ch s1 WChmod a l ok m
    by (auto simp: call_error_def admitted_def mkdir_ok_def entry_file_def entry_line_def is_done_def Un_absorb2
        split: option.splits)
next
  case (WLock p line)
  then show ?thesis
    using assms(1-5) by (auto simp: Un_absorb2 is_done_def split: if_splits)
qed (use assms(1,6) in simp_all)

text \<open>
  The invariant of all schedules: the critical sections left so far, in the order \<open>L\<close> they were
  left in, make up the log, and the holder of the mutex is on top of it.
\<close>

definition section_order :: "std_env \<Rightarrow> string \<Rightarrow> os_state \<Rightarrow> captured_entry list \<Rightarrow> write_task list \<Rightarrow> nat list \<Rightarrow> bool" where
  "section_order env dir st0 es ts L \<longleftrightarrow> distinct L
     \<and> (\<forall>i. i \<in> set L \<longleftrightarrow> i < length es \<and> is_done (ts ! i) \<and> admitted env dir st0 (es ! i))"

definition on_log :: "std_env \<Rightarrow> string \<Rightarrow> os_state \<Rightarrow> captured_entry list \<Rightarrow> nat list \<Rightarrow> writer_sys \<Rightarrow> bool" where
  "on_log env dir st0 es L s \<longleftrightarrow>
     (case ws_mu s of
        None \<Rightarrow> full env dir st0 (ws_os s) = log_os env dir st0 (map ((!) es) L)
      | Some h \<Rightarrow> phase env dir (es ! h) (log_os env dir st0 (map ((!) es) L)) (ws_tasks s ! h)
                   (full env dir st0 (ws_os s)))"

definition all_mk :: "std_env \<Rightarrow> string \<Rightarrow> os_state \<Rightarrow> captured_entry list \<Rightarrow> write_task list \<Rightarrow> path_key set" where
  "all_mk env dir st0 es ts = (\<Union>j < length ts. task_mk env dir st0 (es ! j) (ts ! j))"

definition all_ch :: "std_env \<Rightarrow> string \<Rightarrow> os_state \<Rightarrow> captured_entry list \<Rightarrow> write_task list \<Rightarrow> path_key set" where
  "all_ch env dir st0 es ts = (\<Union>j < length ts. task_ch env dir st0 (es ! j) (ts ! j))"

definition serial_inv :: "std_env \<Rightarrow> string \<Rightarrow> os_state \<Rightarrow> captured_entry list \<Rightarrow> writer_sys \<Rightarrow> bool" where
  "serial_inv env dir st0 es s \<longleftrightarrow> length (ws_tasks s) = length es \<and> mutex_held s
     \<and> (\<forall>i < length es. task_ok env dir st0 (es ! i) (ws_tasks s ! i))
     \<and> world env dir st0 (all_mk env dir st0 es (ws_tasks s)) (all_ch env dir st0 es (ws_tasks s)) (ws_os s)
     \<and> (\<exists>L. section_order env dir st0 es (ws_tasks s) L \<and> on_log env dir st0 es L s)"

lemma UN_list_update:
  assumes "i < length ts" "f i (ts ! i) \<subseteq> f i t"
  shows "(\<Union>j < length (ts[i := t]). f j (ts[i := t] ! j)) = (\<Union>j < length ts. f j (ts ! j)) \<union> f i t"
proof -
  have "(\<Union>j < length ts. f j (us ! j)) = (\<Union>j \<in> {..<length ts} - {i}. f j (us ! j)) \<union> f i (us ! i)" for us
    using assms(1) by auto
  then have "(\<Union>j < length ts. f j (ts[i := t] ! j)) = (\<Union>j \<in> {..<length ts} - {i}. f j (ts ! j)) \<union> f i t"
    and "(\<Union>j < length ts. f j (ts ! j)) = (\<Union>j \<in> {..<length ts} - {i}. f j (ts ! j)) \<union> f i (ts ! i)"
    using assms(1) by simp_all
  then show ?thesis using assms(2) by auto
qed

lemma task_step_mk:
  "task_step env dir i n t mu st = Some (t', mu', st') \<Longrightarrow> task_mk env dir st0 e t \<subseteq> task_mk env dir st0 e t'"
  "task_step env dir i n t mu st = Some (t', mu', st') \<Longrightarrow> task_ch env dir st0 e t \<subseteq> task_ch env dir st0 e t'"
  by (induction env dir i n t mu st rule: task_step.induct)
    (auto split: option.splits prod.splits sum.splits if_splits)

lemma task_step_not_done: "task_step env dir i n t mu st = Some r \<Longrightarrow> \<not> is_done t"
  by (cases t) (auto simp: is_done_def)

lemma in_section_not_done: "in_section t \<Longrightarrow> \<not> is_done t"
  by (cases t) (simp_all add: is_done_def)

lemma section_order_same:
  assumes "section_order env dir st0 es ts L" "i < length ts" "length ts = length es" "\<not> is_done (ts ! i)"
    "is_done t \<Longrightarrow> \<not> admitted env dir st0 (es ! i)"
  shows "section_order env dir st0 es (ts[i := t]) L"
  using assms by (auto simp: section_order_def nth_list_update)

lemma section_order_snoc:
  assumes "section_order env dir st0 es ts L" "i < length ts" "length ts = length es" "\<not> is_done (ts ! i)"
    "is_done t" "admitted env dir st0 (es ! i)"
  shows "section_order env dir st0 es (ts[i := t]) (L @ [i])"
  using assms by (auto simp: section_order_def nth_list_update)

lemma serial_inv_step:
  assumes "serial_inv env dir st0 es s" "writer_step env dir i n s = Some s'"
  shows "serial_inv env dir st0 es s'"
proof -
  let ?ts = "ws_tasks s"
  obtain t mu st where i: "i < length ?ts"
    and t: "task_step env dir i n (?ts ! i) (ws_mu s) (ws_os s) = Some (t, mu, st)"
    and s': "s' = \<lparr> ws_os = st, ws_mu = mu, ws_tasks = ?ts[i := t] \<rparr>"
    using writer_step_SomeE [OF assms(2)] .
  have len: "length ?ts = length es" and held: "mutex_held s"
    and ok: "\<And>j. j < length es \<Longrightarrow> task_ok env dir st0 (es ! j) (?ts ! j)"
    and w: "world env dir st0 (all_mk env dir st0 es ?ts) (all_ch env dir st0 es ?ts) (ws_os s)"
    using assms(1) by (auto simp: serial_inv_def)
  obtain L where L: "section_order env dir st0 es ?ts L" and log: "on_log env dir st0 es L s"
    using assms(1) by (auto simp: serial_inv_def)
  have mk: "all_mk env dir st0 es (?ts[i := t]) = all_mk env dir st0 es ?ts \<union> task_mk env dir st0 (es ! i) t"
    and ch: "all_ch env dir st0 es (?ts[i := t]) = all_ch env dir st0 es ?ts \<union> task_ch env dir st0 (es ! i) t"
    using UN_list_update [where f = "\<lambda>j. task_mk env dir st0 (es ! j)", OF i]
      UN_list_update [where f = "\<lambda>j. task_ch env dir st0 (es ! j)", OF i] task_step_mk [OF t, of st0 "es ! i"]
    by (simp_all only: all_mk_def all_ch_def)
  have sub: "task_mk env dir st0 (es ! i) (?ts ! i) \<subseteq> all_mk env dir st0 es ?ts"
    "task_ch env dir st0 (es ! i) (?ts ! i) \<subseteq> all_ch env dir st0 es ?ts"
    using i by (auto simp: all_mk_def all_ch_def)
  have oki: "task_ok env dir st0 (es ! i) (?ts ! i)" using ok i len by simp
  have held_i: "in_section (?ts ! i) \<longleftrightarrow> ws_mu s = Some i" using held i by (simp add: mutex_held_def)
  note nd = task_step_not_done [OF t]
  note mus = task_step_section [OF t held_i]
  have "task_ok env dir st0 (es ! i) t
      \<and> world env dir st0 (all_mk env dir st0 es (?ts[i := t])) (all_ch env dir st0 es (?ts[i := t])) st
      \<and> (\<exists>L. section_order env dir st0 es (?ts[i := t]) L \<and> on_log env dir st0 es L s')"
  proof (cases "in_section (?ts ! i)")
    case True
    then have mu: "ws_mu s = Some i" using held_i by simp
    have ph: "phase env dir (es ! i) (log_os env dir st0 (map ((!) es) L)) (?ts ! i) (full env dir st0 (ws_os s))"
      using log mu by (simp add: on_log_def)
    have sw: "task_ok env dir st0 (es ! i) t" "world env dir st0 (all_mk env dir st0 es ?ts) (all_ch env dir st0 es ?ts) st"
      "task_mk env dir st0 (es ! i) t \<subseteq> all_mk env dir st0 es ?ts" "task_ch env dir st0 (es ! i) t \<subseteq> all_ch env dir st0 es ?ts"
      using section_world [OF t oki w sub True ph] by auto
    note st = section_step [OF t oki w sub(2) True ph]
    have "\<exists>L. section_order env dir st0 es (?ts[i := t]) L \<and> on_log env dir st0 es L s'"
    proof (cases "in_section t")
      case True
      then have "on_log env dir st0 es L s'"
        using st mus i by (simp add: on_log_def s')
      moreover have "section_order env dir st0 es (?ts[i := t]) L"
        using section_order_same [OF L i len nd] in_section_not_done [OF True] by blast
      ultimately show ?thesis by blast
    next
      case False
      then have "section_order env dir st0 es (?ts[i := t]) (L @ [i])"
        using section_order_snoc [OF L i len nd, of t] st by (metis (no_types, lifting))
      moreover have "mu = None" using mus False mu by auto
      then have "on_log env dir st0 es (L @ [i]) s'"
        using st False by (simp add: on_log_def s' log_os_snoc)
      ultimately show ?thesis by blast
    qed
    then show ?thesis using sw mk ch by (simp add: Un_absorb2)
  next
    case False
    note st = outside_step [OF t oki w sub False]
    have "section_order env dir st0 es (?ts[i := t]) L"
      using section_order_same [OF L i len nd] st by blast
    moreover have "on_log env dir st0 es L s'"
    proof (cases "in_section t")
      case True
      then have "mu = Some i" "ws_mu s = None" using mus False held_i by auto
      then show ?thesis using st True log i by (simp add: on_log_def s')
    next
      case f2: False
      then have mu: "mu = ws_mu s" "ws_mu s \<noteq> Some i" using mus False held_i by auto
      show ?thesis
      proof (cases "ws_mu s")
        case (Some h)
        then have "(?ts[i := t]) ! h = ?ts ! h" using mu by auto
        then show ?thesis using st log mu Some by (simp add: on_log_def s')
      qed (use st log mu in \<open>simp add: on_log_def s'\<close>)
    qed
    ultimately show ?thesis using st mk ch by auto
  qed
  moreover have "task_ok env dir st0 (es ! j) (?ts[i := t] ! j)" if "j < length es" "task_ok env dir st0 (es ! i) t" for j
    using that ok i by (cases "i = j") simp_all
  ultimately show ?thesis
    using mutex_held_step [OF assms(2) held] len by (auto simp: serial_inv_def s')
qed

lemma world_init: "world env dir st0 {} {} st0"
  by (simp add: world_def made_dirs_def)

lemma serial_inv_init: "serial_inv env dir st0 es (writer_init st0 es)"
proof -
  have "all_mk env dir st0 es (ws_tasks (writer_init st0 es)) = {}"
    "all_ch env dir st0 es (ws_tasks (writer_init st0 es)) = {}"
    by (auto simp: all_mk_def all_ch_def writer_init_def)
  moreover have "section_order env dir st0 es (ws_tasks (writer_init st0 es)) []"
    by (auto simp: section_order_def writer_init_def is_done_def)
  moreover have "on_log env dir st0 es [] (writer_init st0 es)"
    by (simp add: on_log_def writer_init_def log_os_def)
  ultimately show ?thesis
    using writer_init_invs(1) [of st0 es] world_init [of env dir st0]
    unfolding serial_inv_def by (auto simp: writer_init_def)
qed

lemma serial_inv_run:
  "writer_run env dir sch s = Some s' \<Longrightarrow> serial_inv env dir st0 es s \<Longrightarrow> serial_inv env dir st0 es s'"
  by (induction env dir sch s rule: writer_run.induct) (auto split: option.splits dest: serial_inv_step)

section \<open>Properties\<close>

lemma all_done_nth: "ts = map WDone errs \<Longrightarrow> i < length ts \<Longrightarrow> is_done (ts ! i)"
  by (simp add: is_done_def)

lemma all_done_free:
  assumes "mutex_held s" "ws_tasks s = map WDone errs"
  shows "ws_mu s = None"
proof (cases "ws_mu s")
  case (Some h)
  then have "h < length (ws_tasks s)" "in_section (ws_tasks s ! h)" using assms(1) by (auto simp: mutex_held_def)
  then show ?thesis using assms(2) by simp
qed

lemma full_dirs_eq: "full env dir st0 st = full env dir st0 st' \<Longrightarrow> os_dirs st = os_dirs st' \<Longrightarrow> st = st'"
  by (cases st; cases st') (simp add: full_def)

lemma writes_serialise:
  assumes "writer_run env dir sch (writer_init st0 es) = Some s" "task_results (ws_tasks s) = Some errs"
  shows "\<exists>p. mset p = mset [0..<length es]
    \<and> write_results (NDJSONBodyWriter_WriteEntry env OSFileSystem dir) (map ((!) es) p) st0
        = Inr (map ((!) errs) p, ws_os s)"
proof -
  have inv: "serial_inv env dir st0 es s"
    using serial_inv_run [OF assms(1) serial_inv_init] .
  have ts: "ws_tasks s = map WDone errs" using assms(2) by (simp add: task_results_Some)
  have len: "length errs = length es" using inv ts by (simp add: serial_inv_def)
  have w: "world env dir st0 (\<Union>j < length es. mk_dirs env dir st0 (es ! j)) (\<Union>j < length es. ch_dirs env dir st0 (es ! j)) (ws_os s)"
    using inv ts len by (simp add: serial_inv_def all_mk_def all_ch_def)
  have errs: "errs ! i = call_error env dir st0 (es ! i)" if "i < length es" for i
    using inv ts len that by (auto simp: serial_inv_def)
  obtain L where L: "section_order env dir st0 es (ws_tasks s) L" and log: "on_log env dir st0 es L s"
    using inv by (auto simp: serial_inv_def)
  have mu: "ws_mu s = None" using inv ts all_done_free by (auto simp: serial_inv_def)
  define p where "p = L @ filter (\<lambda>i. \<not> admitted env dir st0 (es ! i)) [0..<length es]"
  have "is_done (ws_tasks s ! i)" if "i < length es" for i
    using all_done_nth [OF ts] ts len that by simp
  then have setL: "set L = {i. i < length es \<and> admitted env dir st0 (es ! i)}" and "distinct L"
    using L unfolding section_order_def by blast+
  then have "distinct p" unfolding p_def by (simp add: disjoint_iff)
  have "set p = {0..<length es}" unfolding p_def set_append setL set_filter by auto
  with \<open>distinct p\<close> have perm: "mset p = mset [0..<length es]" by (metis mset_set_set distinct_upt set_upt)
  have adm: "filter (admitted env dir st0) (map ((!) es) p) = map ((!) es) L"
    using setL by (auto simp: p_def filter_map o_def filter_id_conv)
  obtain st' where run: "write_results (NDJSONBodyWriter_WriteEntry env OSFileSystem dir) (map ((!) es) p) st0
        = Inr (map (call_error env dir st0) (map ((!) es) p), st')"
    and w': "world env dir st0 (\<Union>e \<in> set (map ((!) es) p). mk_dirs env dir st0 e)
        (\<Union>e \<in> set (map ((!) es) p). ch_dirs env dir st0 e) st'"
    and f': "full env dir st0 st' = log_os env dir st0 (map ((!) es) L)"
    using write_results_world [OF world_init [of env dir st0], of "[]" "map ((!) es) p"] adm
    by (auto simp: log_os_def)
  have "st' = ws_os s"
  proof (rule full_dirs_eq)
    show "full env dir st0 st' = full env dir st0 (ws_os s)"
      using f' log mu by (simp add: on_log_def)
    show "os_dirs st' = os_dirs (ws_os s)"
      using w w' \<open>set p = _\<close> by (simp add: world_def lessThan_atLeast0)
  qed
  moreover have "map (call_error env dir st0) (map ((!) es) p) = map ((!) errs) p"
    using errs \<open>set p = _\<close> by simp
  ultimately show ?thesis using perm run by auto
qed

lemma writer_run_append:
  "writer_run env dir (sch @ sch') s = (case writer_run env dir sch s of None \<Rightarrow> None | Some s' \<Rightarrow> writer_run env dir sch' s')"
  by (induction env dir sch s rule: writer_run.induct) (auto split: option.split)

lemma is_done_exists: "is_done t \<longleftrightarrow> (\<exists>err. t = WDone err)"
  by (cases t) (simp_all add: is_done_def)

lemma writer_finishes:
  "mutex_held s \<Longrightarrow> lines_left s \<Longrightarrow> \<exists>sch s' errs. writer_run env dir sch s = Some s' \<and> task_results (ws_tasks s') = Some errs"
proof (induction "total_left s" arbitrary: s rule: less_induct)
  case less
  show ?case
  proof (cases "\<forall>t \<in> set (ws_tasks s). is_done t")
    case True
    then have "\<exists>errs. ws_tasks s = map WDone errs"
      by (simp add: is_done_exists ex_map_conv)
    then show ?thesis by (metis task_results_Some writer_run.simps(1))
  next
    case False
    then obtain j n s1 where s1: "writer_step env dir j n s = Some s1"
      using writer_step_enabled [OF less.prems] by (metis in_set_conv_nth not_None_eq)
    then obtain sch s' errs where "writer_run env dir sch s1 = Some s'" "task_results (ws_tasks s') = Some errs"
      using less.hyps [OF writer_step_decreases [OF s1] mutex_held_step [OF s1] lines_left_step [OF s1]] less.prems by blast
    then have "writer_run env dir ((j, n) # sch) s = Some s'" using s1 by simp
    then show ?thesis using \<open>task_results _ = _\<close> by blast
  qed
qed

lemma run_results:
  assumes "writer_run env dir sch (writer_init st0 es) = Some s" "task_results (ws_tasks s) = Some errs"
  shows "errs = map (call_error env dir st0) es"
proof (rule nth_equalityI)
  have inv: "serial_inv env dir st0 es s"
    using serial_inv_run [OF assms(1) serial_inv_init] .
  have ts: "ws_tasks s = map WDone errs" using assms(2) by (simp add: task_results_Some)
  show len: "length errs = length (map (call_error env dir st0) es)" using inv ts by (simp add: serial_inv_def)
  show "errs ! i = map (call_error env dir st0) es ! i" if "i < length errs" for i
    using inv ts len that by (auto simp: serial_inv_def)
qed

lemma write_results_ok:
  "write_results w es st = Inr (errs, st') \<Longrightarrow> list_all (\<lambda>err. err = None) errs \<Longrightarrow> write_entries_ok w es st = Some st'"
proof (induction es arbitrary: st errs)
  case (Cons e es)
  then obtain err s1 errs2 where "w (Some e) st = Inr (err, s1)" "write_results w es s1 = Inr (errs2, st')" "errs = err # errs2"
    by (auto simp: go_bind_def split: sum.splits prod.splits)
  then show ?case using Cons.IH Cons.prems(2) by simp
qed simp

lemma mset_map_filter: "mset xs = mset ys \<Longrightarrow> mset (List.map_filter f xs) = mset (List.map_filter f ys)"
  by (simp add: List.map_filter_def)

lemma mset_domain_lines:
  assumes "mset p = mset [0..<length es]"
  shows "mset (domain_lines env d (map ((!) es) p)) = mset (domain_lines env d es)"
proof -
  have "mset (map ((!) es) p) = mset (map ((!) es) [0..<length es])"
    using assms by (simp only: mset_map)
  then show ?thesis unfolding domain_lines_def by (intro mset_map_filter) (simp only: map_nth)
qed

definition two_entries :: "captured_entry list" where
  "two_entries = [demo_json_entry ''1'' ''h'' ''[1]'', demo_json_entry ''2'' ''h'' ''[2]'']"

lemma two_entries_finish:
  "\<exists>sch s errs. writer_run demo_env ''/out'' sch (writer_init demo_os two_entries) = Some s
     \<and> task_results (ws_tasks s) = Some errs"
  using writer_finishes [OF writer_init_invs] by blast

text \<open>
  \<^bold>\<open>C7\<close>. Calls of \<^verbatim>\<open>NDJSONBodyWriter.WriteEntry\<close> are serialisable: however the system calls of
  several goroutines interleave and however the writes are cut into pieces, also when the
  system refuses some of them, once all calls have returned the file system (contents,
  modes, directories, handles) and what each call returned are those of the same calls made
  one after the other in some order.
\<close>

theorem concurrent_writes_serializable:
  assumes "writer_run env dir sch (writer_init st0 es) = Some s" "task_results (ws_tasks s) = Some errs"
  shows "\<exists>p. mset p = mset [0..<length es]
    \<and> write_results (NDJSONBodyWriter_WriteEntry env OSFileSystem dir) (map ((!) es) p) st0
        = Inr (map ((!) errs) p, ws_os s)"
  using writes_serialise [OF assms] .

theorem concurrent_writes_serializable_witness:
  "\<exists>sch s errs p. writer_run demo_env ''/out'' sch (writer_init demo_os two_entries) = Some s
     \<and> mset p = mset [0..<length two_entries]
     \<and> write_results (NDJSONBodyWriter_WriteEntry demo_env OSFileSystem ''/out'') (map ((!) two_entries) p) demo_os
        = Inr (map ((!) errs) p, ws_os s)"
proof -
  obtain sch s errs where "writer_run demo_env ''/out'' sch (writer_init demo_os two_entries) = Some s"
    "task_results (ws_tasks s) = Some errs"
    using two_entries_finish by blast
  with concurrent_writes_serializable [OF this] show ?thesis by blast
qed

text \<open>
  \<^bold>\<open>C12\<close>. No schedule blocks: the steps of any schedule are bounded by the lengths of the lines, and as
  long as a call has not returned some call has a step, so that every schedule can be
  continued until all calls have returned.
\<close>

theorem concurrent_writes_return:
  assumes "writer_run env dir sch (writer_init st0 es) = Some s"
  shows "length sch \<le> sum_list (map (\<lambda>e. length (entry_line e) + 7) es)
    \<and> (\<exists>sch' s' errs. writer_run env dir (sch @ sch') (writer_init st0 es) = Some s' \<and> task_results (ws_tasks s') = Some errs)"
proof -
  have "total_left (writer_init st0 es) \<le> sum_list (map (\<lambda>e. length (entry_line e) + 7) es)"
    by (auto simp: total_left_def writer_init_def entry_line_def o_def intro!: sum_list_mono split: option.split)
  then have "length sch \<le> sum_list (map (\<lambda>e. length (entry_line e) + 7) es)"
    using writer_run_length [OF assms] by simp
  moreover obtain sch' s' errs where "writer_run env dir sch' s = Some s'" "task_results (ws_tasks s') = Some errs"
    using writer_finishes [of s env dir] writer_run_invs [OF assms writer_init_invs] by blast
  ultimately show ?thesis using assms by (auto simp: writer_run_append)
qed


theorem concurrent_writes_return_witness:
  "\<exists>sch' s' errs. writer_run demo_env ''/out'' ([(1, 1), (0, 1)] @ sch') (writer_init demo_os two_entries) = Some s'
     \<and> task_results (ws_tasks s') = Some errs"
proof -
  have "json_Compact ''[1]'' = Some ''[1]''" "json_Compact ''[2]'' = Some ''[2]''" by code_simp+
  then have "\<exists>s. writer_run demo_env ''/out'' [(1, 1), (0, 1)] (writer_init demo_os two_entries) = Some s"
    by (simp add: writer_init_def two_entries_def writer_step_def compactJSON_Some demo_json_entry_def)
  then show ?thesis using concurrent_writes_return by blast
qed

text \<open>
  \<^bold>\<open>C32\<close>. No line is torn or lost: when no call reported an error and the file did not exist before,
  the JSONL file of a domain, split at newlines, consists of exactly the compact bodies
  of the entries for that domain, each whole on a line of its own, in some order, whatever the
  schedule was.
\<close>

theorem concurrent_lines_whole:
  assumes "writer_run env dir sch (writer_init st0 es) = Some s" "task_results (ws_tasks s) = Some errs"
    and "list_all (\<lambda>err. err = None) errs"
    and "os_files st0 (is_rooted dir, path_segments dir @ [d, ''responses.jsonl'']) = None"
  shows "\<exists>lines. mset lines = mset (domain_lines env d es)
    \<and> split_byte (CHR 0x0A) (case os_files (ws_os s) (is_rooted dir, path_segments dir @ [d, ''responses.jsonl''])
         of None \<Rightarrow> [] | Some c \<Rightarrow> c) = lines @ [[]]"
proof -
  obtain p where p: "mset p = mset [0..<length es]"
    and run: "write_results (NDJSONBodyWriter_WriteEntry env OSFileSystem dir) (map ((!) es) p) st0
        = Inr (map ((!) errs) p, ws_os s)"
    using writes_serialise [OF assms(1,2)] by blast
  have "i < length errs" if "i \<in> set p" for i
    using that mset_eq_setD [OF p] run_results [OF assms(1,2)] by auto
  then have "list_all (\<lambda>err. err = None) (map ((!) errs) p)"
    using assms(3) by (auto simp: list_all_length list_all_iff)
  then have "write_entries_ok (NDJSONBodyWriter_WriteEntry env OSFileSystem dir) (map ((!) es) p) st0 = Some (ws_os s)"
    using write_results_ok [OF run] by blast
  then have "split_byte (CHR 0x0A) (case os_files (ws_os s) (is_rooted dir, path_segments dir @ [d, ''responses.jsonl''])
         of None \<Rightarrow> [] | Some c \<Rightarrow> c) = domain_lines env d (map ((!) es) p) @ [[]]"
    using ndjson_content [of env dir _ st0 _ d] assms(4)
      split_lines [of "domain_lines env d (map ((!) es) p)" "CHR 0x0A"] domain_lines_one_line [of _ env d "map ((!) es) p"]
    by simp
  then show ?thesis using mset_domain_lines [OF p, of env d] by blast
qed

theorem concurrent_lines_whole_witness:
  "\<exists>sch s lines. writer_run demo_env ''/out'' sch (writer_init demo_os two_entries) = Some s
     \<and> mset lines = mset (domain_lines demo_env ''h'' two_entries)
     \<and> split_byte (CHR 0x0A) (case os_files (ws_os s) (is_rooted ''/out'', path_segments ''/out'' @ [''h'', ''responses.jsonl''])
         of None \<Rightarrow> [] | Some c \<Rightarrow> c) = lines @ [[]]"
proof -
  obtain sch s errs where run: "writer_run demo_env ''/out'' sch (writer_init demo_os two_entries) = Some s"
    and errs: "task_results (ws_tasks s) = Some errs"
    using two_entries_finish by blast
  have "call_error demo_env ''/out'' demo_os e = None" for e
    by (simp add: call_error_def demo_os_def os_MkdirAll_def list_ex_iff append_error_def dir_exists_def ndjson_key_def Let_def)
  then have "list_all (\<lambda>err. err = None) errs" using run_results [OF run errs] by (simp add: list_all_iff)
  moreover have "os_files demo_os (is_rooted ''/out'', path_segments ''/out'' @ [''h'', ''responses.jsonl'']) = None"
    by (simp add: demo_os_def)
  ultimately show ?thesis using concurrent_lines_whole [OF run errs, of "''h''"] run by blast
qed

end
