(* ===== verification/Ring_Store.thy ===== *)
theory Ring_Store
  imports Capture_Recorder
begin

text \<open>
  \<^verbatim>\<open>internal/capture/store.go\<close>: the bounded in-memory store. \<open>ring_buffer\<close> is the struct
  \<^verbatim>\<open>RingBuffer\<close>; its channels live in a heap of channels, since a subscriber holds a
  channel that outlives its entry in \<^verbatim>\<open>subscribers\<close>. Each operation is modelled as
  executed under its lock; \<^verbatim>\<open>Push\<close> is split where the code releases the lock
  (\<open>push_locked\<close>, then \<open>notifySubscribers\<close>), so that the interleavings of the theory
  \<open>Store_Concurrency\<close> can be stated. The interface \<^verbatim>\<open>Store\<close> is the locale \<open>entry_store\<close>.
\<close>

section \<open>State\<close>

type_synonym chan_id = nat

record chan =
  ch_queue :: "captured_entry list"
  ch_closed :: bool

type_synonym chan_heap = "chan_id \<rightharpoonup> chan"

text \<open>Capacity of a subscriber channel (\<^verbatim>\<open>make(chan *CapturedEntry, 100)\<close>).\<close>

definition chan_cap :: nat where
  "chan_cap = 100"

record ring_buffer =
  rb_buffer :: "captured_entry option list"
  rb_head :: nat
  rb_tail :: nat
  rb_count :: nat
  rb_capacity :: nat
  rb_idIndex :: "entry_id \<rightharpoonup> nat"
  rb_startTime :: go_time
  rb_evictions :: int64
  rb_bytesCaptured :: int64
  rb_subscribers :: "chan_id list"

record store_stats =
  ss_Count :: nat
  ss_Capacity :: nat
  ss_Evictions :: int64
  ss_BytesCaptured :: int64
  ss_StartTime :: go_time

text \<open>The ring that a successful \<^verbatim>\<open>NewRingBuffer\<close> returns.\<close>

definition empty_ring :: "int \<Rightarrow> go_time \<Rightarrow> ring_buffer" where
  "empty_ring capacity now =
     (let c = (if capacity \<le> 0 then 10000 else nat capacity) in
      \<lparr> rb_buffer = replicate c None, rb_head = 0, rb_tail = 0, rb_count = 0, rb_capacity = c,
        rb_idIndex = Map.empty, rb_startTime = now, rb_evictions = 0, rb_bytesCaptured = 0,
        rb_subscribers = [] \<rparr>)"

text \<open>
  \<^verbatim>\<open>NewRingBuffer\<close>: on a 64-bit platform \<^verbatim>\<open>make\<close> panics if the slots (one pointer of eight bytes
  each) exceed the address space of the heap, \<open>2 ^ 48\<close> bytes. Running out of memory below that
  bound kills the process and is not modelled.
\<close>

definition NewRingBuffer :: "int \<Rightarrow> go_time \<Rightarrow> ring_buffer go" where
  "NewRingBuffer capacity now =
     (let c = (if capacity \<le> 0 then 10000 else capacity) in
      if 2 ^ 48 < 8 * c then Inl MakeSliceLen else Inr (empty_ring capacity now))"

lemma NewRingBuffer_cases:
  "NewRingBuffer capacity now = (if capacity \<le> 2 ^ 45 then Inr (empty_ring capacity now) else Inl MakeSliceLen)"
  by (simp add: NewRingBuffer_def Let_def)

section \<open>Insertion\<close>

text \<open>
  \<^verbatim>\<open>finalizeEntry\<close>: a missing identifier is generated (clock reading \<open>now1\<close>), a missing
  time stamp is filled in (\<open>now2\<close>).
\<close>

definition finalizeEntry ::
  "std_env \<Rightarrow> go_time \<Rightarrow> go_time \<Rightarrow> int64 \<Rightarrow> captured_entry \<Rightarrow> captured_entry \<times> int64" where
  "finalizeEntry env now1 now2 c entry =
     (let (entry1, c1) =
        (if ce_ID entry = [] then
           (case NewEntryID env now1 c of (i, c') \<Rightarrow> (entry\<lparr>ce_ID := i\<rparr>, c'))
         else (entry, c))
      in (if is_zero_time (ce_Timestamp entry1) then entry1\<lparr>ce_Timestamp := now2\<rparr> else entry1, c1))"

definition evictOldest :: "ring_buffer \<Rightarrow> ring_buffer go" where
  "evictOldest rb =
     go_bind (go_index (rb_buffer rb) (rb_head rb)) (\<lambda>p.
     go_bind (go_deref p) (\<lambda>oldest.
     go_bind (go_update (rb_buffer rb) (rb_head rb) None) (\<lambda>buf.
     Inr (rb\<lparr> rb_idIndex := (rb_idIndex rb)(ce_ID oldest := None),
              rb_buffer := buf,
              rb_head := (rb_head rb + 1) mod rb_capacity rb,
              rb_count := rb_count rb - 1,
              rb_evictions := rb_evictions rb + 1 \<rparr>))))"

definition body_bytes :: "string option \<Rightarrow> int64" where
  "body_bytes b = (case b of None \<Rightarrow> 0 | Some s \<Rightarrow> of_nat (length s))"

definition entryBytes :: "captured_entry \<Rightarrow> int64" where
  "entryBytes e = body_bytes (ce_RequestBody e) + body_bytes (ce_ResponseBody e)"

text \<open>The part of \<^verbatim>\<open>Push\<close> that runs under the lock; it returns the snapshot of the subscribers too.\<close>

definition push_locked ::
  "std_env \<Rightarrow> go_time \<Rightarrow> go_time \<Rightarrow> int64 \<Rightarrow> ring_buffer \<Rightarrow> captured_entry
     \<Rightarrow> (ring_buffer \<times> captured_entry \<times> int64 \<times> chan_id list) go" where
  "push_locked env now1 now2 c rb entry0 =
     (case finalizeEntry env now1 now2 c entry0 of (entry, c') \<Rightarrow>
        go_bind (if rb_count rb = rb_capacity rb then evictOldest rb else Inr rb) (\<lambda>rb1.
        go_bind (go_update (rb_buffer rb1) (rb_tail rb1) (Some entry)) (\<lambda>buf.
        Inr (rb1\<lparr> rb_bytesCaptured := rb_bytesCaptured rb1 + entryBytes entry,
                  rb_buffer := buf,
                  rb_idIndex := (rb_idIndex rb1)(ce_ID entry \<mapsto> rb_tail rb1),
                  rb_tail := (rb_tail rb1 + 1) mod rb_capacity rb1,
                  rb_count := rb_count rb1 + 1 \<rparr>, entry, c', rb_subscribers rb1))))"

text \<open>
  A \<^verbatim>\<open>select\<close> with one send and a default: a full (or nil) channel is skipped, a closed one
  panics.
\<close>

definition try_send :: "chan_heap \<Rightarrow> chan_id \<Rightarrow> captured_entry \<Rightarrow> chan_heap go" where
  "try_send chs sub e =
     (case chs sub of
        None \<Rightarrow> Inr chs
      | Some ch \<Rightarrow>
          (if ch_closed ch then Inl SendOnClosed
           else if length (ch_queue ch) < chan_cap
           then Inr (chs(sub \<mapsto> ch\<lparr>ch_queue := ch_queue ch @ [e]\<rparr>))
           else Inr chs))"

fun notifySubscribers :: "chan_heap \<Rightarrow> chan_id list \<Rightarrow> captured_entry \<Rightarrow> chan_heap go" where
  "notifySubscribers chs [] e = Inr chs"
| "notifySubscribers chs (sub # subs) e =
     go_bind (try_send chs sub e) (\<lambda>chs'. notifySubscribers chs' subs e)"

text \<open>The store: the ring, the channels and the next fresh channel.\<close>

record store =
  st_ring :: ring_buffer
  st_chans :: chan_heap
  st_next :: chan_id

definition Push ::
  "std_env \<Rightarrow> go_time \<Rightarrow> go_time \<Rightarrow> int64 \<Rightarrow> store \<Rightarrow> captured_entry
     \<Rightarrow> (store \<times> captured_entry \<times> int64) go" where
  "Push env now1 now2 c st entry0 =
     go_bind (push_locked env now1 now2 c (st_ring st) entry0) (\<lambda>(rb, entry, c', subs).
     go_bind (notifySubscribers (st_chans st) subs entry) (\<lambda>chs.
     Inr (st\<lparr>st_ring := rb, st_chans := chs\<rparr>, entry, c')))"

section \<open>Queries\<close>

definition Get :: "ring_buffer \<Rightarrow> entry_id \<Rightarrow> captured_entry option go" where
  "Get rb i =
     (case rb_idIndex rb i of None \<Rightarrow> Inr None | Some idx \<Rightarrow> go_index (rb_buffer rb) idx)"

record list_opts =
  lo_Since :: go_time
  lo_Method :: string
  lo_Status :: int
  lo_URL :: string
  lo_Limit :: int
  lo_Offset :: int

definition sinceExcludes :: "list_opts \<Rightarrow> captured_entry \<Rightarrow> bool" where
  "sinceExcludes opts e \<longleftrightarrow> \<not> is_zero_time (lo_Since opts) \<and> ce_Timestamp e < lo_Since opts"

definition methodExcludes :: "list_opts \<Rightarrow> captured_entry \<Rightarrow> bool" where
  "methodExcludes opts e \<longleftrightarrow> lo_Method opts \<noteq> [] \<and> ce_Method e \<noteq> lo_Method opts"

definition statusExcludes :: "list_opts \<Rightarrow> captured_entry \<Rightarrow> bool" where
  "statusExcludes opts e \<longleftrightarrow> 0 < lo_Status opts \<and> ce_StatusCode e \<noteq> lo_Status opts"

definition urlExcludes :: "list_opts \<Rightarrow> captured_entry \<Rightarrow> bool" where
  "urlExcludes opts e \<longleftrightarrow> lo_URL opts \<noteq> [] \<and> ce_URL e \<noteq> lo_URL opts"

definition sinceOrMethodExcludes :: "list_opts \<Rightarrow> captured_entry \<Rightarrow> bool" where
  "sinceOrMethodExcludes opts e \<longleftrightarrow> sinceExcludes opts e \<or> methodExcludes opts e"

definition statusOrURLExcludes :: "list_opts \<Rightarrow> captured_entry \<Rightarrow> bool" where
  "statusOrURLExcludes opts e \<longleftrightarrow> statusExcludes opts e \<or> urlExcludes opts e"

definition Matches :: "list_opts \<Rightarrow> captured_entry \<Rightarrow> bool" where
  "Matches opts e \<longleftrightarrow> \<not> sinceOrMethodExcludes opts e \<and> \<not> statusOrURLExcludes opts e"

definition keep :: "ring_buffer \<Rightarrow> nat \<Rightarrow> list_opts \<Rightarrow> bool go" where
  "keep rb idx opts =
     go_bind (go_index (rb_buffer rb) idx) (\<lambda>entry.
     Inr (case entry of None \<Rightarrow> False | Some e \<Rightarrow> Matches opts e))"

text \<open>
  The loop of \<^verbatim>\<open>scan\<close>: \<open>n\<close> iterations remain, the first of them at index \<open>i\<close>. The
  entries kept are pointers that \<^verbatim>\<open>keep\<close> has found to be non-nil.
\<close>

fun scan_loop :: "ring_buffer \<Rightarrow> list_opts \<Rightarrow> nat \<Rightarrow> nat \<Rightarrow> captured_entry list go" where
  "scan_loop rb opts i 0 = Inr []"
| "scan_loop rb opts i (Suc n) =
     (let idx = (rb_head rb + i) mod rb_capacity rb in
      go_bind (keep rb idx opts) (\<lambda>k.
      go_bind (scan_loop rb opts (Suc i) n) (\<lambda>rest.
      if k then go_bind (go_index (rb_buffer rb) idx) (\<lambda>p.
                go_bind (go_deref p) (\<lambda>e. Inr (e # rest)))
      else Inr rest)))"

definition scan :: "ring_buffer \<Rightarrow> list_opts \<Rightarrow> captured_entry list go" where
  "scan rb opts = scan_loop rb opts 0 (rb_capacity rb)"

definition capResult :: "captured_entry list \<Rightarrow> int \<Rightarrow> captured_entry list" where
  "capResult result limit =
     (if 0 < limit \<and> limit < int (length result) then take (nat limit) result else result)"

text \<open>\<open>None\<close> is the nil slice, which \<^verbatim>\<open>paginate\<close> returns for an offset past the end.\<close>

definition paginate :: "captured_entry list \<Rightarrow> list_opts \<Rightarrow> captured_entry list option" where
  "paginate result opts =
     (if 0 < lo_Offset opts then
        (if int (length result) \<le> lo_Offset opts then None
         else Some (capResult (drop (nat (lo_Offset opts)) result) (lo_Limit opts)))
      else Some (capResult result (lo_Limit opts)))"

definition List_entries :: "ring_buffer \<Rightarrow> list_opts \<Rightarrow> captured_entry list option go" where
  "List_entries rb opts =
     (if rb_count rb = 0 then Inr None
      else go_bind (scan rb opts) (\<lambda>result. Inr (paginate result opts)))"

definition Len :: "ring_buffer \<Rightarrow> nat" where
  "Len rb = rb_count rb"

definition Stats :: "ring_buffer \<Rightarrow> store_stats" where
  "Stats rb = \<lparr> ss_Count = rb_count rb, ss_Capacity = rb_capacity rb,
     ss_Evictions = rb_evictions rb, ss_BytesCaptured = rb_bytesCaptured rb,
     ss_StartTime = rb_startTime rb \<rparr>"

section \<open>Clearing and subscribing\<close>

definition Clear :: "ring_buffer \<Rightarrow> ring_buffer" where
  "Clear rb = rb\<lparr> rb_buffer := replicate (rb_capacity rb) None, rb_head := 0, rb_tail := 0,
     rb_count := 0, rb_idIndex := Map.empty \<rparr>"

definition Subscribe :: "store \<Rightarrow> chan_id \<times> store" where
  "Subscribe st =
     (let ch = st_next st in
      (ch, st\<lparr> st_ring := (st_ring st)\<lparr>rb_subscribers := rb_subscribers (st_ring st) @ [ch]\<rparr>,
               st_chans := (st_chans st)(ch \<mapsto> \<lparr> ch_queue = [], ch_closed = False \<rparr>),
               st_next := Suc ch \<rparr>))"

definition close_chan :: "chan_heap \<Rightarrow> chan_id \<Rightarrow> chan_heap go" where
  "close_chan chs c =
     (case chs c of
        None \<Rightarrow> Inl NilDereference
      | Some ch \<Rightarrow> if ch_closed ch then Inl CloseOfClosed
                   else Inr (chs(c \<mapsto> ch\<lparr>ch_closed := True\<rparr>)))"

text \<open>Only the first occurrence is removed; an unknown channel is ignored.\<close>

definition Unsubscribe :: "store \<Rightarrow> chan_id \<Rightarrow> store go" where
  "Unsubscribe st ch =
     (if ch \<in> set (rb_subscribers (st_ring st)) then
        go_bind (close_chan (st_chans st) ch) (\<lambda>chs.
        Inr (st\<lparr> st_ring := (st_ring st)\<lparr>rb_subscribers := remove1 ch (rb_subscribers (st_ring st))\<rparr>,
                 st_chans := chs \<rparr>))
      else Inr st)"

section \<open>The ring as a list\<close>

text \<open>
  \<open>slot rb i\<close> is the \<open>i\<close>-th slot counted from the head. The abstraction \<open>entries\<close> lists
  the live slots, oldest first.
\<close>

definition slot :: "ring_buffer \<Rightarrow> nat \<Rightarrow> captured_entry option" where
  "slot rb i = rb_buffer rb ! ((rb_head rb + i) mod rb_capacity rb)"

definition entries :: "ring_buffer \<Rightarrow> captured_entry list" where
  "entries rb = map (\<lambda>i. the (slot rb i)) [0..<rb_count rb]"

definition ring_shape :: "ring_buffer \<Rightarrow> bool" where
  "ring_shape rb \<longleftrightarrow> 0 < rb_capacity rb \<and> length (rb_buffer rb) = rb_capacity rb
     \<and> rb_head rb < rb_capacity rb \<and> rb_count rb \<le> rb_capacity rb
     \<and> rb_tail rb = (rb_head rb + rb_count rb) mod rb_capacity rb"

definition ring_live :: "ring_buffer \<Rightarrow> bool" where
  "ring_live rb \<longleftrightarrow> (\<forall>i < rb_capacity rb. (slot rb i = None) = (rb_count rb \<le> i))"

text \<open>Every index entry points at a live slot that holds an entry with that identifier.\<close>

definition index_sound :: "ring_buffer \<Rightarrow> bool" where
  "index_sound rb \<longleftrightarrow> (\<forall>i j. rb_idIndex rb i = Some j \<longrightarrow>
     j < rb_capacity rb \<and> (\<exists>e. rb_buffer rb ! j = Some e \<and> ce_ID e = i))"

text \<open>Every entry is indexed; with \<open>index_sound\<close> this makes the identifiers distinct.\<close>

definition index_complete :: "ring_buffer \<Rightarrow> bool" where
  "index_complete rb \<longleftrightarrow> (\<forall>j e. j < rb_capacity rb \<longrightarrow> rb_buffer rb ! j = Some e
     \<longrightarrow> rb_idIndex rb (ce_ID e) = Some j)"

definition ring_ok :: "ring_buffer \<Rightarrow> bool" where
  "ring_ok rb \<longleftrightarrow> ring_shape rb \<and> ring_live rb \<and> index_sound rb"

lemma add_mod_inj:
  fixes h i j c :: nat
  assumes "i < c" "j < c"
  shows "(h + i) mod c = (h + j) mod c \<longleftrightarrow> i = j"
proof
  assume "(h + i) mod c = (h + j) mod c"
  then obtain p q where "h + i + c * p = h + j + c * q"
    using nat_mod_eq_iff by blast
  then have "(i + c * p) mod c = (j + c * q) mod c" by simp
  then show "i = j" using assms by simp
qed simp

lemma slot_index:
  assumes "ring_shape rb" "j < rb_capacity rb"
  obtains i where "i < rb_capacity rb" "(rb_head rb + i) mod rb_capacity rb = j"
proof
  let ?c = "rb_capacity rb" and ?h = "rb_head rb"
  show "(j + (?c - ?h)) mod ?c < ?c"
    using assms by simp
  have "(?h + (j + (?c - ?h)) mod ?c) mod ?c = (j + ?c) mod ?c"
    using assms by (simp add: mod_add_right_eq ring_shape_def)
  then show "(?h + (j + (?c - ?h)) mod ?c) mod ?c = j"
    using assms by simp
qed

lemma slot_update:
  assumes "ring_shape rb" "i < rb_capacity rb" "k < rb_capacity rb"
  shows "(rb_buffer rb)[(rb_head rb + k) mod rb_capacity rb := x]
           ! ((rb_head rb + i) mod rb_capacity rb) = (if i = k then x else slot rb i)"
  using assms by (simp add: ring_shape_def slot_def nth_list_update add_mod_inj)

lemma slot_live: "ring_live rb \<Longrightarrow> i < rb_count rb \<Longrightarrow> i < rb_capacity rb \<Longrightarrow> \<exists>e. slot rb i = Some e"
  by (auto simp: ring_live_def)

lemma length_entries [simp]: "length (entries rb) = rb_count rb"
  by (simp add: entries_def)

lemma nth_entries: "i < rb_count rb \<Longrightarrow> entries rb ! i = the (slot rb i)"
  by (simp add: entries_def)

lemma slot_entries:
  assumes "ring_ok rb" "i < rb_capacity rb"
  shows "slot rb i = (if i < rb_count rb then Some (entries rb ! i) else None)"
  using assms by (auto simp: ring_ok_def ring_live_def nth_entries)

text \<open>Membership in the list and in the array agree.\<close>

lemma set_entries:
  assumes "ring_ok rb"
  shows "e \<in> set (entries rb) \<longleftrightarrow> (\<exists>j < rb_capacity rb. rb_buffer rb ! j = Some e)"
proof
  assume "e \<in> set (entries rb)"
  then obtain i where i: "i < rb_count rb" "entries rb ! i = e"
    by (auto simp: in_set_conv_nth)
  moreover have "rb_count rb \<le> rb_capacity rb" "0 < rb_capacity rb"
    using assms by (simp_all add: ring_ok_def ring_shape_def)
  ultimately show "\<exists>j < rb_capacity rb. rb_buffer rb ! j = Some e"
    using slot_entries [OF assms, of i] unfolding slot_def
    by (metis le_trans mod_less_divisor not_le)
next
  assume "\<exists>j < rb_capacity rb. rb_buffer rb ! j = Some e"
  then obtain j where j: "j < rb_capacity rb" "rb_buffer rb ! j = Some e" by blast
  obtain i where "i < rb_capacity rb" "(rb_head rb + i) mod rb_capacity rb = j"
    using assms j by (meson ring_ok_def slot_index)
  then show "e \<in> set (entries rb)"
    using slot_entries [OF assms, of i] j by (auto simp: slot_def split: if_splits)
qed

subsection \<open>Construction and clearing\<close>

lemma ring_ok_New: "ring_ok (empty_ring capacity now)"
  by (auto simp: ring_ok_def ring_shape_def ring_live_def index_sound_def slot_def
      empty_ring_def Let_def)

lemma entries_New [simp]: "entries (empty_ring capacity now) = []"
  by (simp add: entries_def empty_ring_def Let_def)

lemma ring_ok_Clear: "ring_ok rb \<Longrightarrow> ring_ok (Clear rb)"
  by (auto simp: ring_ok_def ring_shape_def ring_live_def index_sound_def slot_def Clear_def)

lemma capacity_Clear [simp]: "rb_capacity (Clear rb) = rb_capacity rb" "rb_count (Clear rb) = 0"
  by (simp_all add: Clear_def)

lemma entries_Clear [simp]: "entries (Clear rb) = []"
  by (simp add: entries_def Clear_def)

subsection \<open>Eviction\<close>

lemma evictOldest_ok:
  assumes ok: "ring_ok rb" and n: "0 < rb_count rb"
  obtains rb' where "evictOldest rb = Inr rb'" "ring_ok rb'" "entries rb' = tl (entries rb)"
    "rb_capacity rb' = rb_capacity rb" "rb_tail rb' = rb_tail rb"
    "rb_evictions rb' = rb_evictions rb + 1" "rb_bytesCaptured rb' = rb_bytesCaptured rb"
    "rb_subscribers rb' = rb_subscribers rb" "rb_startTime rb' = rb_startTime rb"
    "rb_idIndex rb' = (rb_idIndex rb)(ce_ID (hd (entries rb)) := None)"
    "rb_buffer rb' = (rb_buffer rb)[rb_head rb := None]"
proof -
  let ?c = "rb_capacity rb" and ?h = "rb_head rb"
  let ?rb' = "rb\<lparr> rb_idIndex := (rb_idIndex rb)(ce_ID (hd (entries rb)) := None),
     rb_buffer := (rb_buffer rb)[?h := None], rb_head := (?h + 1) mod ?c,
     rb_count := rb_count rb - 1, rb_evictions := rb_evictions rb + 1 \<rparr>"
  have sh: "0 < ?c" "length (rb_buffer rb) = ?c" "?h < ?c" "rb_count rb \<le> ?c"
    "rb_tail rb = (?h + rb_count rb) mod ?c"
    using ok by (simp_all add: ring_ok_def ring_shape_def)
  have slot': "slot ?rb' i = (if Suc i < ?c then slot rb (Suc i) else None)" if "i < ?c" for i
  proof -
    have eq: "((?h + 1) mod ?c + i) mod ?c = (?h + Suc i) mod ?c"
      by (simp add: mod_add_left_eq)
    show ?thesis
    proof (cases "Suc i < ?c")
      case True
      then show ?thesis
        using eq sh ok slot_update [of rb "Suc i" 0 None] by (simp add: slot_def ring_ok_def)
    next
      case False
      then have "?h + Suc i = ?h + ?c" using that by simp
      then have "(?h + Suc i) mod ?c = ?h" using sh by (metis mod_add_self2 mod_less)
      then show ?thesis
        using eq sh False by (simp add: slot_def)
    qed
  qed
  have ne: "entries rb \<noteq> []"
    using n length_entries [of rb] by (metis length_0_conv less_irrefl)
  have head: "rb_buffer rb ! ?h = Some (hd (entries rb))"
    using slot_entries [OF ok, of 0] n sh hd_conv_nth [OF ne] by (simp add: slot_def)
  have "evictOldest rb = Inr ?rb'"
    using sh head by (simp add: evictOldest_def)
  moreover have "entries ?rb' = tl (entries rb)"
    using slot' sh n by (intro nth_equalityI) (auto simp: nth_entries nth_tl)
  moreover have "ring_live ?rb'"
    using ok slot' n sh(4) by (auto simp: ring_ok_def ring_live_def)
  moreover have "ring_shape ?rb'"
    using sh n mod_add_left_eq [of "?h + 1" ?c "rb_count rb - 1"] by (simp add: ring_shape_def)
  moreover have "index_sound ?rb'"
    using ok head sh(2,3) unfolding ring_ok_def index_sound_def
    by simp (metis nth_list_update_neq option.inject)
  ultimately show ?thesis
    using that [of ?rb'] by (simp add: ring_ok_def)
qed

subsection \<open>Insertion\<close>

text \<open>Writing the tail slot of a ring that is not full appends to the list.\<close>

definition ring_insert :: "ring_buffer \<Rightarrow> captured_entry \<Rightarrow> ring_buffer" where
  "ring_insert rb e = rb\<lparr> rb_bytesCaptured := rb_bytesCaptured rb + entryBytes e,
     rb_buffer := (rb_buffer rb)[rb_tail rb := Some e],
     rb_idIndex := (rb_idIndex rb)(ce_ID e \<mapsto> rb_tail rb),
     rb_tail := (rb_tail rb + 1) mod rb_capacity rb, rb_count := rb_count rb + 1 \<rparr>"

lemma ring_insert_ok:
  assumes ok: "ring_ok rb" and room: "rb_count rb < rb_capacity rb"
  shows "ring_ok (ring_insert rb e)" and "entries (ring_insert rb e) = entries rb @ [e]"
proof -
  let ?c = "rb_capacity rb" and ?rb' = "ring_insert rb e"
  have sh: "ring_shape rb" "rb_tail rb = (rb_head rb + rb_count rb) mod ?c" "rb_tail rb < ?c"
    using ok by (auto simp: ring_ok_def ring_shape_def)
  have slot': "slot ?rb' i = (if i = rb_count rb then Some e else slot rb i)" if "i < ?c" for i
    using slot_update [OF sh(1) that room, of "Some e"] sh(2)
    by (simp add: slot_def ring_insert_def)
  have free: "rb_buffer rb ! rb_tail rb = None"
    using slot_entries [OF ok room] sh(2) by (simp add: slot_def)
  show "entries ?rb' = entries rb @ [e]"
    using slot' room
    by (intro nth_equalityI) (auto simp: nth_entries nth_append ring_insert_def less_Suc_eq)
  have "ring_shape ?rb'"
    using sh room by (simp add: ring_shape_def ring_insert_def mod_Suc_eq)
  moreover have "ring_live ?rb'"
    using ok slot' by (auto simp: ring_ok_def ring_live_def ring_insert_def)
  moreover have "index_sound ?rb'"
    using ok free sh unfolding ring_ok_def index_sound_def ring_insert_def ring_shape_def
    by (auto simp: nth_list_update) (metis option.distinct(1))
  ultimately show "ring_ok ?rb'" by (simp add: ring_ok_def)
qed

text \<open>What \<^verbatim>\<open>Push\<close> does to the list: at capacity the oldest entry makes room for the new one.\<close>

definition spec_push :: "nat \<Rightarrow> captured_entry list \<Rightarrow> captured_entry \<Rightarrow> captured_entry list" where
  "spec_push cap xs e = (if length xs = cap then tl xs else xs) @ [e]"

lemma push_locked_ok:
  assumes ok: "ring_ok rb" and fin: "finalizeEntry env n1 n2 c e0 = (e, c')"
  obtains rb' where "push_locked env n1 n2 c rb e0 = Inr (rb', e, c', rb_subscribers rb)"
    "ring_ok rb'" "entries rb' = spec_push (rb_capacity rb) (entries rb) e"
    "rb_capacity rb' = rb_capacity rb" "rb_subscribers rb' = rb_subscribers rb"
    "rb_startTime rb' = rb_startTime rb"
    "rb_bytesCaptured rb' = rb_bytesCaptured rb + entryBytes e"
    "rb_evictions rb' = rb_evictions rb + (if rb_count rb = rb_capacity rb then 1 else 0)"
proof (cases "rb_count rb = rb_capacity rb")
  case True
  then have "0 < rb_count rb" using ok by (simp add: ring_ok_def ring_shape_def)
  from evictOldest_ok [OF ok this] obtain rb1 where r: "evictOldest rb = Inr rb1" "ring_ok rb1"
    "entries rb1 = tl (entries rb)" "rb_capacity rb1 = rb_capacity rb"
    "rb_evictions rb1 = rb_evictions rb + 1" "rb_bytesCaptured rb1 = rb_bytesCaptured rb"
    "rb_subscribers rb1 = rb_subscribers rb" "rb_startTime rb1 = rb_startTime rb"
    by metis
  have "rb_count rb1 < rb_capacity rb1"
    using r(3,4) True \<open>0 < rb_count rb\<close> by (metis length_entries length_tl diff_less zero_less_one)
  from ring_insert_ok [OF r(2) this, of e] show ?thesis
    using that [of "ring_insert rb1 e"] True r fin
    by (auto simp: push_locked_def ring_insert_def spec_push_def ring_ok_def ring_shape_def)
next
  case False
  then have "rb_count rb < rb_capacity rb" using ok by (simp add: ring_ok_def ring_shape_def)
  from ring_insert_ok [OF ok this, of e] show ?thesis
    using that [of "ring_insert rb e"] False fin ok
    by (auto simp: push_locked_def ring_insert_def spec_push_def ring_ok_def ring_shape_def)
qed

subsection \<open>The index\<close>

lemma index_complete_New: "index_complete (empty_ring capacity now)"
  by (simp add: index_complete_def empty_ring_def Let_def)

lemma index_complete_Clear: "index_complete (Clear rb)"
  by (simp add: index_complete_def Clear_def)

lemma index_complete_evict:
  assumes ok: "ring_ok rb" "0 < rb_count rb" and ic: "index_complete rb"
    and ev: "evictOldest rb = Inr rb'"
  shows "index_complete rb'"
proof -
  obtain rb1 where r: "evictOldest rb = Inr rb1" "rb_capacity rb1 = rb_capacity rb"
    "rb_idIndex rb1 = (rb_idIndex rb)(ce_ID (hd (entries rb)) := None)"
    "rb_buffer rb1 = (rb_buffer rb)[rb_head rb := None]"
    using evictOldest_ok [OF ok] by metis
  have sh: "rb_head rb < rb_capacity rb" "length (rb_buffer rb) = rb_capacity rb"
    using ok by (simp_all add: ring_ok_def ring_shape_def)
  have "entries rb \<noteq> []" using ok(2) length_entries [of rb] by (metis length_0_conv less_irrefl)
  then have head: "rb_buffer rb ! rb_head rb = Some (hd (entries rb))"
    using slot_entries [OF ok(1), of 0] ok sh by (simp add: slot_def hd_conv_nth)
  have "rb_idIndex rb (ce_ID (hd (entries rb))) = Some (rb_head rb)"
    using ic head sh unfolding index_complete_def by blast
  then have "ce_ID e \<noteq> ce_ID (hd (entries rb))"
    if "j < rb_capacity rb" "rb_buffer rb ! j = Some e" "j \<noteq> rb_head rb" for j e
    using ic that unfolding index_complete_def by (metis option.inject)
  then have "index_complete rb1"
    using ic r(2-4) sh unfolding index_complete_def
    by (auto simp: nth_list_update split: if_splits)
  then show ?thesis using r(1) ev by simp
qed

lemma index_complete_insert:
  assumes "ring_ok rb" "index_complete rb" "ce_ID e \<notin> ce_ID ` set (entries rb)"
  shows "index_complete (ring_insert rb e)"
proof -
  have "ce_ID e' \<noteq> ce_ID e" if "j < rb_capacity rb" "rb_buffer rb ! j = Some e'" for j e'
    using assms(3) set_entries [OF assms(1), of e'] that by (metis image_eqI)
  then show ?thesis
    using assms unfolding index_complete_def ring_insert_def ring_ok_def ring_shape_def
    by (auto simp: nth_list_update split: if_splits)
qed

text \<open>Lookup by identifier finds exactly the entries of the list.\<close>

lemma Get_present:
  assumes "ring_ok rb" "index_complete rb" "e \<in> set (entries rb)"
  shows "Get rb (ce_ID e) = Inr (Some e)"
proof -
  obtain j where "j < rb_capacity rb" "rb_buffer rb ! j = Some e"
    using assms(1,3) set_entries by blast
  then show ?thesis
    using assms unfolding index_complete_def by (simp add: Get_def ring_ok_def ring_shape_def)
qed

lemma entries_distinct_ids:
  assumes "ring_ok rb" "index_complete rb"
  shows "distinct (map ce_ID (entries rb))"
proof -
  have n: "rb_count rb \<le> rb_capacity rb" using assms(1) by (simp add: ring_ok_def ring_shape_def)
  have "rb_idIndex rb (ce_ID (entries rb ! i)) = Some ((rb_head rb + i) mod rb_capacity rb)" if "i < rb_count rb" for i
    using assms(2) slot_entries [OF assms(1), of i] that n by (simp add: index_complete_def slot_def)
  then have "i = j" if "i < rb_count rb" "j < rb_count rb" "ce_ID (entries rb ! i) = ce_ID (entries rb ! j)" for i j
    using that n add_mod_inj [of i "rb_capacity rb" j "rb_head rb"] by (metis option.inject order_less_le_trans)
  then show ?thesis by (auto simp: distinct_conv_nth)
qed

lemma Get_absent:
  assumes "ring_ok rb" "i \<notin> ce_ID ` set (entries rb)"
  shows "Get rb i = Inr None"
proof (cases "rb_idIndex rb i")
  case None
  then show ?thesis by (simp add: Get_def)
next
  case (Some j)
  then obtain e where "j < rb_capacity rb" "rb_buffer rb ! j = Some e" "ce_ID e = i"
    using assms(1) unfolding ring_ok_def index_sound_def by blast
  then have "i \<in> ce_ID ` set (entries rb)"
    using set_entries [OF assms(1), of e] by blast
  with assms(2) show ?thesis by contradiction
qed

subsection \<open>Listing\<close>

lemma keep_ok:
  assumes "ring_ok rb" "i < rb_capacity rb"
  shows "keep rb ((rb_head rb + i) mod rb_capacity rb) opts
           = Inr (i < rb_count rb \<and> Matches opts (entries rb ! i))"
  using assms slot_entries [OF assms]
  by (auto simp: keep_def slot_def ring_ok_def ring_shape_def)

lemma scan_loop_ok:
  assumes "ring_ok rb" "i + n = rb_capacity rb"
  shows "scan_loop rb opts i n = Inr (filter (Matches opts) (drop i (entries rb)))"
  using assms(2)
proof (induction n arbitrary: i)
  case 0
  then show ?case using assms(1) by (simp add: ring_ok_def ring_shape_def)
next
  case (Suc n)
  let ?idx = "(rb_head rb + i) mod rb_capacity rb"
  have i: "i < rb_capacity rb" using Suc.prems by simp
  have idx: "?idx < length (rb_buffer rb)"
    using assms(1) i by (simp add: ring_ok_def ring_shape_def)
  have IH: "scan_loop rb opts (Suc i) n = Inr (filter (Matches opts) (drop (Suc i) (entries rb)))"
    using Suc by simp
  show ?case
  proof (cases "i < rb_count rb")
    case True
    then have "rb_buffer rb ! ?idx = Some (entries rb ! i)"
      using slot_entries [OF assms(1) i] by (simp add: slot_def)
    moreover have "drop i (entries rb) = entries rb ! i # drop (Suc i) (entries rb)"
      using True by (simp add: Cons_nth_drop_Suc)
    ultimately show ?thesis
      using True IH idx keep_ok [OF assms(1) i, of opts] by (simp add: Let_def)
  next
    case False
    then show ?thesis
      using IH keep_ok [OF assms(1) i, of opts] by (simp add: Let_def)
  qed
qed

text \<open>The page a listing promises: skip the offset, then at most a positive limit.\<close>

definition spec_page :: "list_opts \<Rightarrow> captured_entry list \<Rightarrow> captured_entry list" where
  "spec_page opts xs =
     (let ys = drop (nat (lo_Offset opts)) xs
      in if 0 < lo_Limit opts then take (nat (lo_Limit opts)) ys else ys)"

definition nil_as_empty :: "'a list option \<Rightarrow> 'a list" where
  "nil_as_empty r = (case r of None \<Rightarrow> [] | Some xs \<Rightarrow> xs)"

lemma paginate_page: "nil_as_empty (paginate xs opts) = spec_page opts xs"
  by (auto simp: paginate_def capResult_def spec_page_def nil_as_empty_def Let_def)

lemma List_entries_ok:
  assumes "ring_ok rb"
  obtains r where "List_entries rb opts = Inr r"
    "nil_as_empty r = spec_page opts (filter (Matches opts) (entries rb))"
proof (cases "rb_count rb = 0")
  case True
  then have "entries rb = []" by (simp add: entries_def)
  then show ?thesis
    using True that [of None] by (simp add: List_entries_def nil_as_empty_def spec_page_def)
next
  case False
  then show ?thesis
    using scan_loop_ok [OF assms, of 0 "rb_capacity rb" opts]
      that [of "paginate (filter (Matches opts) (entries rb)) opts"]
    by (simp add: List_entries_def scan_def paginate_page)
qed

section \<open>The interface Store\<close>

text \<open>
  What a client of the store may rely on, in terms of the list of entries it holds
  (oldest first). An entry that already carries an identifier and a time stamp is final:
  \<^verbatim>\<open>Push\<close> stores it unchanged.
\<close>

definition final_entry :: "captured_entry \<Rightarrow> bool" where
  "final_entry e \<longleftrightarrow> ce_ID e \<noteq> [] \<and> \<not> is_zero_time (ce_Timestamp e)"

definition all_opts :: list_opts where
  "all_opts = \<lparr> lo_Since = 0, lo_Method = [], lo_Status = 0, lo_URL = [], lo_Limit = 0, lo_Offset = 0 \<rparr>"

lemma Matches_all_opts [simp]: "Matches (all_opts\<lparr>lo_Limit := n, lo_Offset := k\<rparr>) e" "Matches all_opts e"
  "Matches (all_opts\<lparr>lo_Limit := n\<rparr>) e"
  by (simp_all add: Matches_def sinceOrMethodExcludes_def statusOrURLExcludes_def sinceExcludes_def
      methodExcludes_def statusExcludes_def urlExcludes_def all_opts_def is_zero_time_def)

fun go_fold :: "('s \<Rightarrow> 'a \<Rightarrow> 's go) \<Rightarrow> 's \<Rightarrow> 'a list \<Rightarrow> 's go" where
  "go_fold f s [] = Inr s"
| "go_fold f s (x # xs) = go_bind (f s x) (\<lambda>s'. go_fold f s' xs)"

locale entry_store =
  fixes invar :: "'s \<Rightarrow> bool"
    and abs :: "'s \<Rightarrow> captured_entry list"
    and cap :: "'s \<Rightarrow> nat"
    and push :: "'s \<Rightarrow> captured_entry \<Rightarrow> 's go"
    and get :: "'s \<Rightarrow> entry_id \<Rightarrow> captured_entry option go"
    and list_op :: "'s \<Rightarrow> list_opts \<Rightarrow> captured_entry list option go"
    and clear :: "'s \<Rightarrow> 's"
    and len :: "'s \<Rightarrow> nat"
  assumes cap_pos: "invar s \<Longrightarrow> 0 < cap s"
    and bounded: "invar s \<Longrightarrow> length (abs s) \<le> cap s"
    and len: "invar s \<Longrightarrow> len s = length (abs s)"
    and push: "invar s \<Longrightarrow> final_entry e \<Longrightarrow> ce_ID e \<notin> ce_ID ` set (abs s) \<Longrightarrow>
      \<exists>s'. push s e = Inr s' \<and> invar s' \<and> cap s' = cap s \<and> abs s' = spec_push (cap s) (abs s) e"
    and get_present: "invar s \<Longrightarrow> e \<in> set (abs s) \<Longrightarrow> get s (ce_ID e) = Inr (Some e)"
    and get_absent: "invar s \<Longrightarrow> i \<notin> ce_ID ` set (abs s) \<Longrightarrow> get s i = Inr None"
    and list_op: "invar s \<Longrightarrow> \<exists>r. list_op s opts = Inr r
      \<and> nil_as_empty r = spec_page opts (filter (Matches opts) (abs s))"
    and clear: "invar s \<Longrightarrow> invar (clear s) \<and> abs (clear s) = [] \<and> cap (clear s) = cap s"
begin

lemma set_spec_push: "set (spec_push n xs e) \<subseteq> insert e (set xs)"
  by (auto simp: spec_push_def dest: in_set_tl split: if_splits)

text \<open>A pushed entry can be looked up at once.\<close>

lemma push_get:
  assumes "invar s" "final_entry e" "ce_ID e \<notin> ce_ID ` set (abs s)"
  shows "\<exists>s'. push s e = Inr s' \<and> get s' (ce_ID e) = Inr (Some e)"
proof -
  obtain s' where "push s e = Inr s'" "invar s'" "abs s' = spec_push (cap s) (abs s) e"
    using push [OF assms] by blast
  moreover then have "e \<in> set (abs s')" by (simp add: spec_push_def)
  ultimately show ?thesis using get_present by blast
qed

text \<open>Any sequence of pushes leaves the newest entries that fit, in order.\<close>

lemma push_all:
  assumes "invar s" "list_all final_entry es" "distinct (map ce_ID (abs s @ es))"
  shows "\<exists>s'. go_fold push s es = Inr s' \<and> invar s' \<and> cap s' = cap s
    \<and> abs s' = drop (length (abs s @ es) - cap s) (abs s @ es)"
  using assms
proof (induction es arbitrary: s)
  case Nil
  then show ?case using bounded [of s] by simp
next
  case (Cons e es)
  obtain s1 where s1: "push s e = Inr s1" "invar s1" "cap s1 = cap s"
    "abs s1 = spec_push (cap s) (abs s) e"
    using push [of s e] Cons.prems by auto
  have sub: "distinct (map ce_ID (abs s1 @ es))"
    using Cons.prems(3) s1(4) by (cases "abs s") (auto simp: spec_push_def)
  obtain s' where s': "go_fold push s1 es = Inr s'" "invar s'" "cap s' = cap s1"
    "abs s' = drop (length (abs s1 @ es) - cap s1) (abs s1 @ es)"
    using Cons.IH [OF s1(2) _ sub] Cons.prems by auto
  have "drop (length (abs s1 @ es) - cap s) (abs s1 @ es)
      = drop (length (abs s @ e # es) - cap s) (abs s @ e # es)"
  proof (cases "length (abs s) = cap s")
    case True
    then obtain a l where "abs s = a # l" "Suc (length l) = cap s"
      using cap_pos [OF Cons.prems(1)] by (cases "abs s") auto
    then have "abs s1 @ es = l @ e # es" "length (abs s1 @ es) - cap s = length es"
      "length (abs s @ e # es) - cap s = Suc (length es)" "abs s = a # l"
      using s1(4) True by (auto simp: spec_push_def)
    then show ?thesis by simp
  next
    case False
    then have "abs s1 @ es = abs s @ e # es" using s1(4) by (simp add: spec_push_def)
    then show ?thesis by simp
  qed
  then show ?case using s1 s' by simp
qed

lemma push_all_newest:
  assumes "invar s" "abs s = []" "list_all final_entry es" "distinct (map ce_ID es)"
  shows "\<exists>s'. go_fold push s es = Inr s' \<and> invar s' \<and> abs s' = drop (length es - cap s) es"
  using push_all [of s es] assms by auto

text \<open>A listing without filters but with a limit shows the oldest entries.\<close>

lemma list_limit_prefix:
  assumes "invar s" "0 < n"
  shows "\<exists>r. list_op s (all_opts\<lparr>lo_Limit := n\<rparr>) = Inr r \<and> nil_as_empty r = take (nat n) (abs s)"
proof -
  have "filter (Matches (all_opts\<lparr>lo_Limit := n\<rparr>)) (abs s) = abs s"
    by simp
  then show ?thesis
    using list_op [OF assms(1), of "all_opts\<lparr>lo_Limit := n\<rparr>"] assms(2)
    by (simp add: spec_page_def all_opts_def)
qed

end

text \<open>The ring buffer implements the interface.\<close>

definition ring_inv :: "ring_buffer \<Rightarrow> bool" where
  "ring_inv rb \<longleftrightarrow> ring_ok rb \<and> index_complete rb"

definition ring_push :: "std_env \<Rightarrow> ring_buffer \<Rightarrow> captured_entry \<Rightarrow> ring_buffer go" where
  "ring_push env rb e = go_bind (push_locked env 0 0 0 rb e) (\<lambda>r. Inr (fst r))"

lemma finalizeEntry_final: "final_entry e \<Longrightarrow> finalizeEntry env n1 n2 c e = (e, c)"
  by (simp add: finalizeEntry_def final_entry_def)

lemma push_locked_index:
  assumes ok: "ring_ok rb" and ic: "index_complete rb" and fin: "finalizeEntry env n1 n2 c e0 = (e, c')"
    and fresh: "ce_ID e \<notin> ce_ID ` set (entries rb)"
    and p: "push_locked env n1 n2 c rb e0 = Inr (rb', e, c', subs)"
  shows "index_complete rb'"
proof (cases "rb_count rb = rb_capacity rb")
  case True
  then have n: "0 < rb_count rb" using ok by (simp add: ring_ok_def ring_shape_def)
  obtain rb1 where r: "evictOldest rb = Inr rb1" "ring_ok rb1" "entries rb1 = tl (entries rb)"
    using evictOldest_ok [OF ok n] by metis
  have tail: "rb_tail rb1 < length (rb_buffer rb1)"
    using r(2) by (simp add: ring_ok_def ring_shape_def)
  have "ce_ID e \<notin> ce_ID ` set (entries rb1)"
    using fresh r(3) by (auto dest: in_set_tl)
  then have "index_complete (ring_insert rb1 e)"
    using index_complete_insert [OF r(2)] index_complete_evict [OF ok n ic r(1)] by blast
  moreover have "rb' = ring_insert rb1 e"
    using p True r(1) fin tail by (simp add: push_locked_def ring_insert_def)
  ultimately show ?thesis by simp
next
  case False
  have "rb_tail rb < length (rb_buffer rb)"
    using ok by (simp add: ring_ok_def ring_shape_def)
  then have "rb' = ring_insert rb e"
    using p False fin by (simp add: push_locked_def ring_insert_def)
  then show ?thesis using index_complete_insert [OF ok ic fresh] by simp
qed

interpretation ring: entry_store ring_inv entries rb_capacity "ring_push env" Get List_entries Clear Len
  for env
proof unfold_locales
  fix rb e
  assume inv: "ring_inv rb" and e: "final_entry e" "ce_ID e \<notin> ce_ID ` set (entries rb)"
  obtain rb' where r: "push_locked env 0 0 0 rb e = Inr (rb', e, 0, rb_subscribers rb)"
    "ring_ok rb'" "entries rb' = spec_push (rb_capacity rb) (entries rb) e"
    "rb_capacity rb' = rb_capacity rb"
    using push_locked_ok [OF _ finalizeEntry_final [OF e(1)]] inv by (metis ring_inv_def)
  moreover have "index_complete rb'"
    using push_locked_index [OF _ _ finalizeEntry_final [OF e(1)] e(2) r(1)] inv
    by (simp add: ring_inv_def)
  ultimately show "\<exists>rb'. ring_push env rb e = Inr rb' \<and> ring_inv rb' \<and> rb_capacity rb' = rb_capacity rb
      \<and> entries rb' = spec_push (rb_capacity rb) (entries rb) e"
    by (simp add: ring_push_def ring_inv_def)
next
  fix rb opts
  assume "ring_inv rb"
  then show "\<exists>r. List_entries rb opts = Inr r
      \<and> nil_as_empty r = spec_page opts (filter (Matches opts) (entries rb))"
    using List_entries_ok [of rb opts] by (metis ring_inv_def)
next
  fix rb
  assume "ring_inv rb"
  then show "ring_inv (Clear rb) \<and> entries (Clear rb) = [] \<and> rb_capacity (Clear rb) = rb_capacity rb"
    by (simp add: ring_inv_def ring_ok_Clear index_complete_Clear)
qed (auto simp: ring_inv_def Len_def Get_present Get_absent ring_ok_def ring_shape_def)

section \<open>Subscribers\<close>

text \<open>The channels of the subscribers are distinct, allocated and open.\<close>

definition subs_open :: "store \<Rightarrow> bool" where
  "subs_open st \<longleftrightarrow> distinct (rb_subscribers (st_ring st))
     \<and> (\<forall>c \<in> set (rb_subscribers (st_ring st)). \<exists>ch. st_chans st c = Some ch \<and> \<not> ch_closed ch)"

text \<open>Delivery to one channel: append if there is room, drop otherwise.\<close>

definition deliver :: "captured_entry \<Rightarrow> chan \<Rightarrow> chan" where
  "deliver e ch = (if length (ch_queue ch) < chan_cap then ch\<lparr>ch_queue := ch_queue ch @ [e]\<rparr> else ch)"

lemma try_send_open:
  "chs c = Some ch \<Longrightarrow> \<not> ch_closed ch \<Longrightarrow> try_send chs c e = Inr (chs(c \<mapsto> deliver e ch))"
  by (auto simp: try_send_def deliver_def fun_upd_idem)

lemma notifySubscribers_ok:
  assumes "distinct subs" "\<And>c. c \<in> set subs \<Longrightarrow> \<exists>ch. chs c = Some ch \<and> \<not> ch_closed ch"
  shows "notifySubscribers chs subs e
    = Inr (\<lambda>c. if c \<in> set subs then map_option (deliver e) (chs c) else chs c)"
  using assms
proof (induction subs arbitrary: chs)
  case Nil
  then show ?case by simp
next
  case (Cons c subs)
  obtain ch where ch: "chs c = Some ch" "\<not> ch_closed ch" using Cons.prems(2) by auto
  have "notifySubscribers (chs(c \<mapsto> deliver e ch)) subs e
      = Inr (\<lambda>d. if d \<in> set subs then map_option (deliver e) ((chs(c \<mapsto> deliver e ch)) d)
                  else (chs(c \<mapsto> deliver e ch)) d)"
    using Cons.prems by (intro Cons.IH) auto
  then show ?case
    using ch Cons.prems(1) by (auto simp: try_send_open fun_eq_iff)
qed

lemma Push_queue:
  assumes "ring_ok (st_ring st)" and "subs_open st" and "finalizeEntry env n1 n2 c e0 = (e, c')"
  shows "\<exists>st'. Push env n1 n2 c st e0 = Inr (st', e, c')
    \<and> ring_ok (st_ring st')
    \<and> entries (st_ring st') = spec_push (rb_capacity (st_ring st)) (entries (st_ring st)) e
    \<and> rb_evictions (st_ring st') = rb_evictions (st_ring st)
        + (if length (entries (st_ring st)) = rb_capacity (st_ring st) then 1 else 0)
    \<and> rb_bytesCaptured (st_ring st') = rb_bytesCaptured (st_ring st) + entryBytes e
    \<and> rb_subscribers (st_ring st') = rb_subscribers (st_ring st)
    \<and> st_chans st' = (\<lambda>d. if d \<in> set (rb_subscribers (st_ring st))
                          then map_option (deliver e) (st_chans st d) else st_chans st d)"
proof -
  obtain rb' where "push_locked env n1 n2 c (st_ring st) e0 = Inr (rb', e, c', rb_subscribers (st_ring st))"
    "ring_ok rb'" "entries rb' = spec_push (rb_capacity (st_ring st)) (entries (st_ring st)) e"
    "rb_subscribers rb' = rb_subscribers (st_ring st)"
    "rb_bytesCaptured rb' = rb_bytesCaptured (st_ring st) + entryBytes e"
    "rb_evictions rb' = rb_evictions (st_ring st)
       + (if rb_count (st_ring st) = rb_capacity (st_ring st) then 1 else 0)"
    using push_locked_ok [OF assms(1,3)] by metis
  then show ?thesis
    using notifySubscribers_ok [of "rb_subscribers (st_ring st)" "st_chans st" e] assms(2)
    by (simp add: Push_def subs_open_def)
qed

lemma subs_open_delivered:
  assumes "subs_open st" "rb_subscribers (st_ring st') = rb_subscribers (st_ring st)"
    "st_chans st' = (\<lambda>d. if d \<in> set (rb_subscribers (st_ring st))
                          then map_option (deliver e) (st_chans st d) else st_chans st d)"
  shows "subs_open st'"
proof -
  have closed: "ch_closed (deliver e ch) = ch_closed ch" for ch by (simp add: deliver_def)
  then show ?thesis
    using assms unfolding subs_open_def by (metis (no_types, lifting) option.simps(9))
qed

text \<open>What a client of \<^verbatim>\<open>Push\<close> needs: it returns, keeps the store usable, and queues the entry.\<close>

definition store_ok :: "store \<Rightarrow> bool" where
  "store_ok st \<longleftrightarrow> ring_ok (st_ring st) \<and> subs_open st"

text \<open>An entry with a new identifier keeps the index complete, so that lookups find it.\<close>

definition keeps_index :: "store \<Rightarrow> captured_entry \<Rightarrow> store \<Rightarrow> bool" where
  "keeps_index st e st' \<longleftrightarrow>
     (ring_inv (st_ring st) \<and> ce_ID e \<notin> ce_ID ` set (entries (st_ring st)) \<longrightarrow> ring_inv (st_ring st'))"

lemma Push_store_ok:
  assumes "store_ok st" "finalizeEntry env n1 n2 c e0 = (e, c')"
  shows "\<exists>st'. Push env n1 n2 c st e0 = Inr (st', e, c') \<and> store_ok st'
    \<and> rb_capacity (st_ring st') = rb_capacity (st_ring st)
    \<and> entries (st_ring st') = spec_push (rb_capacity (st_ring st)) (entries (st_ring st)) e \<and> keeps_index st e st'"
proof -
  obtain st' where st': "Push env n1 n2 c st e0 = Inr (st', e, c')" "ring_ok (st_ring st')"
    "entries (st_ring st') = spec_push (rb_capacity (st_ring st)) (entries (st_ring st)) e"
    "rb_subscribers (st_ring st') = rb_subscribers (st_ring st)"
    "st_chans st' = (\<lambda>d. if d \<in> set (rb_subscribers (st_ring st))
                          then map_option (deliver e) (st_chans st d) else st_chans st d)"
    using Push_queue [of st env n1 n2 c e0 e c'] assms by (auto simp: store_ok_def)
  moreover obtain rb' where rb': "push_locked env n1 n2 c (st_ring st) e0 = Inr (rb', e, c', rb_subscribers (st_ring st))"
      "rb_capacity rb' = rb_capacity (st_ring st)"
    using push_locked_ok [OF _ assms(2)] assms(1) by (metis store_ok_def)
  moreover have r: "st_ring st' = rb'" using st'(1) rb'(1) by (auto simp: Push_def go_bind_eq_Inr)
  moreover have "keeps_index st e st'"
    using push_locked_index [OF _ _ assms(2) _ rb'(1)] st'(2) by (auto simp: keeps_index_def ring_inv_def r)
  moreover have "subs_open st'"
    using subs_open_delivered [OF _ st'(4,5)] assms(1) by (simp add: store_ok_def)
  ultimately show ?thesis by (auto simp: store_ok_def)
qed

section \<open>Properties of the store\<close>

definition demo_entry :: "string \<Rightarrow> captured_entry" where
  "demo_entry i = zero_entry\<lparr> ce_ID := i, ce_Timestamp := 5, ce_ResponseBody := Some ''ok'' \<rparr>"

definition demo_store :: store where
  "demo_store = \<lparr> st_ring = (empty_ring 2 1)\<lparr>rb_subscribers := [0]\<rparr>,
     st_chans = [0 \<mapsto> \<lparr> ch_queue = [], ch_closed = False \<rparr>], st_next = 1 \<rparr>"

lemma demo_store_ok: "ring_ok (st_ring demo_store)" "subs_open demo_store"
  using ring_ok_New [of 2 1]
  by (auto simp: demo_store_def subs_open_def ring_ok_def ring_shape_def ring_live_def slot_def
      index_sound_def)

text \<open>
  \<^bold>\<open>C8\<close>. \<^verbatim>\<open>Push\<close> implements a bounded queue and never panics or blocks on its subscribers: in
  a well-formed store with open subscriber channels it returns, stores the finalised entry
  as the newest one, drops the oldest exactly when the ring was full (counting the
  eviction), adds the retained body bytes to the statistics, keeps the store well formed
  and appends the entry to every subscriber channel that has room, leaving the others alone.
\<close>

theorem Push_refines_queue:
  assumes "ring_ok (st_ring st)" and "subs_open st" and "finalizeEntry env n1 n2 c e0 = (e, c')"
  shows "\<exists>st'. Push env n1 n2 c st e0 = Inr (st', e, c')
    \<and> ring_ok (st_ring st')
    \<and> entries (st_ring st') = spec_push (rb_capacity (st_ring st)) (entries (st_ring st)) e
    \<and> rb_evictions (st_ring st') = rb_evictions (st_ring st)
        + (if length (entries (st_ring st)) = rb_capacity (st_ring st) then 1 else 0)
    \<and> rb_bytesCaptured (st_ring st') = rb_bytesCaptured (st_ring st) + entryBytes e
    \<and> rb_subscribers (st_ring st') = rb_subscribers (st_ring st)
    \<and> st_chans st' = (\<lambda>d. if d \<in> set (rb_subscribers (st_ring st))
                          then map_option (deliver e) (st_chans st d) else st_chans st d)"
  using assms by (rule Push_queue)

theorem Push_refines_queue_witness:
  "\<exists>st'. Push demo_env 3 4 0 demo_store (demo_entry ''a'') = Inr (st', demo_entry ''a'', 0)
     \<and> entries (st_ring st') = spec_push 2 [] (demo_entry ''a'')"
proof -
  have "finalizeEntry demo_env 3 4 0 (demo_entry ''a'') = (demo_entry ''a'', 0)"
    by (rule finalizeEntry_final) (simp add: final_entry_def demo_entry_def is_zero_time_def)
  from Push_refines_queue [OF demo_store_ok this] show ?thesis
    by (auto simp: demo_store_def entries_def empty_ring_def)
qed

text \<open>
  The store keeps exactly the newest entries: pushing any sequence of final entries with
  distinct identifiers into a fresh buffer never panics and leaves the last \<open>cap\<close> of them
  (all of them if there are fewer), oldest first, each retrievable by its identifier and
  every older one reported as absent.
\<close>

theorem store_keeps_newest:
  assumes "0 < capacity" and "list_all final_entry es" and "distinct (map ce_ID es)"
  shows "\<exists>rb. go_fold (ring_push env) (empty_ring capacity now) es = Inr rb
    \<and> entries rb = drop (length es - nat capacity) es
    \<and> (\<forall>e \<in> set (entries rb). Get rb (ce_ID e) = Inr (Some e))
    \<and> (\<forall>i. i \<notin> ce_ID ` set (entries rb) \<longrightarrow> Get rb i = Inr None)"
proof -
  let ?new = "empty_ring capacity now"
  have "ring_inv ?new" "rb_capacity ?new = nat capacity"
    using assms(1) by (simp_all add: ring_inv_def ring_ok_New index_complete_New)
      (simp add: empty_ring_def Let_def)
  then obtain rb where rb: "go_fold (ring_push env) ?new es = Inr rb" "ring_inv rb"
    "entries rb = drop (length es - nat capacity) es"
    using ring.push_all_newest [of ?new es env] assms(2,3) by auto
  then show ?thesis
    using ring.get_present [OF rb(2)] ring.get_absent [OF rb(2)] by blast
qed

theorem store_keeps_newest_witness:
  "\<exists>rb. go_fold (ring_push demo_env) (empty_ring 2 1)
          [demo_entry ''a'', demo_entry ''b'', demo_entry ''c''] = Inr rb
    \<and> entries rb = [demo_entry ''b'', demo_entry ''c'']"
  using store_keeps_newest [of 2 "[demo_entry ''a'', demo_entry ''b'', demo_entry ''c'']" demo_env 1]
  by (auto simp: final_entry_def demo_entry_def is_zero_time_def)

text \<open>
  \<^bold>\<open>C16\<close>. A listing is the requested page of the matching entries: on a well-formed ring the scan
  over all slots, wrapping around the end of the array, returns the entries that satisfy
  every given filter, oldest first, without the first \<open>Offset\<close> and with at most a
  positive \<open>Limit\<close> of them; it never panics.
\<close>

theorem List_entries_refines:
  assumes "ring_ok rb"
  shows "\<exists>r. List_entries rb opts = Inr r
    \<and> nil_as_empty r = spec_page opts (filter (\<lambda>e.
          (lo_Since opts = 0 \<or> lo_Since opts \<le> ce_Timestamp e)
        \<and> (lo_Method opts = [] \<or> ce_Method e = lo_Method opts)
        \<and> (lo_Status opts \<le> 0 \<or> ce_StatusCode e = lo_Status opts)
        \<and> (lo_URL opts = [] \<or> ce_URL e = lo_URL opts)) (entries rb))"
proof -
  have "Matches opts = (\<lambda>e. (lo_Since opts = 0 \<or> lo_Since opts \<le> ce_Timestamp e)
        \<and> (lo_Method opts = [] \<or> ce_Method e = lo_Method opts)
        \<and> (lo_Status opts \<le> 0 \<or> ce_StatusCode e = lo_Status opts)
        \<and> (lo_URL opts = [] \<or> ce_URL e = lo_URL opts))"
    by (auto simp: Matches_def sinceOrMethodExcludes_def statusOrURLExcludes_def sinceExcludes_def
        methodExcludes_def statusExcludes_def urlExcludes_def is_zero_time_def fun_eq_iff)
  then show ?thesis using List_entries_ok [OF assms, of opts] by metis
qed

theorem List_entries_refines_witness:
  "\<exists>r. List_entries (ring_insert (empty_ring 4 1) (demo_entry ''a'')) all_opts = Inr r
     \<and> nil_as_empty r = [demo_entry ''a'']"
proof -
  have "rb_count (empty_ring 4 1) < rb_capacity (empty_ring 4 1)"
    by (simp add: empty_ring_def Let_def)
  note ok = ring_insert_ok [OF ring_ok_New this, of "demo_entry ''a''"]
  show ?thesis
    using List_entries_refines [OF ok(1), of all_opts] ok(2) by (simp add: spec_page_def all_opts_def)
qed

definition body_len :: "string option \<Rightarrow> nat" where
  "body_len b = (case b of None \<Rightarrow> 0 | Some s \<Rightarrow> length s)"

definition retained_bytes :: "captured_entry \<Rightarrow> nat" where
  "retained_bytes e = body_len (ce_RequestBody e) + body_len (ce_ResponseBody e)"

lemma entryBytes_retained: "entryBytes e = of_nat (retained_bytes e)"
  by (simp add: entryBytes_def body_bytes_def retained_bytes_def body_len_def split: option.splits)

text \<open>
  The byte statistic is exact until it overflows: after any successful sequence of
  pushes of final entries the counter has grown by the total length of the retained
  bodies, provided the true total stays below \<open>2 ^ 63\<close>.
\<close>

theorem bytesCaptured_exact:
  assumes "ring_ok rb" and "list_all final_entry es" and "0 \<le> sint (rb_bytesCaptured rb)"
    and "sint (rb_bytesCaptured rb) + int (sum_list (map retained_bytes es)) < 2 ^ 63"
  shows "\<exists>rb'. go_fold (ring_push env) rb es = Inr rb' \<and> ring_ok rb'
    \<and> sint (rb_bytesCaptured rb') = sint (rb_bytesCaptured rb) + int (sum_list (map retained_bytes es))"
  using assms
proof (induction es arbitrary: rb)
  case Nil
  then show ?case by simp
next
  case (Cons e es)
  have "finalizeEntry env 0 0 0 e = (e, 0)" using Cons.prems(2) by (simp add: finalizeEntry_final)
  from push_locked_ok [OF Cons.prems(1) this] obtain rb1
    where p: "push_locked env 0 0 0 rb e = Inr (rb1, e, 0, rb_subscribers rb)" and r: "ring_ok rb1"
      "rb_bytesCaptured rb1 = rb_bytesCaptured rb + entryBytes e"
    by metis
  have b: "sint (rb_bytesCaptured rb1) = sint (rb_bytesCaptured rb) + int (retained_bytes e)"
    using Cons.prems(3,4) sint_add64 [of "rb_bytesCaptured rb" "of_nat (retained_bytes e)"]
    unfolding r(2) entryBytes_retained by simp
  have "\<exists>rb'. go_fold (ring_push env) rb1 es = Inr rb' \<and> ring_ok rb' \<and> sint (rb_bytesCaptured rb')
      = sint (rb_bytesCaptured rb1) + int (sum_list (map retained_bytes es))"
    using Cons.prems b by (intro Cons.IH r(1)) auto
  moreover have "ring_push env rb e = Inr rb1"
    using p by (simp add: ring_push_def)
  ultimately show ?case
    using b by (simp add: add.assoc)
qed

theorem bytesCaptured_exact_witness:
  "\<exists>rb'. go_fold (ring_push demo_env) (empty_ring 1 1) [demo_entry ''a'', demo_entry ''b''] = Inr rb'
    \<and> sint (rb_bytesCaptured rb') = 4"
  using bytesCaptured_exact [OF ring_ok_New, of "[demo_entry ''a'', demo_entry ''b'']" 1 1 demo_env]
  by (auto simp: empty_ring_def final_entry_def demo_entry_def is_zero_time_def zero_entry_def
      retained_bytes_def body_len_def)

end
