(* ===== verification/Store_Concurrency.thy ===== *)
theory Store_Concurrency
  imports Ring_Store
begin

text \<open>
  The store under concurrent use. Every method of the ring buffer is atomic (it holds the
  mutex), except that \<^verbatim>\<open>Push\<close> releases the mutex before it notifies: between the two a
  call is in flight, holding a snapshot of the subscribers. A step of the system is one
  atomic action of one goroutine (an identifier is drawn with one atomic increment of the
  counter); a run is any interleaving of them, up to the first panic.
\<close>

section \<open>The system\<close>

record sys =
  sy_store :: store
  sy_ctr :: int64
  sy_inflight :: "(chan_id list \<times> captured_entry) list"
  sy_panic :: "go_panic option"

definition init_sys :: "int \<Rightarrow> go_time \<Rightarrow> sys" where
  "init_sys capacity now = \<lparr> sy_store = \<lparr> st_ring = empty_ring capacity now,
     st_chans = Map.empty, st_next = 0 \<rparr>, sy_ctr = 0, sy_inflight = [], sy_panic = None \<rparr>"

datatype action =
    APush captured_entry go_time go_time
  | ANotify nat
  | ANewID go_time
  | ASubscribe
  | AUnsubscribe chan_id
  | AReceive chan_id
  | AClear

inductive sys_step :: "std_env \<Rightarrow> sys \<Rightarrow> action \<Rightarrow> sys \<Rightarrow> bool" for env where
  push: "sy_panic s = None \<Longrightarrow>
    push_locked env n1 n2 (sy_ctr s) (st_ring (sy_store s)) e0 = Inr (rb, e, c, subs) \<Longrightarrow>
    sys_step env s (APush e0 n1 n2)
      (s\<lparr> sy_store := (sy_store s)\<lparr>st_ring := rb\<rparr>, sy_ctr := c,
          sy_inflight := sy_inflight s @ [(subs, e)] \<rparr>)"
| push_panic: "sy_panic s = None \<Longrightarrow>
    push_locked env n1 n2 (sy_ctr s) (st_ring (sy_store s)) e0 = Inl p \<Longrightarrow>
    sys_step env s (APush e0 n1 n2) (s\<lparr>sy_panic := Some p\<rparr>)"
| notify: "sy_panic s = None \<Longrightarrow> k < length (sy_inflight s) \<Longrightarrow>
    sy_inflight s ! k = (sub # subs, e) \<Longrightarrow>
    try_send (st_chans (sy_store s)) sub e = Inr chs \<Longrightarrow>
    sys_step env s (ANotify k)
      (s\<lparr> sy_store := (sy_store s)\<lparr>st_chans := chs\<rparr>,
          sy_inflight := (sy_inflight s)[k := (subs, e)] \<rparr>)"
| notify_panic: "sy_panic s = None \<Longrightarrow> k < length (sy_inflight s) \<Longrightarrow>
    sy_inflight s ! k = (sub # subs, e) \<Longrightarrow>
    try_send (st_chans (sy_store s)) sub e = Inl p \<Longrightarrow>
    sys_step env s (ANotify k) (s\<lparr>sy_panic := Some p\<rparr>)"
| new_id: "sy_panic s = None \<Longrightarrow>
    sys_step env s (ANewID now) (s\<lparr>sy_ctr := snd (NewEntryID env now (sy_ctr s))\<rparr>)"
| subscribe: "sy_panic s = None \<Longrightarrow>
    sys_step env s ASubscribe (s\<lparr>sy_store := snd (Subscribe (sy_store s))\<rparr>)"
| unsubscribe: "sy_panic s = None \<Longrightarrow> Unsubscribe (sy_store s) ch = Inr st \<Longrightarrow>
    sys_step env s (AUnsubscribe ch) (s\<lparr>sy_store := st\<rparr>)"
| unsubscribe_panic: "sy_panic s = None \<Longrightarrow> Unsubscribe (sy_store s) ch = Inl p \<Longrightarrow>
    sys_step env s (AUnsubscribe ch) (s\<lparr>sy_panic := Some p\<rparr>)"
| receive: "sy_panic s = None \<Longrightarrow> st_chans (sy_store s) c = Some ch \<Longrightarrow> ch_queue ch = x # xs \<Longrightarrow>
    sys_step env s (AReceive c)
      (s\<lparr> sy_store := (sy_store s)\<lparr>st_chans := (st_chans (sy_store s))(c \<mapsto> ch\<lparr>ch_queue := xs\<rparr>)\<rparr>\<rparr>)"
| clear: "sy_panic s = None \<Longrightarrow>
    sys_step env s AClear (s\<lparr>sy_store := (sy_store s)\<lparr>st_ring := Clear (st_ring (sy_store s))\<rparr>\<rparr>)"

inductive reachable :: "std_env \<Rightarrow> int \<Rightarrow> go_time \<Rightarrow> sys \<Rightarrow> bool" for env capacity now where
  init: "reachable env capacity now (init_sys capacity now)"
| step: "reachable env capacity now s \<Longrightarrow> sys_step env s a s' \<Longrightarrow> reachable env capacity now s'"

inductive_cases sys_stepE [elim]: "sys_step env s a s'"

text \<open>
  A run is quiet if no channel is closed while a push that has it in its snapshot is
  still in flight.
\<close>

definition quiet_action :: "sys \<Rightarrow> action \<Rightarrow> bool" where
  "quiet_action s a \<longleftrightarrow>
     (case a of AUnsubscribe ch \<Rightarrow> list_all (\<lambda>p. ch \<notin> set (fst p)) (sy_inflight s) | _ \<Rightarrow> True)"

inductive quiet_reachable :: "std_env \<Rightarrow> int \<Rightarrow> go_time \<Rightarrow> sys \<Rightarrow> bool" for env capacity now where
  quiet_init: "quiet_reachable env capacity now (init_sys capacity now)"
| quiet_step: "quiet_reachable env capacity now s \<Longrightarrow> sys_step env s a s' \<Longrightarrow> quiet_action s a \<Longrightarrow>
    quiet_reachable env capacity now s'"

section \<open>The invariant\<close>

text \<open>
  Channels below \<open>st_next\<close> are the allocated ones; subscribers are open; queues respect the
  channel capacity; a snapshot mentions allocated channels only.
\<close>

definition chans_inv :: "store \<Rightarrow> bool" where
  "chans_inv st \<longleftrightarrow> subs_open st
     \<and> (\<forall>c. (st_chans st c \<noteq> None) = (c < st_next st))
     \<and> (\<forall>c ch. st_chans st c = Some ch \<longrightarrow> length (ch_queue ch) \<le> chan_cap)"

definition sys_inv :: "sys \<Rightarrow> bool" where
  "sys_inv s \<longleftrightarrow> ring_ok (st_ring (sy_store s)) \<and> chans_inv (sy_store s)
     \<and> (\<forall>p \<in> set (sy_inflight s). \<forall>c \<in> set (fst p). c < st_next (sy_store s))
     \<and> sy_panic s \<in> {None, Some SendOnClosed}"

lemma sys_inv_init: "sys_inv (init_sys capacity now)"
  by (simp add: sys_inv_def init_sys_def ring_ok_New chans_inv_def subs_open_def)
    (simp add: empty_ring_def Let_def)

lemma ring_ok_subscribers [simp]: "ring_ok (rb\<lparr>rb_subscribers := xs\<rparr>) = ring_ok rb"
  by (simp add: ring_ok_def ring_shape_def ring_live_def index_sound_def slot_def)

lemma try_send_cases:
  assumes "chans_inv st" "c < st_next st"
  obtains ch where "st_chans st c = Some ch" "ch_closed ch" "try_send (st_chans st) c e = Inl SendOnClosed"
  | ch where "st_chans st c = Some ch" "\<not> ch_closed ch"
      "try_send (st_chans st) c e = Inr ((st_chans st)(c \<mapsto> deliver e ch))"
proof -
  obtain ch where "st_chans st c = Some ch"
    using assms unfolding chans_inv_def by (metis not_None_eq)
  then show ?thesis using that try_send_open [of "st_chans st" c ch e]
    by (cases "ch_closed ch") (auto simp: try_send_def)
qed

lemma chans_inv_update:
  assumes "chans_inv st" "st_chans st c = Some ch" "length (ch_queue ch') \<le> chan_cap"
    "ch_closed ch \<or> \<not> ch_closed ch'"
  shows "chans_inv (st\<lparr>st_chans := (st_chans st)(c \<mapsto> ch')\<rparr>)"
  using assms unfolding chans_inv_def subs_open_def by force

lemma deliver_queue: "length (ch_queue ch) \<le> chan_cap \<Longrightarrow> length (ch_queue (deliver e ch)) \<le> chan_cap"
  "ch_closed (deliver e ch) = ch_closed ch"
  by (auto simp: deliver_def)

lemma chans_inv_ring:
  "chans_inv st \<Longrightarrow> rb_subscribers rb = rb_subscribers (st_ring st) \<Longrightarrow> chans_inv (st\<lparr>st_ring := rb\<rparr>)"
  by (simp add: chans_inv_def subs_open_def)

lemma chans_inv_Subscribe: "chans_inv st \<Longrightarrow> chans_inv (snd (Subscribe st))"
  unfolding chans_inv_def subs_open_def Subscribe_def Let_def
  by (auto simp: less_Suc_eq)

lemma Unsubscribe_ok:
  assumes "chans_inv st"
  obtains st' where "Unsubscribe st ch = Inr st'" "chans_inv st'" "st_next st' = st_next st"
    "ring_ok (st_ring st') = ring_ok (st_ring st)"
    "\<And>c. c \<noteq> ch \<Longrightarrow> st_chans st' c = st_chans st c"
proof (cases "ch \<in> set (rb_subscribers (st_ring st))")
  case True
  then obtain x where x: "st_chans st ch = Some x" "\<not> ch_closed x"
    using assms by (auto simp: chans_inv_def subs_open_def)
  let ?st' = "st\<lparr> st_ring := (st_ring st)\<lparr>rb_subscribers := remove1 ch (rb_subscribers (st_ring st))\<rparr>,
    st_chans := (st_chans st)(ch \<mapsto> x\<lparr>ch_closed := True\<rparr>) \<rparr>"
  have "Unsubscribe st ch = Inr ?st'"
    using True x by (simp add: Unsubscribe_def close_chan_def)
  moreover have "chans_inv ?st'"
    using assms x unfolding chans_inv_def subs_open_def by (auto simp: set_remove1_eq)
  ultimately show ?thesis using that [of ?st'] by simp
next
  case False
  then show ?thesis using that [of st] assms by (simp add: Unsubscribe_def)
qed

lemma chans_inv_subs:
  assumes "chans_inv st" "c \<in> set (rb_subscribers (st_ring st))"
  shows "c < st_next st" and "\<exists>ch. st_chans st c = Some ch \<and> \<not> ch_closed ch"
  using assms unfolding chans_inv_def subs_open_def by (metis not_None_eq, metis)

lemma push_locked_total:
  assumes "ring_ok rb"
  shows "\<exists>rb' e c'. push_locked env n1 n2 c rb e0 = Inr (rb', e, c', rb_subscribers rb)
    \<and> ring_ok rb' \<and> rb_subscribers rb' = rb_subscribers rb"
  using push_locked_ok [OF assms, of env n1 n2 c e0] by (metis prod.exhaust)

lemma inflight_update:
  assumes "p \<in> set (fs[k := (subs, e)])" "k < length fs" "fs ! k = (sub # subs, e)" "c \<in> set (fst p)"
  shows "\<exists>q \<in> set fs. c \<in> set (fst q)"
proof -
  have "p = (subs, e) \<or> p \<in> set fs"
    using assms(1) set_update_subset_insert [of fs k "(subs, e)"] by auto
  then show ?thesis
    using assms(2-4) nth_mem [OF assms(2)] by force
qed

lemma sys_step_inv:
  assumes "sys_inv s" "sys_step env s a s'"
  shows "sys_inv s'"
  using assms(2)
proof cases
  case (push n1 n2 e0 rb e c subs)
  then show ?thesis
    using assms(1) push_locked_total [of "st_ring (sy_store s)" env n1 n2 "sy_ctr s" e0]
    by (auto simp: sys_inv_def chans_inv_ring dest: chans_inv_subs)
next
  case (push_panic n1 n2 e0 p)
  then show ?thesis
    using assms(1) push_locked_total [of "st_ring (sy_store s)" env n1 n2 "sy_ctr s" e0]
    by (auto simp: sys_inv_def)
next
  case (notify k sub subs e chs)
  have c: "sub < st_next (sy_store s)" "chans_inv (sy_store s)"
    using assms(1) notify nth_mem [of k "sy_inflight s"] by (auto simp: sys_inv_def)
  from c(2,1) have "chans_inv ((sy_store s)\<lparr>st_chans := chs\<rparr>)"
  proof (cases rule: try_send_cases [where e = e])
    case (2 ch)
    moreover have "length (ch_queue ch) \<le> chan_cap" using 2(1) c(2) by (auto simp: chans_inv_def)
    ultimately show ?thesis
      using notify(6) chans_inv_update [OF c(2) 2(1), of "deliver e ch"] by (simp add: deliver_queue)
  qed (use notify(6) in simp)
  moreover have "c < st_next (sy_store s)"
    if "p \<in> set ((sy_inflight s)[k := (subs, e)])" "c \<in> set (fst p)" for p c
    using inflight_update [OF that(1) notify(4,5) that(2)] assms(1) by (auto simp: sys_inv_def)
  ultimately show ?thesis
    using assms(1) notify by (auto simp: sys_inv_def)
next
  case (notify_panic k sub subs e p)
  have "sub < st_next (sy_store s)" "chans_inv (sy_store s)"
    using assms(1) notify_panic nth_mem [of k "sy_inflight s"] by (auto simp: sys_inv_def)
  then have "p = SendOnClosed"
    using notify_panic by (metis try_send_cases Inl_inject Inl_Inr_False)
  then show ?thesis using assms(1) notify_panic by (auto simp: sys_inv_def)
next
  case (new_id now)
  then show ?thesis using assms(1) by (simp add: sys_inv_def)
next
  case subscribe
  then show ?thesis
    using assms(1) chans_inv_Subscribe [of "sy_store s"]
    by (auto simp: sys_inv_def Subscribe_def Let_def less_Suc_eq)
next
  case (unsubscribe ch st)
  have "chans_inv (sy_store s)" using assms(1) by (simp add: sys_inv_def)
  from Unsubscribe_ok [OF this, of ch] have "chans_inv st" "st_next st = st_next (sy_store s)"
    "ring_ok (st_ring st) = ring_ok (st_ring (sy_store s))"
    using unsubscribe by (metis Inr_inject)+
  then show ?thesis
    using assms(1) unsubscribe by (simp add: sys_inv_def)
next
  case (unsubscribe_panic ch p)
  have "chans_inv (sy_store s)" using assms(1) by (simp add: sys_inv_def)
  then show ?thesis
    using unsubscribe_panic Unsubscribe_ok [of "sy_store s" ch] by auto
next
  case (receive c ch x xs)
  have "length (ch_queue ch) \<le> chan_cap" and ci: "chans_inv (sy_store s)"
    using assms(1) receive(4) by (auto simp: sys_inv_def chans_inv_def)
  then have "length xs \<le> chan_cap" using receive(5) by simp
  then have "chans_inv ((sy_store s)\<lparr>st_chans := (st_chans (sy_store s))(c \<mapsto> ch\<lparr>ch_queue := xs\<rparr>)\<rparr>)"
    using chans_inv_update [OF ci receive(4), of "ch\<lparr>ch_queue := xs\<rparr>"] by simp
  then show ?thesis using assms(1) receive by (auto simp: sys_inv_def)
next
  case clear
  then show ?thesis
    using assms(1) ring_ok_Clear [of "st_ring (sy_store s)"]
    by (auto simp: sys_inv_def Clear_def intro!: chans_inv_ring)
qed

text \<open>In a quiet run the channels of every snapshot stay open.\<close>

definition quiet_inv :: "sys \<Rightarrow> bool" where
  "quiet_inv s \<longleftrightarrow> sys_inv s \<and> sy_panic s = None
     \<and> (\<forall>p \<in> set (sy_inflight s). \<forall>c \<in> set (fst p).
          \<exists>ch. st_chans (sy_store s) c = Some ch \<and> \<not> ch_closed ch)"

lemma quiet_inv_init: "quiet_inv (init_sys capacity now)"
  using sys_inv_init [of capacity now] by (simp add: quiet_inv_def init_sys_def)

lemma quiet_step_inv:
  assumes q: "quiet_inv s" and st: "sys_step env s a s'" and qa: "quiet_action s a"
  shows "quiet_inv s'"
proof -
  have inv: "sys_inv s'" "sys_inv s" using q st sys_step_inv by (auto simp: quiet_inv_def)
  have ci: "chans_inv (sy_store s)" using inv by (simp add: sys_inv_def)
  from st show ?thesis
  proof cases
    case (push n1 n2 e0 rb e c subs)
    then have "subs = rb_subscribers (st_ring (sy_store s))"
      using inv push_locked_total [of "st_ring (sy_store s)" env n1 n2 "sy_ctr s" e0]
      by (auto simp: sys_inv_def)
    then show ?thesis
      using q push inv chans_inv_subs(2) [OF ci] by (auto simp: quiet_inv_def)
  next
    case (push_panic n1 n2 e0 p)
    then show ?thesis
      using inv push_locked_total [of "st_ring (sy_store s)" env n1 n2 "sy_ctr s" e0]
      by (auto simp: sys_inv_def)
  next
    case (notify k sub subs e chs)
    obtain ch where ch: "st_chans (sy_store s) sub = Some ch" "\<not> ch_closed ch"
      using q notify nth_mem [of k "sy_inflight s"] by (fastforce simp: quiet_inv_def)
    then have chs: "chs = (st_chans (sy_store s))(sub \<mapsto> deliver e ch)"
      using notify try_send_open [of "st_chans (sy_store s)" sub ch e] by simp
    have "\<exists>ch. chs c = Some ch \<and> \<not> ch_closed ch"
      if "p \<in> set ((sy_inflight s)[k := (subs, e)])" "c \<in> set (fst p)" for p c
      using inflight_update [OF that(1) notify(4,5) that(2)] q ch chs
      by (cases "c = sub") (auto simp: quiet_inv_def deliver_queue)
    then show ?thesis using q notify inv by (auto simp: quiet_inv_def)
  next
    case (notify_panic k sub subs e p)
    then show ?thesis
      using q nth_mem [of k "sy_inflight s"] try_send_open [of "st_chans (sy_store s)" sub _ e]
      by (fastforce simp: quiet_inv_def)
  next
    case (new_id now)
    then show ?thesis using q inv by (simp add: quiet_inv_def)
  next
    case subscribe
    then show ?thesis
      using q inv by (auto simp: quiet_inv_def Subscribe_def Let_def)
  next
    case (unsubscribe ch st)
    then have "\<forall>p \<in> set (sy_inflight s). ch \<notin> set (fst p)"
      using qa by (simp add: quiet_action_def list_all_iff)
    moreover have frame: "\<forall>c. c \<noteq> ch \<longrightarrow> st_chans st c = st_chans (sy_store s) c"
      using Unsubscribe_ok [OF ci, of ch] unsubscribe by (metis Inr_inject)
    ultimately have "\<forall>p \<in> set (sy_inflight s). \<forall>c \<in> set (fst p). st_chans st c = st_chans (sy_store s) c"
      by metis
    then show ?thesis
      using q inv unsubscribe by (simp add: quiet_inv_def)
  next
    case (unsubscribe_panic ch p)
    then show ?thesis using Unsubscribe_ok [OF ci, of ch] by auto
  next
    case (receive c ch x xs)
    then show ?thesis using q inv by (fastforce simp: quiet_inv_def)
  next
    case clear
    then show ?thesis using q inv by (auto simp: quiet_inv_def)
  qed
qed

section \<open>What the steps do to the ring\<close>

lemma ring_view_subscribers [simp]:
  "entries (rb\<lparr>rb_subscribers := xs\<rparr>) = entries rb"
  "index_complete (rb\<lparr>rb_subscribers := xs\<rparr>) = index_complete rb"
  by (simp_all add: entries_def slot_def index_complete_def)

lemma sys_step_no_panic: "sys_step env s a s' \<Longrightarrow> sy_panic s = None"
  by (auto elim: sys_step.cases)

lemma sys_step_push:
  assumes inv: "sys_inv s" and st: "sys_step env s (APush e0 n1 n2) s'"
    and fin: "finalizeEntry env n1 n2 (sy_ctr s) e0 = (e, c)"
  shows "entries (st_ring (sy_store s')) =
      spec_push (rb_capacity (st_ring (sy_store s))) (entries (st_ring (sy_store s))) e"
    and "rb_capacity (st_ring (sy_store s')) = rb_capacity (st_ring (sy_store s))"
    and "index_complete (st_ring (sy_store s)) \<Longrightarrow> ce_ID e \<notin> ce_ID ` set (entries (st_ring (sy_store s))) \<Longrightarrow>
      index_complete (st_ring (sy_store s'))"
    and "sy_ctr s' = c" and "sy_panic s' = None"
    and "sy_inflight s' = sy_inflight s @ [(rb_subscribers (st_ring (sy_store s)), e)]"
    and "rb_subscribers (st_ring (sy_store s')) = rb_subscribers (st_ring (sy_store s))"
    and "st_chans (sy_store s') = st_chans (sy_store s)"
proof -
  have ok: "ring_ok (st_ring (sy_store s))" using inv by (simp add: sys_inv_def)
  obtain rb where rb: "push_locked env n1 n2 (sy_ctr s) (st_ring (sy_store s)) e0
      = Inr (rb, e, c, rb_subscribers (st_ring (sy_store s)))"
    "entries rb = spec_push (rb_capacity (st_ring (sy_store s))) (entries (st_ring (sy_store s))) e"
    "rb_capacity rb = rb_capacity (st_ring (sy_store s))" "rb_subscribers rb = rb_subscribers (st_ring (sy_store s))"
    using push_locked_ok [OF ok fin] by metis
  have s': "s' = s\<lparr>sy_store := (sy_store s)\<lparr>st_ring := rb\<rparr>, sy_ctr := c,
      sy_inflight := sy_inflight s @ [(rb_subscribers (st_ring (sy_store s)), e)]\<rparr>" "sy_panic s = None"
    using st rb(1) by (auto elim: sys_step.cases)
  show "index_complete (st_ring (sy_store s'))"
    if "index_complete (st_ring (sy_store s))" "ce_ID e \<notin> ce_ID ` set (entries (st_ring (sy_store s)))"
    using push_locked_index [OF ok that(1) fin that(2) rb(1)] s' by simp
  show "entries (st_ring (sy_store s')) =
      spec_push (rb_capacity (st_ring (sy_store s))) (entries (st_ring (sy_store s))) e"
    "rb_capacity (st_ring (sy_store s')) = rb_capacity (st_ring (sy_store s))"
    "sy_ctr s' = c" "sy_panic s' = None"
    "sy_inflight s' = sy_inflight s @ [(rb_subscribers (st_ring (sy_store s)), e)]"
    "rb_subscribers (st_ring (sy_store s')) = rb_subscribers (st_ring (sy_store s))"
    "st_chans (sy_store s') = st_chans (sy_store s)"
    using rb(2-4) s' by simp_all
qed

lemma sys_step_frame:
  assumes "sys_step env s a s'" and "\<And>e n1 n2. a \<noteq> APush e n1 n2" and "a \<noteq> AClear"
  shows "\<exists>xs. st_ring (sy_store s') = (st_ring (sy_store s))\<lparr>rb_subscribers := xs\<rparr>"
proof -
  let ?rb = "st_ring (sy_store s)"
  have "st_ring (sy_store s') = ?rb \<or> (\<exists>xs. st_ring (sy_store s') = ?rb\<lparr>rb_subscribers := xs\<rparr>)"
    using assms(1)
  proof cases
    case subscribe
    then show ?thesis by (intro disjI2 exI) (simp add: Subscribe_def Let_def)
  next
    case (unsubscribe ch st)
    then show ?thesis by (auto simp: Unsubscribe_def go_bind_eq_Inr split: if_splits)
  next
    case push
    then show ?thesis using assms(2) by blast
  next
    case push_panic
    then show ?thesis using assms(2) by blast
  next
    case clear
    then show ?thesis using assms(3) by blast
  qed simp_all
  moreover have "?rb\<lparr>rb_subscribers := rb_subscribers ?rb\<rparr> = ?rb" by simp
  ultimately show ?thesis by metis
qed

lemma sys_step_ctr:
  "sys_step env s a s' \<Longrightarrow> (\<And>e n1 n2. a \<noteq> APush e n1 n2) \<Longrightarrow> (\<And>t. a \<noteq> ANewID t) \<Longrightarrow> sy_ctr s' = sy_ctr s"
  by (auto elim!: sys_step.cases)

lemma sys_step_clear: "sys_step env s AClear s' \<Longrightarrow> st_ring (sy_store s') = Clear (st_ring (sy_store s))"
  by (auto elim!: sys_step.cases)

lemma sys_step_inflight:
  assumes "sys_step env s a s'" "k < length (sy_inflight s)"
  shows "k < length (sy_inflight s')" and "snd (sy_inflight s' ! k) = snd (sy_inflight s ! k)"
    and "length (fst (sy_inflight s' ! k)) \<le> length (fst (sy_inflight s ! k))"
  using assms by (auto elim!: sys_step.cases simp: nth_append nth_list_update)

section \<open>Properties\<close>

text \<open>
  Safety of every interleaving: in every state that any interleaving of pushes,
  notifications, new identifiers, subscriptions, cancellations, receives and clears can reach, the ring is
  well formed and within capacity, no subscriber queue exceeds its 100 slots, and the only
  panic that can have occurred is a send on a closed channel (no index error, no nil
  dereference, no double close).
\<close>

theorem reachable_safe:
  assumes "reachable env capacity now s"
  shows "ring_ok (st_ring (sy_store s))
    \<and> length (entries (st_ring (sy_store s))) \<le> rb_capacity (st_ring (sy_store s))
    \<and> (\<forall>c ch. st_chans (sy_store s) c = Some ch \<longrightarrow> length (ch_queue ch) \<le> 100)
    \<and> (sy_panic s = None \<or> sy_panic s = Some SendOnClosed)"
proof -
  have "sys_inv s"
    using assms by (induction rule: reachable.induct) (auto intro: sys_inv_init sys_step_inv)
  then show ?thesis
    by (auto simp: sys_inv_def chans_inv_def chan_cap_def ring_ok_def ring_shape_def)
qed

theorem reachable_safe_witness:
  "ring_ok (st_ring (sy_store (init_sys 3 0))) \<and> sy_panic (init_sys 3 0) = None"
  using reachable_safe [OF reachable.init [of demo_env 3 0]] by (simp add: init_sys_def)

text \<open>
  A run up to the unlock of a push that has one subscriber in its snapshot, and what the next
  steps do. The run is quiet.
\<close>

lemma quiet_reachable_reachable: "quiet_reachable env capacity now s \<Longrightarrow> reachable env capacity now s"
  by (induction rule: quiet_reachable.induct) (auto intro: reachable.intros)

lemma subscribed_push:
  obtains s e where "quiet_reachable env capacity now s" "sy_panic s = None" "sy_inflight s = [([0], e)]"
    "rb_subscribers (st_ring (sy_store s)) = [0]" "st_chans (sy_store s) 0 = Some \<lparr> ch_queue = [], ch_closed = False \<rparr>"
proof -
  let ?s0 = "init_sys capacity now"
  define s1 where "s1 = ?s0\<lparr>sy_store := snd (Subscribe (sy_store ?s0))\<rparr>"
  have r1: "quiet_reachable env capacity now s1"
    unfolding s1_def by (rule quiet_step [OF quiet_init sys_step.subscribe]) (simp_all add: init_sys_def quiet_action_def)
  have s1: "rb_subscribers (st_ring (sy_store s1)) = [0]" "sy_panic s1 = None" "sy_inflight s1 = []"
    "st_chans (sy_store s1) 0 = Some \<lparr> ch_queue = [], ch_closed = False \<rparr>"
    by (simp_all add: s1_def init_sys_def Subscribe_def Let_def empty_ring_def)
  have "ring_ok (st_ring (sy_store s1))" by (simp add: s1_def init_sys_def Subscribe_def Let_def ring_ok_New)
  from push_locked_total [OF this, of env 0 0 "sy_ctr s1" zero_entry] obtain rb e c
    where p: "push_locked env 0 0 (sy_ctr s1) (st_ring (sy_store s1)) zero_entry = Inr (rb, e, c, [0])"
      "rb_subscribers rb = [0]"
    using s1(1) by auto
  let ?s = "s1\<lparr>sy_store := (sy_store s1)\<lparr>st_ring := rb\<rparr>, sy_ctr := c, sy_inflight := sy_inflight s1 @ [([0], e)]\<rparr>"
  have "quiet_reachable env capacity now ?s"
    by (rule quiet_step [OF r1 sys_step.push [OF s1(2) p(1)]]) (simp add: quiet_action_def)
  then show thesis by (rule that) (simp_all add: s1 p(2))
qed

lemma unsubscribe_only:
  assumes "rb_subscribers (st_ring st) = [0]" "st_chans st 0 = Some ch" "\<not> ch_closed ch"
  shows "Unsubscribe st 0 = Inr (st\<lparr>st_ring := (st_ring st)\<lparr>rb_subscribers := []\<rparr>,
      st_chans := (st_chans st)(0 \<mapsto> ch\<lparr>ch_closed := True\<rparr>)\<rparr>)"
  using assms by (simp add: Unsubscribe_def close_chan_def)

text \<open>
  \<^bold>\<open>C18\<close>. Closing a channel is the only danger: as long as no channel is closed while a push that
  has it in its snapshot is in flight, nothing has panicked, every channel that a push in
  flight has still to notify is open, so that its next notification succeeds, and no step of
  any goroutine panics, unless it closes such a channel.
\<close>

theorem quiet_runs_never_panic:
  assumes "quiet_reachable env capacity now s"
  shows "sy_panic s = None
    \<and> (\<forall>k < length (sy_inflight s). \<forall>c \<in> set (fst (sy_inflight s ! k)). \<exists>ch chs.
          st_chans (sy_store s) c = Some ch \<and> \<not> ch_closed ch
          \<and> try_send (st_chans (sy_store s)) c (snd (sy_inflight s ! k)) = Inr chs)
    \<and> (\<forall>a s'. sys_step env s a s' \<and> quiet_action s a \<longrightarrow> sy_panic s' = None)"
proof -
  have q: "quiet_inv s"
    using assms by (induction rule: quiet_reachable.induct) (auto intro: quiet_inv_init quiet_step_inv)
  have "\<exists>ch chs. st_chans (sy_store s) c = Some ch \<and> \<not> ch_closed ch
      \<and> try_send (st_chans (sy_store s)) c (snd (sy_inflight s ! k)) = Inr chs"
    if "k < length (sy_inflight s)" "c \<in> set (fst (sy_inflight s ! k))" for k c
    using q that try_send_open [of "st_chans (sy_store s)" c] nth_mem [OF that(1)] by (metis quiet_inv_def)
  then show ?thesis using q quiet_step_inv [OF q] by (auto simp: quiet_inv_def)
qed

text \<open>A quiet run with a push, its notification, and the departure of the subscriber.\<close>

lemma quiet_departure:
  "\<exists>s e t. quiet_reachable env capacity now s \<and> sy_inflight s = [([0], e)]
    \<and> quiet_reachable env capacity now t \<and> st_chans (sy_store t) 0 = Some \<lparr>ch_queue = [e], ch_closed = True\<rparr>"
proof -
  obtain s e where s: "quiet_reachable env capacity now s" "sy_panic s = None" "sy_inflight s = [([0], e)]"
    "rb_subscribers (st_ring (sy_store s)) = [0]" "st_chans (sy_store s) 0 = Some \<lparr> ch_queue = [], ch_closed = False \<rparr>"
    by (rule subscribed_push)
  let ?chs = "(st_chans (sy_store s))(0 \<mapsto> \<lparr>ch_queue = [e], ch_closed = False\<rparr>)"
  let ?t = "s\<lparr>sy_store := (sy_store s)\<lparr>st_chans := ?chs\<rparr>, sy_inflight := [([], e)]\<rparr>"
  have "try_send (st_chans (sy_store s)) 0 e = Inr ?chs" using s(5) by (simp add: try_send_def chan_cap_def)
  then have "sys_step env s (ANotify 0) ?t"
    using sys_step.notify [OF s(2), of 0 0 "[]" e ?chs env] s(3) by simp
  then have t: "quiet_reachable env capacity now ?t" by (rule quiet_step [OF s(1)]) (simp add: quiet_action_def)
  have u: "Unsubscribe (sy_store ?t) 0 = Inr ((sy_store ?t)\<lparr>st_ring := (st_ring (sy_store ?t))\<lparr>rb_subscribers := []\<rparr>,
      st_chans := ?chs(0 \<mapsto> \<lparr>ch_queue = [e], ch_closed = True\<rparr>)\<rparr>)"
    using unsubscribe_only [of "sy_store ?t"] s(4) by simp
  have "quiet_reachable env capacity now (?t\<lparr>sy_store := (sy_store ?t)\<lparr>st_ring := (st_ring (sy_store ?t))\<lparr>rb_subscribers := []\<rparr>,
      st_chans := ?chs(0 \<mapsto> \<lparr>ch_queue = [e], ch_closed = True\<rparr>)\<rparr>\<rparr>)"
    by (rule quiet_step [OF t sys_step.unsubscribe [OF _ u]]) (simp_all add: s(2) quiet_action_def)
  then show ?thesis using s(1,3) by (intro exI conjI) (assumption+, simp)
qed

theorem quiet_runs_never_panic_witness:
  "\<exists>s e t. quiet_reachable demo_env 3 0 s \<and> sy_inflight s = [([0], e)] \<and> sy_panic s = None
    \<and> (\<exists>ch. st_chans (sy_store s) 0 = Some ch \<and> \<not> ch_closed ch)
    \<and> quiet_reachable demo_env 3 0 t \<and> st_chans (sy_store t) 0 = Some \<lparr>ch_queue = [e], ch_closed = True\<rparr> \<and> sy_panic t = None"
proof -
  obtain s e t where r: "quiet_reachable demo_env 3 0 s" "sy_inflight s = [([0], e)]"
    "quiet_reachable demo_env 3 0 t" "st_chans (sy_store t) 0 = Some \<lparr>ch_queue = [e], ch_closed = True\<rparr>"
    using quiet_departure [of demo_env 3 0] by blast
  have "\<exists>ch. st_chans (sy_store s) 0 = Some ch \<and> \<not> ch_closed ch"
    using quiet_runs_never_panic [OF r(1)] r(2) by force
  then show ?thesis using r quiet_runs_never_panic [OF r(1)] quiet_runs_never_panic [OF r(3)] by blast
qed

text \<open>
  \<^bold>\<open>C19\<close>. The remaining panic does occur: for every capacity there is an interleaving (subscribe,
  a push up to its unlock, unsubscribe, the push's notification) after which the goroutine
  that records the exchange has panicked with a send on a closed channel.
\<close>

theorem push_unsubscribe_race:
  "\<exists>s. reachable env capacity now s \<and> sy_panic s = Some SendOnClosed"
proof -
  obtain s e where s: "quiet_reachable env capacity now s" "sy_panic s = None" "sy_inflight s = [([0], e)]"
    "rb_subscribers (st_ring (sy_store s)) = [0]" "st_chans (sy_store s) 0 = Some \<lparr> ch_queue = [], ch_closed = False \<rparr>"
    by (rule subscribed_push)
  obtain st where u: "Unsubscribe (sy_store s) 0 = Inr st" "st_chans st 0 = Some \<lparr> ch_queue = [], ch_closed = True \<rparr>"
    using unsubscribe_only [OF s(4,5)] by simp
  have r: "reachable env capacity now (s\<lparr>sy_store := st\<rparr>)"
    by (rule step [OF quiet_reachable_reachable [OF s(1)] sys_step.unsubscribe [OF s(2) u(1)]])
  have "sys_step env (s\<lparr>sy_store := st\<rparr>) (ANotify 0) ((s\<lparr>sy_store := st\<rparr>)\<lparr>sy_panic := Some SendOnClosed\<rparr>)"
    by (rule sys_step.notify_panic [where sub = 0 and subs = "[]" and e = e])
      (simp_all add: s(2,3) u(2) try_send_def)
  from step [OF r this] show ?thesis by (auto intro: exI)
qed

end
