(* ===== verification/Goper_Config.thy ===== *)
theory Goper_Config
  imports Go_Paths
begin

text \<open>
  \<^verbatim>\<open>internal/config\<close> and the command line of \<^verbatim>\<open>cmd/goper/main.go\<close>: the configuration record,
  its defaults, flag parsing as package \<^verbatim>\<open>flag\<close> does it, validation and derived settings.
  \<^verbatim>\<open>strconv.ParseInt(s, 0, 64)\<close>, \<^verbatim>\<open>regexp.Compile\<close> and the user's home directory are the
  components of \<open>cli_env\<close>.
\<close>

section \<open>The configuration\<close>

record config =
  cf_Port :: int
  cf_APIPort :: int
  cf_CADir :: string
  cf_Transparent :: bool
  cf_Verbose :: bool
  cf_BufferSize :: int
  cf_LogFormat :: string
  cf_LogLevel :: int
  cf_OutputDir :: string
  cf_OutputFormat :: string
  cf_NoCapture :: bool
  cf_RequestBodyLimit :: int64
  cf_ResponseBodyLimit :: int64
  cf_CaptureInclude :: string
  cf_CaptureExclude :: string

text \<open>\<^verbatim>\<open>slog.LevelInfo\<close> and \<^verbatim>\<open>slog.LevelDebug\<close>.\<close>

definition LevelInfo :: int where "LevelInfo = 0"
definition LevelDebug :: int where "LevelDebug = - 4"

definition Default :: config where
  "Default = \<lparr> cf_Port = 8080, cf_APIPort = 8081, cf_CADir = ''~/.goper/ca'', cf_Transparent = False,
     cf_Verbose = False, cf_BufferSize = 10000, cf_LogFormat = ''text'', cf_LogLevel = LevelInfo,
     cf_OutputDir = ''captures'', cf_OutputFormat = ''json'', cf_NoCapture = False,
     cf_RequestBodyLimit = 0, cf_ResponseBodyLimit = 1048576, cf_CaptureInclude = [],
     cf_CaptureExclude = [] \<rparr>"

section \<open>Flags\<close>

type_synonym regex = "string \<Rightarrow> bool"

record cli_env =
  parse_int :: "string \<Rightarrow> int option"
  regexp_Compile :: "string \<Rightarrow> string + regex"
  user_home :: "string option"

datatype flag_error = BadFlagSyntax string | FlagNotDefined string | HelpRequested
  | NeedsArgument string | InvalidValue string string

text \<open>The flag variables: the configuration and the local \<^verbatim>\<open>logFormat\<close> of \<^verbatim>\<open>parseConfig\<close>.\<close>

record flag_vars =
  fv_cfg :: config
  fv_logFormat :: string

datatype flag_kind = BoolFlag "bool \<Rightarrow> flag_vars \<Rightarrow> flag_vars"
  | IntFlag "int \<Rightarrow> flag_vars \<Rightarrow> flag_vars"
  | StringFlag "string \<Rightarrow> flag_vars \<Rightarrow> flag_vars"

definition on_cfg :: "(config \<Rightarrow> config) \<Rightarrow> flag_vars \<Rightarrow> flag_vars" where
  "on_cfg f v = v\<lparr>fv_cfg := f (fv_cfg v)\<rparr>"

definition flag_table :: "(string \<times> flag_kind) list" where
  "flag_table =
    [(''port'', IntFlag (\<lambda>x. on_cfg (\<lambda>c. c\<lparr>cf_Port := x\<rparr>))),
     (''api-port'', IntFlag (\<lambda>x. on_cfg (\<lambda>c. c\<lparr>cf_APIPort := x\<rparr>))),
     (''ca-dir'', StringFlag (\<lambda>x. on_cfg (\<lambda>c. c\<lparr>cf_CADir := x\<rparr>))),
     (''transparent'', BoolFlag (\<lambda>x. on_cfg (\<lambda>c. c\<lparr>cf_Transparent := x\<rparr>))),
     (''verbose'', BoolFlag (\<lambda>x. on_cfg (\<lambda>c. c\<lparr>cf_Verbose := x\<rparr>))),
     (''buffer'', IntFlag (\<lambda>x. on_cfg (\<lambda>c. c\<lparr>cf_BufferSize := x\<rparr>))),
     (''log-format'', StringFlag (\<lambda>x v. v\<lparr>fv_logFormat := x\<rparr>)),
     (''output-dir'', StringFlag (\<lambda>x. on_cfg (\<lambda>c. c\<lparr>cf_OutputDir := x\<rparr>))),
     (''output-format'', StringFlag (\<lambda>x. on_cfg (\<lambda>c. c\<lparr>cf_OutputFormat := x\<rparr>))),
     (''no-capture'', BoolFlag (\<lambda>x. on_cfg (\<lambda>c. c\<lparr>cf_NoCapture := x\<rparr>))),
     (''request-body-limit'', IntFlag (\<lambda>x. on_cfg (\<lambda>c. c\<lparr>cf_RequestBodyLimit := word_of_int x\<rparr>))),
     (''response-body-limit'', IntFlag (\<lambda>x. on_cfg (\<lambda>c. c\<lparr>cf_ResponseBodyLimit := word_of_int x\<rparr>))),
     (''capture-include'', StringFlag (\<lambda>x. on_cfg (\<lambda>c. c\<lparr>cf_CaptureInclude := x\<rparr>))),
     (''capture-exclude'', StringFlag (\<lambda>x. on_cfg (\<lambda>c. c\<lparr>cf_CaptureExclude := x\<rparr>)))]"

text \<open>\<^verbatim>\<open>strconv.ParseBool\<close>.\<close>

definition parse_bool :: "string \<Rightarrow> bool option" where
  "parse_bool s =
     (if s \<in> set [''1'', ''t'', ''T'', ''true'', ''TRUE'', ''True''] then Some True
      else if s \<in> set [''0'', ''f'', ''F'', ''false'', ''FALSE'', ''False''] then Some False
      else None)"

text \<open>
  One argument as \<^verbatim>\<open>FlagSet.parseOne\<close> sees it: the end of the flags, a malformed flag, or a
  name with an optional value after the first equals sign (which cannot come first).
\<close>

datatype flag_arg = EndOfFlags | Malformed | FlagArg string "string option"

definition split_flag :: "string \<Rightarrow> flag_arg" where
  "split_flag s =
     (if length s < 2 \<or> hd s \<noteq> CHR ''-'' then EndOfFlags
      else if s = ''--'' then EndOfFlags
      else
        let name = (if s ! 1 = CHR ''-'' then drop 2 s else drop 1 s) in
        if hd name = CHR ''-'' \<or> hd name = CHR ''='' then Malformed
        else (case index_byte (CHR ''='') name of
                None \<Rightarrow> FlagArg name None
              | Some i \<Rightarrow> FlagArg (take i name) (Some (drop (i + 1) name))))"

definition set_flag :: "cli_env \<Rightarrow> flag_kind \<Rightarrow> string \<Rightarrow> flag_vars \<Rightarrow> flag_vars option" where
  "set_flag env k value v =
     (case k of
        BoolFlag f \<Rightarrow> map_option (\<lambda>b. f b v) (parse_bool value)
      | IntFlag f \<Rightarrow> map_option (\<lambda>i. f i v) (parse_int env value)
      | StringFlag f \<Rightarrow> Some (f value v))"

definition is_bool_flag :: "flag_kind \<Rightarrow> bool" where
  "is_bool_flag k \<longleftrightarrow> (case k of BoolFlag _ \<Rightarrow> True | _ \<Rightarrow> False)"

fun parse_flags :: "cli_env \<Rightarrow> flag_vars \<Rightarrow> string list \<Rightarrow> flag_error + flag_vars" where
  "parse_flags env v [] = Inr v"
| "parse_flags env v (s # args) =
     (case split_flag s of
        EndOfFlags \<Rightarrow> Inr v
      | Malformed \<Rightarrow> Inl (BadFlagSyntax s)
      | FlagArg name val \<Rightarrow>
          (case map_of flag_table name of
             None \<Rightarrow> Inl (if name = ''help'' \<or> name = ''h'' then HelpRequested else FlagNotDefined name)
           | Some k \<Rightarrow>
               (case (val, is_bool_flag k, args) of
                  (Some x, _, _) \<Rightarrow>
                    (case set_flag env k x v of None \<Rightarrow> Inl (InvalidValue name x) | Some v' \<Rightarrow> parse_flags env v' args)
                | (None, True, _) \<Rightarrow>
                    (case set_flag env k ''true'' v of None \<Rightarrow> Inl (InvalidValue name ''true'') | Some v' \<Rightarrow> parse_flags env v' args)
                | (None, False, []) \<Rightarrow> Inl (NeedsArgument name)
                | (None, False, x # args') \<Rightarrow>
                    (case set_flag env k x v of None \<Rightarrow> Inl (InvalidValue name x) | Some v' \<Rightarrow> parse_flags env v' args'))))"

section \<open>Validation and derived settings\<close>

datatype config_error = FlagError flag_error | InvalidOutputFormat | InvalidRegex string string

definition validOutputFormat :: "string \<Rightarrow> bool" where
  "validOutputFormat f \<longleftrightarrow> f = ''json'' \<or> f = ''ndjson''"

definition validateCaptureRegex :: "cli_env \<Rightarrow> string \<Rightarrow> string \<Rightarrow> config_error option" where
  "validateCaptureRegex env name pattern =
     (if pattern = [] then None
      else (case regexp_Compile env pattern of Inl err \<Rightarrow> Some (InvalidRegex name err) | Inr _ \<Rightarrow> None))"

definition validateConfig :: "cli_env \<Rightarrow> config \<Rightarrow> config_error option" where
  "validateConfig env cfg =
     (if \<not> validOutputFormat (cf_OutputFormat cfg) then Some InvalidOutputFormat
      else (case validateCaptureRegex env ''--capture-include'' (cf_CaptureInclude cfg) of
              Some err \<Rightarrow> Some err
            | None \<Rightarrow> validateCaptureRegex env ''--capture-exclude'' (cf_CaptureExclude cfg)))"

definition applyDerivedSettings :: "config \<Rightarrow> string \<Rightarrow> config" where
  "applyDerivedSettings cfg logFormat =
     (let cfg1 = (if cf_Verbose cfg then cfg\<lparr>cf_LogLevel := LevelDebug\<rparr> else cfg)
      in if logFormat = ''json'' then cfg1\<lparr>cf_LogFormat := ''json''\<rparr> else cfg1)"

text \<open>\<^verbatim>\<open>strings.Replace(path, "~", home, 1)\<close>: the first occurrence, wherever it is.\<close>

fun replace_first :: "char \<Rightarrow> string \<Rightarrow> string \<Rightarrow> string" where
  "replace_first c r [] = []"
| "replace_first c r (x # xs) = (if x = c then r @ xs else x # replace_first c r xs)"

definition expandHomeDir :: "cli_env \<Rightarrow> string \<Rightarrow> string" where
  "expandHomeDir env path =
     (case user_home env of Some home \<Rightarrow> replace_first (CHR ''~'') home path | None \<Rightarrow> path)"

definition parseConfig :: "cli_env \<Rightarrow> string list \<Rightarrow> config_error + config" where
  "parseConfig env args =
     (case parse_flags env \<lparr>fv_cfg = Default, fv_logFormat = ''text''\<rparr> args of
        Inl err \<Rightarrow> Inl (FlagError err)
      | Inr v \<Rightarrow>
          (case validateConfig env (fv_cfg v) of
             Some err \<Rightarrow> Inl err
           | None \<Rightarrow>
               let cfg = applyDerivedSettings (fv_cfg v) (fv_logFormat v)
               in Inr (cfg\<lparr>cf_CADir := expandHomeDir env (cf_CADir cfg)\<rparr>)))"

section \<open>Rendering a configuration as arguments\<close>

definition bool_arg :: "bool \<Rightarrow> string" where
  "bool_arg b = (if b then ''true'' else ''false'')"

definition flag_text :: "string \<Rightarrow> string \<Rightarrow> string" where
  "flag_text name value = ''--'' @ name @ CHR ''='' # value"

definition render_args :: "config \<Rightarrow> string list" where
  "render_args c = map (\<lambda>(n, x). flag_text n x)
    [(''port'', itoa (cf_Port c)), (''api-port'', itoa (cf_APIPort c)), (''ca-dir'', cf_CADir c),
     (''transparent'', bool_arg (cf_Transparent c)), (''verbose'', bool_arg (cf_Verbose c)),
     (''buffer'', itoa (cf_BufferSize c)), (''log-format'', cf_LogFormat c),
     (''output-dir'', cf_OutputDir c), (''output-format'', cf_OutputFormat c),
     (''no-capture'', bool_arg (cf_NoCapture c)),
     (''request-body-limit'', itoa (sint (cf_RequestBodyLimit c))),
     (''response-body-limit'', itoa (sint (cf_ResponseBodyLimit c))),
     (''capture-include'', cf_CaptureInclude c), (''capture-exclude'', cf_CaptureExclude c)]"

lemma split_flag_text:
  assumes "name \<noteq> []" "hd name \<noteq> CHR ''-''" "CHR ''='' \<notin> set name"
  shows "split_flag (flag_text name value) = FlagArg name (Some value)"
proof -
  have "hd name \<noteq> CHR ''=''" using assms(1,3) by (metis hd_in_set)
  then show ?thesis
    using assms index_byte_append [of "CHR ''=''" name "value"]
    by (simp add: split_flag_def flag_text_def)
qed

lemma parse_flags_text:
  assumes "name \<noteq> []" "hd name \<noteq> CHR ''-''" "CHR ''='' \<notin> set name"
    "map_of flag_table name = Some k" "set_flag env k value v = Some v'"
  shows "parse_flags env v (flag_text name value # args) = parse_flags env v' args"
  using assms by (simp add: split_flag_text)

declare parse_flags.simps(2) [simp del]

lemma parse_bool_arg [simp]: "parse_bool (bool_arg b) = Some b"
  by (simp add: parse_bool_def bool_arg_def)

text \<open>Decimal numerals in the range of \<^verbatim>\<open>int64\<close> are read as written.\<close>

definition reads_decimals :: "cli_env \<Rightarrow> bool" where
  "reads_decimals env \<longleftrightarrow> (\<forall>i. - (2 ^ 63) \<le> i \<and> i < 2 ^ 63 \<longrightarrow> parse_int env (itoa i) = Some i)"

definition in_int64 :: "int \<Rightarrow> bool" where
  "in_int64 i \<longleftrightarrow> - (2 ^ 63) \<le> i \<and> i < 2 ^ 63"

lemma reads_decimals_at [simp]: "reads_decimals env \<Longrightarrow> in_int64 i \<Longrightarrow> parse_int env (itoa i) = Some i"
  by (simp add: reads_decimals_def in_int64_def)

lemma in_int64_sint [simp]: "in_int64 (sint (w :: int64))"
  using sint_int64_bounds [of w] by (simp add: in_int64_def)

text \<open>A configuration the command line can express.\<close>

definition cli_config :: "cli_env \<Rightarrow> config \<Rightarrow> bool" where
  "cli_config env c \<longleftrightarrow> in_int64 (cf_Port c) \<and> in_int64 (cf_APIPort c) \<and> in_int64 (cf_BufferSize c)
     \<and> (cf_LogFormat c = ''text'' \<or> cf_LogFormat c = ''json'')
     \<and> cf_LogLevel c = (if cf_Verbose c then LevelDebug else LevelInfo)
     \<and> validateConfig env c = None"

lemma parse_flags_render:
  assumes "reads_decimals env" "in_int64 (cf_Port c)" "in_int64 (cf_APIPort c)" "in_int64 (cf_BufferSize c)"
  shows "parse_flags env v (render_args c)
    = Inr \<lparr>fv_cfg = c\<lparr>cf_LogFormat := cf_LogFormat (fv_cfg v), cf_LogLevel := cf_LogLevel (fv_cfg v)\<rparr>,
           fv_logFormat = cf_LogFormat c\<rparr>"
  unfolding render_args_def list.map prod.case
  by (subst parse_flags_text, simp, simp, simp, simp add: flag_table_def,
      simp add: set_flag_def on_cfg_def assms, (rule refl)?)+ (simp add: on_cfg_def)

text \<open>Parsing returns validated configurations only.\<close>

lemma validateConfig_derived:
  "validateConfig env ((applyDerivedSettings c f)\<lparr>cf_CADir := d\<rparr>) = validateConfig env c"
  by (simp add: validateConfig_def applyDerivedSettings_def Let_def split: option.splits)

lemma parseConfig_valid:
  assumes "parseConfig env args = Inr c"
  shows "validateConfig env c = None"
proof -
  obtain v where v: "parse_flags env \<lparr>fv_cfg = Default, fv_logFormat = ''text''\<rparr> args = Inr v"
    using assms by (cases "parse_flags env \<lparr>fv_cfg = Default, fv_logFormat = ''text''\<rparr> args")
      (simp_all add: parseConfig_def)
  then have "validateConfig env (fv_cfg v) = None"
    using assms by (simp add: parseConfig_def split: option.splits)
  moreover from this v have "c = (applyDerivedSettings (fv_cfg v) (fv_logFormat v))
           \<lparr>cf_CADir := expandHomeDir env (cf_CADir (applyDerivedSettings (fv_cfg v) (fv_logFormat v)))\<rparr>"
    using assms by (simp add: parseConfig_def Let_def)
  ultimately show ?thesis by (simp only: validateConfig_derived)
qed

lemma validateConfig_regexes:
  "validateConfig env c = None \<Longrightarrow>
     validateCaptureRegex env ''--capture-include'' (cf_CaptureInclude c) = None
     \<and> validateCaptureRegex env ''--capture-exclude'' (cf_CaptureExclude c) = None"
  by (auto simp: validateConfig_def split: if_splits option.splits)

definition demo_cli :: cli_env where
  "demo_cli = \<lparr> parse_int = atoi, regexp_Compile = (\<lambda>p. Inr (\<lambda>s. contains s p)), user_home = Some ''/root'' \<rparr>"

section \<open>Properties\<close>

text \<open>
  \<^bold>\<open>C37\<close>. The command line can express every valid configuration: rendering a configuration as
  flags and parsing them gives the same configuration back, with only the home directory
  expanded in the CA directory.
\<close>

theorem parseConfig_render:
  assumes "reads_decimals env" "cli_config env c"
  shows "parseConfig env (render_args c) = Inr (c\<lparr>cf_CADir := expandHomeDir env (cf_CADir c)\<rparr>)"
proof -
  let ?c = "c\<lparr>cf_LogFormat := ''text'', cf_LogLevel := LevelInfo\<rparr>"
  have "parse_flags env \<lparr>fv_cfg = Default, fv_logFormat = ''text''\<rparr> (render_args c)
      = Inr \<lparr>fv_cfg = ?c, fv_logFormat = cf_LogFormat c\<rparr>"
    using parse_flags_render [OF assms(1), of c] assms(2) by (simp add: cli_config_def Default_def)
  moreover have "validateConfig env ?c = None"
    using assms(2) by (simp add: cli_config_def validateConfig_def split: if_splits option.splits)
  moreover have "applyDerivedSettings ?c (cf_LogFormat c) = c"
    using assms(2) by (cases c) (auto simp: applyDerivedSettings_def cli_config_def Let_def)
  ultimately show ?thesis by (simp add: parseConfig_def)
qed

theorem parseConfig_render_witness:
  "parseConfig demo_cli (render_args (Default\<lparr>cf_Verbose := True, cf_LogLevel := LevelDebug\<rparr>))
     = Inr ((Default\<lparr>cf_Verbose := True, cf_LogLevel := LevelDebug\<rparr>)\<lparr>cf_CADir := ''/root/.goper/ca''\<rparr>)"
proof -
  have "reads_decimals demo_cli" by (simp add: reads_decimals_def demo_cli_def atoi_itoa)
  moreover have "cli_config demo_cli (Default\<lparr>cf_Verbose := True, cf_LogLevel := LevelDebug\<rparr>)"
    by (simp add: cli_config_def Default_def in_int64_def validateConfig_def validOutputFormat_def
        validateCaptureRegex_def)
  ultimately show ?thesis
    using parseConfig_render [of demo_cli "Default\<lparr>cf_Verbose := True, cf_LogLevel := LevelDebug\<rparr>"]
    by (simp add: Default_def expandHomeDir_def demo_cli_def)
qed

text \<open>
  A tilde inside the CA directory is expanded as well: the home directory replaces the first
  tilde of the path wherever it stands, not only a leading one, so a directory such as
  \<^verbatim>\<open>/data/ca~old\<close> is silently redirected.
\<close>

theorem expandHomeDir_inner_tilde:
  assumes "user_home env = Some home" "CHR ''~'' \<notin> set p"
  shows "expandHomeDir env (p @ CHR ''~'' # q) = p @ home @ q \<and> expandHomeDir env p = p"
proof -
  have "replace_first (CHR ''~'') home (p @ CHR ''~'' # q) = p @ home @ q"
    "replace_first (CHR ''~'') home p = p"
    using assms(2) by (induction p) auto
  then show ?thesis
    using assms(1) by (simp_all add: expandHomeDir_def)
qed

theorem expandHomeDir_inner_tilde_witness:
  "expandHomeDir demo_cli ''/data/ca~old'' = ''/data/ca/rootold''"
  using expandHomeDir_inner_tilde [of demo_cli "''/root''" "''/data/ca''" "''old''"]
  by (simp add: demo_cli_def)

end
