(* ===== verification/Proxy_Server.thy ===== *)
theory Proxy_Server
  imports Ring_Store Output_Writers Goper_Config
begin

text \<open>
  \<^verbatim>\<open>internal/proxy/proxy.go\<close> and \<^verbatim>\<open>proxy_body.go\<close>: what the proxy does with a request and a
  response that pass through it. The forwarding itself is the library \<^verbatim>\<open>goproxy\<close>; it calls
  the two handlers modelled here and sends on the request or response they return. Compiled
  filters are predicates on strings; the outputs are functions on the state they write to.
  The recorder and the store are used through their models, the outputs through the
  contract of \<^verbatim>\<open>Writer\<close> that they return.
\<close>

section \<open>Responses\<close>

record http_response =
  rp_StatusCode :: int
  rp_Header :: http_header
  rp_ContentLength :: int64
  rp_Body :: "reader option"

definition isStreamingContentType :: "std_env \<Rightarrow> string \<Rightarrow> bool" where
  "isStreamingContentType env contentType \<longleftrightarrow>
     (let ct = NormalizeMediaType env contentType in
      ct = ''text/event-stream'' \<or> ct = ''multipart/x-mixed-replace'')"

definition isStreamingResponse :: "std_env \<Rightarrow> http_response \<Rightarrow> bool" where
  "isStreamingResponse env resp \<longleftrightarrow>
     sint (rp_ContentLength resp) < 0 \<and> isStreamingContentType env (header_get (rp_Header resp) ''Content-Type'')"

definition unlimitedReadSafetyCap :: int64 where
  "unlimitedReadSafetyCap = 67108864"

definition readForCapture :: "reader \<Rightarrow> int64 \<Rightarrow> int64 \<Rightarrow> (string \<times> go_error) \<times> reader" where
  "readForCapture body contentLength limit =
     (if 0 < sint limit then ReadAllLimit (limit + 1) body
      else if 0 \<le> sint contentLength then ReadAll body
      else ReadAllLimit unlimitedReadSafetyCap body)"

definition captureExceededLimit :: "http_response \<Rightarrow> string \<Rightarrow> int64 \<Rightarrow> bool" where
  "captureExceededLimit resp buffered limit \<longleftrightarrow>
     (if 0 < sint limit then of_nat (length buffered) = limit + 1
      else sint (rp_ContentLength resp) < 0 \<and> of_nat (length buffered) = unlimitedReadSafetyCap)"

text \<open>The result is the buffered prefix or the read error, with the rewired response.\<close>

definition readAndRewire :: "http_response \<Rightarrow> int64 \<Rightarrow> ((string + string) \<times> http_response) go" where
  "readAndRewire resp limit =
     go_bind (go_deref (rp_Body resp)) (\<lambda>body.
     case readForCapture body (rp_ContentLength resp) limit of ((buffered, err), rest) \<Rightarrow>
       let resp' = resp\<lparr>rp_Body := Some (prepend buffered rest)\<rparr> in
       Inr (case err of Some e \<Rightarrow> (Inl e, resp') | None \<Rightarrow> (Inr buffered, resp')))"

definition canReadBody :: "std_env \<Rightarrow> http_response \<Rightarrow> bool" where
  "canReadBody env resp \<longleftrightarrow> rp_Body resp \<noteq> None \<and> \<not> isStreamingResponse env resp"

record body_read =
  br_body :: string
  br_truncated :: bool
  br_skipped :: bool
  br_err :: go_error

definition readBodyBounded :: "std_env \<Rightarrow> http_response \<Rightarrow> int64 \<Rightarrow> (body_read \<times> http_response) go" where
  "readBodyBounded env resp limit =
     (if \<not> canReadBody env resp
      then Inr (\<lparr>br_body = [], br_truncated = False, br_skipped = (rp_Body resp \<noteq> None), br_err = None\<rparr>, resp)
      else go_bind (readAndRewire resp limit) (\<lambda>(r, resp').
        Inr (case r of
               Inl e \<Rightarrow> (\<lparr>br_body = [], br_truncated = False, br_skipped = False, br_err = Some e\<rparr>, resp')
             | Inr buffered \<Rightarrow>
                 (\<lparr>br_body = buffered, br_truncated = captureExceededLimit resp' buffered limit,
                   br_skipped = False, br_err = None\<rparr>, resp'))))"

definition fixContentLength :: "http_response \<Rightarrow> string \<Rightarrow> bool \<Rightarrow> http_response" where
  "fixContentLength resp bodyBytes truncated =
     (if truncated then resp\<lparr>rp_ContentLength := - 1\<rparr>
      else resp\<lparr>rp_ContentLength := of_nat (length bodyBytes)\<rparr>)"

section \<open>The server\<close>

type_synonym 'w entry_output = "captured_entry option \<Rightarrow> 'w \<Rightarrow> (go_error \<times> 'w) go"

record 'w server =
  sv_recorder :: default_recorder
  sv_responseBodyLimit :: int64
  sv_includeRE :: "regex option"
  sv_excludeRE :: "regex option"
  sv_outputs :: "'w entry_output list"

text \<open>What the handlers change: the store, the identifier counter and what the outputs write to.\<close>

record 'w proxy_world =
  pw_store :: store
  pw_counter :: int64
  pw_out :: 'w

text \<open>The clock readings of one response: duration, identifier, time stamp, and the two of \<^verbatim>\<open>Push\<close>.\<close>

record clocks =
  ck_duration :: go_time
  ck_id :: go_time
  ck_stamp :: go_time
  ck_push_id :: go_time
  ck_push_stamp :: go_time

record captureCtx =
  cc_entry :: captured_entry
  cc_start :: go_time

definition compileCaptureRegex :: "cli_env \<Rightarrow> string \<Rightarrow> string \<Rightarrow> string + regex option" where
  "compileCaptureRegex cenv name pattern =
     (if pattern = [] then Inr None
      else (case regexp_Compile cenv pattern of
              Inl err \<Rightarrow> Inl (''invalid '' @ name @ '' regex '' @ pattern @ '': '' @ err)
            | Inr re \<Rightarrow> Inr (Some re)))"

definition configureCaptureRegexes :: "cli_env \<Rightarrow> 'w server \<Rightarrow> config \<Rightarrow> string + 'w server" where
  "configureCaptureRegexes cenv s cfg =
     (case compileCaptureRegex cenv ''--capture-include'' (cf_CaptureInclude cfg) of
        Inl err \<Rightarrow> Inl err
      | Inr include \<Rightarrow>
          (case compileCaptureRegex cenv ''--capture-exclude'' (cf_CaptureExclude cfg) of
             Inl err \<Rightarrow> Inl err
           | Inr exclude \<Rightarrow> Inr (s\<lparr>sv_includeRE := include, sv_excludeRE := exclude\<rparr>)))"

text \<open>\<^verbatim>\<open>NewServer\<close>, given the outcome of loading the CA; it returns the server and its store.\<close>

definition NewServer ::
  "cli_env \<Rightarrow> (string + 'ca) \<Rightarrow> go_time \<Rightarrow> config \<Rightarrow> (string + ('w server \<times> store \<times> 'ca)) go" where
  "NewServer cenv loadedCA now cfg =
     (case loadedCA of
        Inl err \<Rightarrow> Inr (Inl (''load CA: '' @ err))
      | Inr ca \<Rightarrow> go_bind (NewRingBuffer (cf_BufferSize cfg) now) (\<lambda>rb.
          let st = \<lparr>st_ring = rb, st_chans = Map.empty, st_next = 0\<rparr>;
              s = \<lparr>sv_recorder = NewDefaultRecorder (cf_RequestBodyLimit cfg) (cf_ResponseBodyLimit cfg),
                   sv_responseBodyLimit = cf_ResponseBodyLimit cfg,
                   sv_includeRE = None, sv_excludeRE = None, sv_outputs = []\<rparr>
          in (case configureCaptureRegexes cenv s cfg of
                Inl err \<Rightarrow> Inr (Inl err)
              | Inr s' \<Rightarrow> Inr (Inr (s', st, ca)))))"

definition AddOutput :: "'w server \<Rightarrow> 'w entry_output \<Rightarrow> 'w server" where
  "AddOutput s w = s\<lparr>sv_outputs := sv_outputs s @ [w]\<rparr>"

section \<open>Handlers\<close>

definition regexAllows :: "regex option \<Rightarrow> string \<Rightarrow> bool" where
  "regexAllows re url \<longleftrightarrow> (case re of None \<Rightarrow> True | Some m \<Rightarrow> m url)"

definition regexExcludes :: "regex option \<Rightarrow> string \<Rightarrow> bool" where
  "regexExcludes re url \<longleftrightarrow> (case re of None \<Rightarrow> False | Some m \<Rightarrow> m url)"

definition shouldCapture :: "std_env \<Rightarrow> 'w server \<Rightarrow> http_request \<Rightarrow> bool" where
  "shouldCapture env s r \<longleftrightarrow>
     (let url = url_string env (rq_URL r) in
      regexAllows (sv_includeRE s) url \<and> \<not> regexExcludes (sv_excludeRE s) url)"

definition handleRequest ::
  "std_env \<Rightarrow> 'w server \<Rightarrow> go_time \<Rightarrow> http_request \<Rightarrow> http_request \<times> captureCtx option" where
  "handleRequest env s now r =
     (if \<not> shouldCapture env s r then (r, None)
      else (case recorder_CaptureRequest env (sv_recorder s) r of (entry, r') \<Rightarrow>
              (r', Some \<lparr>cc_entry = entry, cc_start = now\<rparr>)))"

text \<open>The loop over the outputs; errors are only logged.\<close>

fun write_outputs :: "'w entry_output list \<Rightarrow> captured_entry \<Rightarrow> 'w \<Rightarrow> 'w go" where
  "write_outputs [] e out = Inr out"
| "write_outputs (w # ws) e out = go_bind (w (Some e) out) (\<lambda>(err, out'). write_outputs ws e out')"

definition push_exchange ::
  "std_env \<Rightarrow> 'w server \<Rightarrow> clocks \<Rightarrow> captureCtx \<Rightarrow> http_response \<Rightarrow> string \<Rightarrow> 'w proxy_world
     \<Rightarrow> (captured_entry \<times> 'w proxy_world) go" where
  "push_exchange env s ck data resp bodyBytes w =
     (let result = recorder_CaptureResponse env (sv_recorder s) (rp_StatusCode resp) (rp_Header resp)
                     bodyBytes (cc_start data) (ck_duration ck) in
      case recorder_CombineEntry env (sv_recorder s) (ck_id ck) (ck_stamp ck) (pw_counter w) (cc_entry data) result of
        (fullEntry, c) \<Rightarrow>
          go_bind (Push env (ck_push_id ck) (ck_push_stamp ck) c (pw_store w) fullEntry) (\<lambda>(st, e, c').
          Inr (e, w\<lparr>pw_store := st, pw_counter := c'\<rparr>)))"

definition captureStreaming ::
  "std_env \<Rightarrow> 'w server \<Rightarrow> clocks \<Rightarrow> captureCtx \<Rightarrow> http_response \<Rightarrow> 'w proxy_world \<Rightarrow> 'w proxy_world go" where
  "captureStreaming env s ck data resp w =
     go_bind (push_exchange env s ck data resp [] w) (\<lambda>(e, w'). Inr w')"

definition captureResponse ::
  "std_env \<Rightarrow> 'w server \<Rightarrow> clocks \<Rightarrow> captureCtx \<Rightarrow> http_response \<Rightarrow> string \<Rightarrow> 'w proxy_world
     \<Rightarrow> 'w proxy_world go" where
  "captureResponse env s ck data resp bodyBytes w =
     go_bind (push_exchange env s ck data resp bodyBytes w) (\<lambda>(e, w').
     go_bind (write_outputs (sv_outputs s) e (pw_out w')) (\<lambda>out. Inr (w'\<lparr>pw_out := out\<rparr>)))"

definition recordResponse ::
  "std_env \<Rightarrow> 'w server \<Rightarrow> clocks \<Rightarrow> captureCtx \<Rightarrow> http_response \<Rightarrow> 'w proxy_world
     \<Rightarrow> (http_response \<times> 'w proxy_world) go" where
  "recordResponse env s ck data resp w =
     go_bind (readBodyBounded env resp (sv_responseBodyLimit s)) (\<lambda>(b, resp1).
     if br_err b \<noteq> None then Inr (resp1, w)
     else if br_skipped b
     then go_bind (captureStreaming env s ck data resp1 w) (\<lambda>w'. Inr (resp1, w'))
     else
       let resp2 = fixContentLength resp1 (br_body b) (br_truncated b) in
       go_bind (captureResponse env s ck data resp2 (br_body b) w) (\<lambda>w'. Inr (resp2, w')))"

definition responseData :: "captureCtx option \<Rightarrow> http_response option \<Rightarrow> (captureCtx \<times> http_response) option" where
  "responseData ctx resp =
     (case (ctx, resp) of (Some data, Some r) \<Rightarrow> Some (data, r) | _ \<Rightarrow> None)"

definition handleResponse ::
  "std_env \<Rightarrow> 'w server \<Rightarrow> clocks \<Rightarrow> captureCtx option \<Rightarrow> http_response option \<Rightarrow> 'w proxy_world
     \<Rightarrow> (http_response option \<times> 'w proxy_world) go" where
  "handleResponse env s ck ctx resp w =
     (case responseData ctx resp of
        None \<Rightarrow> Inr (resp, w)
      | Some (data, r) \<Rightarrow>
          go_bind (recordResponse env s ck data r w) (\<lambda>(r', w'). Inr (Some r', w')))"

section \<open>Reading a body for capture\<close>

lemma readForCapture_split:
  assumes "readForCapture r cl limit = ((b, err), rest)"
  shows "prepend b rest = r" and "err = None \<or> err = rd_err r"
  using assms by (auto simp: readForCapture_def ReadAll_def ReadAllLimit_def Let_def split: if_splits)

text \<open>Whatever is read for capture, the response stays as it was for the client.\<close>

lemma readAndRewire_total:
  assumes "rp_Body resp = Some r"
  shows "\<exists>v. readAndRewire resp limit = Inr (v, resp)"
proof -
  obtain b err rest where eq: "readForCapture r (rp_ContentLength resp) limit = ((b, err), rest)"
    by (metis prod.exhaust)
  have "resp\<lparr>rp_Body := Some (prepend b rest)\<rparr> = resp"
    using readForCapture_split(1) [OF eq] assms by simp
  then show ?thesis
    using assms eq by (cases err) (simp_all add: readAndRewire_def Let_def)
qed

lemma readBodyBounded_total: "\<exists>b. readBodyBounded env resp limit = Inr (b, resp)"
proof (cases "canReadBody env resp")
  case True
  then obtain r where "rp_Body resp = Some r" by (auto simp: canReadBody_def)
  then obtain v where "readAndRewire resp limit = Inr (v, resp)" using readAndRewire_total by blast
  then show ?thesis using True by (cases v) (simp_all add: readBodyBounded_def)
qed (simp add: readBodyBounded_def)

text \<open>The part of a body that is buffered for capture, and whether the body goes on after it.\<close>

definition captured_prefix :: "http_response \<Rightarrow> int64 \<Rightarrow> string \<Rightarrow> string" where
  "captured_prefix resp limit bytes =
     (if 0 < sint limit then take (nat (sint limit + 1)) bytes
      else if 0 \<le> sint (rp_ContentLength resp) then bytes
      else take 67108864 bytes)"

definition cut_off :: "http_response \<Rightarrow> int64 \<Rightarrow> string \<Rightarrow> bool" where
  "cut_off resp limit bytes \<longleftrightarrow>
     (if 0 < sint limit then sint limit < int (length bytes)
      else sint (rp_ContentLength resp) < 0 \<and> 67108864 \<le> length bytes)"

lemma of_nat_eq_word64: "n < 2 ^ 63 \<Longrightarrow> of_nat n = (x :: int64) \<longleftrightarrow> int n = sint x"
  by (metis signed_word_eqI sint_of_nat64)

lemma readBodyBounded_eof:
  assumes "canReadBody env resp" "rp_Body resp = Some r" "rd_err r = None"
    and "sint limit < 2 ^ 63 - 1" "length (rd_bytes r) < 2 ^ 63"
  shows "readBodyBounded env resp limit =
    Inr (\<lparr>br_body = captured_prefix resp limit (rd_bytes r), br_truncated = cut_off resp limit (rd_bytes r),
          br_skipped = False, br_err = None\<rparr>, resp)"
proof -
  let ?b = "captured_prefix resp limit (rd_bytes r)"
  have cap: "sint unlimitedReadSafetyCap = 67108864" by (simp add: unlimitedReadSafetyCap_def)
  have suc: "sint (limit + 1) = sint limit + 1" if "0 < sint limit"
    using that assms(4) by (intro sint_Suc64) auto
  have "fst (fst (readForCapture r (rp_ContentLength resp) limit)) = ?b"
    using suc cap by (simp add: readForCapture_def captured_prefix_def ReadAllLimit_def ReadAll_def Let_def)
  then obtain err rest where rd: "readForCapture r (rp_ContentLength resp) limit = ((?b, err), rest)"
    by (metis prod.collapse)
  have err: "err = None" using readForCapture_split(2) [OF rd] assms(3) by auto
  have rew: "resp\<lparr>rp_Body := Some (prepend ?b rest)\<rparr> = resp"
    using readForCapture_split(1) [OF rd] assms(2) by simp
  have "readAndRewire resp limit = Inr (Inr ?b, resp)"
    using assms(2) rd err rew by (simp add: readAndRewire_def Let_def)
  moreover have "captureExceededLimit resp ?b limit = cut_off resp limit (rd_bytes r)"
  proof (cases "0 < sint limit")
    case True
    then have "length ?b < 2 ^ 63" using assms(5) by (simp add: captured_prefix_def)
    with True show ?thesis
      using suc by (auto simp: captureExceededLimit_def cut_off_def of_nat_eq_word64 captured_prefix_def min_def)
  next
    case False
    have "length ?b < 2 ^ 63" using assms(5) False by (auto simp: captured_prefix_def)
    with False show ?thesis
      using cap by (auto simp: captureExceededLimit_def cut_off_def of_nat_eq_word64 captured_prefix_def min_def)
  qed
  ultimately show ?thesis using assms(1) by (simp add: readBodyBounded_def)
qed

text \<open>Reading the body treats responses that differ in credentials alike.\<close>

lemma readBodyBounded_header:
  assumes "same_but_credentials env h h'"
  shows "\<exists>b body. readBodyBounded env (resp\<lparr>rp_Header := h\<rparr>) l = Inr (b, resp\<lparr>rp_Body := body, rp_Header := h\<rparr>)
    \<and> readBodyBounded env (resp\<lparr>rp_Header := h'\<rparr>) l = Inr (b, resp\<lparr>rp_Body := body, rp_Header := h'\<rparr>)"
proof (cases "canReadBody env (resp\<lparr>rp_Header := h\<rparr>)")
  case False
  then have "\<not> canReadBody env (resp\<lparr>rp_Header := h'\<rparr>)"
    using header_get_content_type_cong [OF assms] by (simp add: canReadBody_def isStreamingResponse_def)
  with False show ?thesis by (cases resp) (simp add: readBodyBounded_def)
next
  case True
  then have t: "canReadBody env (resp\<lparr>rp_Header := h'\<rparr>)"
    using header_get_content_type_cong [OF assms] by (simp add: canReadBody_def isStreamingResponse_def)
  obtain r where r: "rp_Body resp = Some r" using True by (auto simp: canReadBody_def)
  obtain b err rest where "readForCapture r (rp_ContentLength resp) l = ((b, err), rest)" by (metis surj_pair)
  with True t r show ?thesis
    by (cases resp; cases err)
      (auto simp: readBodyBounded_def readAndRewire_def captureExceededLimit_def go_deref_def)
qed

section \<open>Recording an exchange\<close>

definition outputs_total :: "'w entry_output list \<Rightarrow> bool" where
  "outputs_total ws \<longleftrightarrow> (\<forall>w \<in> set ws. \<forall>p out. \<exists>r. w p out = Inr r)"

lemma write_outputs_total: "outputs_total ws \<Longrightarrow> \<exists>out'. write_outputs ws e out = Inr out'"
proof (induction ws arbitrary: out)
  case (Cons w ws)
  obtain r where "w (Some e) out = Inr r" using Cons.prems unfolding outputs_total_def by (metis list.set_intros(1))
  then show ?case using Cons by (cases r) (auto simp: outputs_total_def)
qed simp

text \<open>The entry of an exchange, before and after \<^verbatim>\<open>Push\<close> has completed it.\<close>

definition exchange_entry ::
  "std_env \<Rightarrow> 'w server \<Rightarrow> clocks \<Rightarrow> captureCtx \<Rightarrow> http_response \<Rightarrow> string \<Rightarrow> int64 \<Rightarrow> captured_entry" where
  "exchange_entry env s ck data resp bodyBytes c =
     fst (finalizeEntry env (ck_push_id ck) (ck_push_stamp ck) (c + 1)
       (fst (CombineEntry env (ck_id ck) (ck_stamp ck) c (cc_entry data)
          (recorder_CaptureResponse env (sv_recorder s) (rp_StatusCode resp) (rp_Header resp)
             bodyBytes (cc_start data) (ck_duration ck)))))"

lemma push_exchange_ok:
  fixes env :: std_env and s :: "'w server" and ck :: clocks and data :: captureCtx
    and resp :: http_response and w :: "'w proxy_world" and bodyBytes :: string
  assumes "store_ok (pw_store w)"
  defines "e \<equiv> exchange_entry env s ck data resp bodyBytes (pw_counter w)"
  shows "\<exists>st'. push_exchange env s ck data resp bodyBytes w
        = Inr (e, w\<lparr>pw_store := st', pw_counter := pw_counter w + 1\<rparr>)
      \<and> store_ok st' \<and> rb_capacity (st_ring st') = rb_capacity (st_ring (pw_store w))
      \<and> entries (st_ring st') = spec_push (rb_capacity (st_ring (pw_store w))) (entries (st_ring (pw_store w))) e
      \<and> keeps_index (pw_store w) e st'"
proof -
  let ?res = "recorder_CaptureResponse env (sv_recorder s) (rp_StatusCode resp) (rp_Header resp)
      bodyBytes (cc_start data) (ck_duration ck)"
  obtain e0 where e0: "CombineEntry env (ck_id ck) (ck_stamp ck) (pw_counter w) (cc_entry data) ?res
      = (e0, pw_counter w + 1)" "ce_ID e0 \<noteq> []"
    by (auto simp: CombineEntry_def NewEntryID_def Let_def)
  have "finalizeEntry env (ck_push_id ck) (ck_push_stamp ck) (pw_counter w + 1) e0 = (e, pw_counter w + 1)"
    using e0 by (auto simp: e_def exchange_entry_def finalizeEntry_def Let_def)
  from Push_store_ok [OF assms(1) this] show ?thesis
    using e0(1) by (auto simp: push_exchange_def recorder_CombineEntry_def Let_def)
qed

lemma exchange_entry_fields:
  fixes env :: std_env and s :: "'w server" and ck :: clocks and data :: captureCtx
    and resp :: http_response and c :: int64 and bodyBytes :: string
  defines "e \<equiv> exchange_entry env s ck data resp bodyBytes c"
  shows "ce_Method e = ce_Method (cc_entry data)" "ce_URL e = ce_URL (cc_entry data)"
    "ce_Host e = ce_Host (cc_entry data)" "ce_Scheme e = ce_Scheme (cc_entry data)"
    "ce_Path e = ce_Path (cc_entry data)" "ce_RequestBody e = ce_RequestBody (cc_entry data)"
    "ce_RequestHeaders e = ce_RequestHeaders (cc_entry data)"
    "ce_StatusCode e = rp_StatusCode resp"
    "ce_ResponseHeaders e = headersToMap env (rp_Header resp)"
    "ce_ResponseBody e = cr_ResponseBody (recorder_CaptureResponse env (sv_recorder s) (rp_StatusCode resp)
        (rp_Header resp) bodyBytes (cc_start data) (ck_duration ck))"
    "ce_ID e = fst (NewEntryID env (ck_id ck) c)"
  unfolding e_def exchange_entry_def finalizeEntry_def CombineEntry_def NewEntryID_def
  by (simp_all add: Let_def recorder_CaptureResponse_def CaptureResponse_def)

lemma captureResponse_ok:
  fixes env :: std_env and s :: "'w server" and ck :: clocks and data :: captureCtx
    and resp :: http_response and w :: "'w proxy_world" and bodyBytes :: string
  assumes "store_ok (pw_store w)" "outputs_total (sv_outputs s)"
  defines "e \<equiv> exchange_entry env s ck data resp bodyBytes (pw_counter w)"
  shows "\<exists>w'. captureResponse env s ck data resp bodyBytes w = Inr w' \<and> store_ok (pw_store w')
      \<and> entries (st_ring (pw_store w')) = spec_push (rb_capacity (st_ring (pw_store w))) (entries (st_ring (pw_store w))) e
      \<and> write_outputs (sv_outputs s) e (pw_out w) = Inr (pw_out w') \<and> keeps_index (pw_store w) e (pw_store w')"
proof -
  obtain st' where "push_exchange env s ck data resp bodyBytes w
        = Inr (e, w\<lparr>pw_store := st', pw_counter := pw_counter w + 1\<rparr>)" "store_ok st'"
      "entries (st_ring st') = spec_push (rb_capacity (st_ring (pw_store w))) (entries (st_ring (pw_store w))) e"
      "keeps_index (pw_store w) e st'"
    using push_exchange_ok [OF assms(1)] unfolding e_def by blast
  moreover obtain out where "write_outputs (sv_outputs s) e (pw_out w) = Inr out"
    using write_outputs_total [OF assms(2)] by blast
  ultimately show ?thesis by (simp add: captureResponse_def)
qed

lemma captureStreaming_ok:
  fixes env :: std_env and s :: "'w server" and ck :: clocks and data :: captureCtx
    and resp :: http_response and w :: "'w proxy_world"
  assumes "store_ok (pw_store w)"
  defines "e \<equiv> exchange_entry env s ck data resp [] (pw_counter w)"
  shows "\<exists>w'. captureStreaming env s ck data resp w = Inr w' \<and> store_ok (pw_store w')
      \<and> entries (st_ring (pw_store w')) = spec_push (rb_capacity (st_ring (pw_store w))) (entries (st_ring (pw_store w))) e
      \<and> pw_out w' = pw_out w"
proof -
  obtain st' where "push_exchange env s ck data resp [] w
        = Inr (e, w\<lparr>pw_store := st', pw_counter := pw_counter w + 1\<rparr>)" "store_ok st'"
      "entries (st_ring st') = spec_push (rb_capacity (st_ring (pw_store w))) (entries (st_ring (pw_store w))) e"
    using push_exchange_ok [OF assms(1)] unfolding e_def by blast
  then show ?thesis by (simp add: captureStreaming_def)
qed

text \<open>Recording never panics and leaves everything but the announced length alone.\<close>

lemma recordResponse_total:
  assumes "store_ok (pw_store w)" "outputs_total (sv_outputs s)"
  shows "\<exists>cl w'. recordResponse env s ck data resp w = Inr (resp\<lparr>rp_ContentLength := cl\<rparr>, w')
      \<and> store_ok (pw_store w')"
proof -
  obtain b where b: "readBodyBounded env resp (sv_responseBodyLimit s) = Inr (b, resp)"
    using readBodyBounded_total by blast
  consider (err) "br_err b \<noteq> None" | (skip) "br_err b = None" "br_skipped b" | (rec) "br_err b = None" "\<not> br_skipped b"
    by blast
  then show ?thesis
  proof cases
    case err
    then show ?thesis
      using b assms(1) by (intro exI [of _ "rp_ContentLength resp"] exI [of _ w]) (simp add: recordResponse_def)
  next
    case skip
    obtain w' where "captureStreaming env s ck data resp w = Inr w'" "store_ok (pw_store w')"
      using captureStreaming_ok [OF assms(1)] by blast
    then show ?thesis
      using skip b by (intro exI [of _ "rp_ContentLength resp"] exI [of _ w']) (simp add: recordResponse_def)
  next
    case rec
    let ?r = "fixContentLength resp (br_body b) (br_truncated b)"
    obtain w' where "captureResponse env s ck data ?r (br_body b) w = Inr w'" "store_ok (pw_store w')"
      using captureResponse_ok [OF assms] by blast
    then show ?thesis using rec b by (auto simp: recordResponse_def Let_def fixContentLength_def)
  qed
qed

lemma recordResponse_eof:
  assumes "store_ok (pw_store w)" "outputs_total (sv_outputs s)"
    and "canReadBody env resp" "rp_Body resp = Some r" "rd_err r = None"
    and "sint (sv_responseBodyLimit s) < 2 ^ 63 - 1" "length (rd_bytes r) < 2 ^ 63"
  defines "b \<equiv> captured_prefix resp (sv_responseBodyLimit s) (rd_bytes r)"
    and "resp' \<equiv> fixContentLength resp (captured_prefix resp (sv_responseBodyLimit s) (rd_bytes r))
                   (cut_off resp (sv_responseBodyLimit s) (rd_bytes r))"
  shows "\<exists>w'. recordResponse env s ck data resp w = Inr (resp', w') \<and> store_ok (pw_store w')
      \<and> entries (st_ring (pw_store w')) = spec_push (rb_capacity (st_ring (pw_store w)))
          (entries (st_ring (pw_store w))) (exchange_entry env s ck data resp' b (pw_counter w))
      \<and> write_outputs (sv_outputs s) (exchange_entry env s ck data resp' b (pw_counter w)) (pw_out w) = Inr (pw_out w')
      \<and> keeps_index (pw_store w) (exchange_entry env s ck data resp' b (pw_counter w)) (pw_store w')"
  using captureResponse_ok [OF assms(1,2), of env ck data resp' b] readBodyBounded_eof [OF assms(3-7)]
  by (auto simp: recordResponse_def b_def resp'_def Let_def)

section \<open>Properties\<close>

definition demo_response :: http_response where
  "demo_response = \<lparr>rp_StatusCode = 200, rp_Header = [''Content-Type'' \<mapsto> [''text/plain'']],
     rp_ContentLength = 5, rp_Body = Some \<lparr>rd_bytes = ''hello'', rd_err = None\<rparr>\<rparr>"

definition demo_server :: "int64 \<Rightarrow> os_state server" where
  "demo_server limit = \<lparr>sv_recorder = NewDefaultRecorder 0 limit, sv_responseBodyLimit = limit,
     sv_includeRE = None, sv_excludeRE = Some (\<lambda>u. contains u ''/login''),
     sv_outputs = [NDJSONBodyWriter_WriteEntry demo_env OSFileSystem ''/out'']\<rparr>"

definition demo_world :: "os_state proxy_world" where
  "demo_world = \<lparr>pw_store = demo_store, pw_counter = 0, pw_out = demo_os\<rparr>"

definition demo_clocks :: clocks where
  "demo_clocks = \<lparr>ck_duration = 9, ck_id = 10, ck_stamp = 11, ck_push_id = 12, ck_push_stamp = 13\<rparr>"

definition demo_ctx :: captureCtx where
  "demo_ctx = \<lparr>cc_entry = demo_entry ''q'', cc_start = 4\<rparr>"

lemma demo_world_ok: "store_ok (pw_store demo_world)" "outputs_total (sv_outputs (demo_server limit))"
proof -
  show "store_ok (pw_store demo_world)"
    using demo_store_ok by (simp add: demo_world_def store_ok_def)
  show "outputs_total (sv_outputs (demo_server limit))"
    using ndjson_w.no_panic unfolding demo_server_def outputs_total_def by simp
qed

lemma demo_can_read: "canReadBody demo_env (demo_response\<lparr>rp_ContentLength := 5\<rparr>)" "canReadBody demo_env demo_response"
  by (simp_all add: canReadBody_def demo_response_def isStreamingResponse_def)

text \<open>
  \<^bold>\<open>C5\<close>. Recording is invisible to the client: for every captured or uncaptured response, every limit
  and every kind of body (failing ones included), the response handler returns without
  panicking and the response it hands on has the status, the headers and exactly the body
  that came from the upstream; the store stays well formed.
\<close>

theorem handleResponse_transparent:
  assumes "store_ok (pw_store w)" "outputs_total (sv_outputs s)"
  shows "\<exists>resp' w'. handleResponse env s ck ctx (Some resp) w = Inr (Some resp', w')
    \<and> rp_Body resp' = rp_Body resp \<and> rp_StatusCode resp' = rp_StatusCode resp
    \<and> rp_Header resp' = rp_Header resp \<and> store_ok (pw_store w')"
proof (cases ctx)
  case None
  then show ?thesis using assms(1) by (simp add: handleResponse_def responseData_def)
next
  case (Some data)
  obtain cl w' where "recordResponse env s ck data resp w = Inr (resp\<lparr>rp_ContentLength := cl\<rparr>, w')"
    "store_ok (pw_store w')"
    using recordResponse_total [OF assms] by blast
  then show ?thesis using Some by (simp add: handleResponse_def responseData_def)
qed

theorem handleResponse_transparent_witness:
  "\<exists>resp' w'. handleResponse demo_env (demo_server 3) demo_clocks (Some demo_ctx) (Some demo_response) demo_world
       = Inr (Some resp', w')
    \<and> rp_Body resp' = rp_Body demo_response \<and> rp_StatusCode resp' = rp_StatusCode demo_response
    \<and> rp_Header resp' = rp_Header demo_response \<and> store_ok (pw_store w')"
  by (rule handleResponse_transparent [OF demo_world_ok])

text \<open>
  \<^bold>\<open>C21\<close>. The announced length is right: for a body that is read for capture and ends normally, with
  a limit below the largest \<^verbatim>\<open>int64\<close>, the handler announces the exact number of bytes the
  client will receive, or an unknown length (\<open>-1\<close>) exactly when the body was cut off for
  capture (longer than a positive limit; or, without a limit, of unknown length and at
  least 64 MiB long).
\<close>

theorem handleResponse_content_length:
  assumes "store_ok (pw_store w)" "outputs_total (sv_outputs s)"
    and "canReadBody env resp" "rp_Body resp = Some r" "rd_err r = None"
    and "sint (sv_responseBodyLimit s) < 2 ^ 63 - 1" "length (rd_bytes r) < 2 ^ 63"
  shows "\<exists>resp' w'. handleResponse env s ck (Some data) (Some resp) w = Inr (Some resp', w')
    \<and> sint (rp_ContentLength resp') =
        (if cut_off resp (sv_responseBodyLimit s) (rd_bytes r) then - 1 else int (length (rd_bytes r)))"
proof -
  let ?l = "sv_responseBodyLimit s"
  have "captured_prefix resp ?l (rd_bytes r) = rd_bytes r" if "\<not> cut_off resp ?l (rd_bytes r)"
    using that by (auto simp: captured_prefix_def cut_off_def split: if_splits)
  then have "sint (rp_ContentLength (fixContentLength resp (captured_prefix resp ?l (rd_bytes r))
      (cut_off resp ?l (rd_bytes r)))) = (if cut_off resp ?l (rd_bytes r) then - 1 else int (length (rd_bytes r)))"
    using assms(7) by (simp add: fixContentLength_def)
  then show ?thesis
    using recordResponse_eof [OF assms, of ck data] by (auto simp: handleResponse_def responseData_def)
qed

theorem handleResponse_content_length_witness:
  "\<exists>resp' w'. handleResponse demo_env (demo_server 3) demo_clocks (Some demo_ctx) (Some demo_response) demo_world
       = Inr (Some resp', w') \<and> sint (rp_ContentLength resp') = - 1"
  using handleResponse_content_length [OF demo_world_ok demo_can_read(2), of "\<lparr>rd_bytes = ''hello'', rd_err = None\<rparr>" 3
      demo_clocks demo_ctx]
  by (simp add: demo_server_def demo_response_def cut_off_def)

text \<open>
  \<^bold>\<open>C38\<close>. At the largest \<^verbatim>\<open>int64\<close> the bound \<^verbatim>\<open>limit+1\<close> wraps: with that response limit nothing is
  buffered and every readable response, whatever its body, is announced to the client as
  having length 0 while its body is still attached.
\<close>

theorem response_limit_wraps:
  assumes "store_ok (pw_store w)" "outputs_total (sv_outputs s)"
    and "canReadBody env resp" "rp_Body resp = Some r" "sv_responseBodyLimit s = 2 ^ 63 - 1"
  shows "\<exists>resp' w'. handleResponse env s ck (Some data) (Some resp) w = Inr (Some resp', w')
    \<and> rp_ContentLength resp' = 0 \<and> rp_Body resp' = Some r"
proof -
  have "readForCapture r (rp_ContentLength resp) (2 ^ 63 - 1) = (([], None), r)"
    by (simp add: readForCapture_def ReadAllLimit_def)
  then have "readAndRewire resp (2 ^ 63 - 1) = Inr (Inr [], resp)"
    using assms(4) by (simp add: readAndRewire_def prepend_def)
  then have b: "readBodyBounded env resp (sv_responseBodyLimit s) =
      Inr (\<lparr>br_body = [], br_truncated = False, br_skipped = False, br_err = None\<rparr>, resp)"
    using assms(3) by (simp add: readBodyBounded_def assms(5) captureExceededLimit_def)
  obtain w' where "captureResponse env s ck data (fixContentLength resp [] False) [] w = Inr w'"
    using captureResponse_ok [OF assms(1,2)] by blast
  with b show ?thesis
    using assms(4) by (simp add: handleResponse_def responseData_def recordResponse_def fixContentLength_def)
qed

theorem response_limit_wraps_witness:
  "\<exists>resp' w'. handleResponse demo_env (demo_server (2 ^ 63 - 1)) demo_clocks (Some demo_ctx) (Some demo_response) demo_world
       = Inr (Some resp', w')
     \<and> rp_ContentLength resp' = 0 \<and> rp_Body resp' = Some \<lparr>rd_bytes = ''hello'', rd_err = None\<rparr>"
  by (rule response_limit_wraps [OF demo_world_ok demo_can_read(2)])
    (simp_all add: demo_response_def demo_server_def)

text \<open>
  \<^bold>\<open>C20\<close>. A captured exchange becomes exactly one entry. Suppose that the store is well formed, that no
  output panics, that proxy and recorder share a response limit below the largest int64,
  that the response is not a stream and its body ends normally, is shorter than \<open>2 ^ 63\<close> bytes
  and is not cut off by the safety cap of an unlimited capture. Then the exchange is stored
  as one new entry, the newest of the ring, with the data of the request and the status of
  the response, and that same entry is what every output receives, in order. Its body is the
  whole upstream body if that is not empty, printable or JSON, and within the limit (if
  that is positive), and is absent otherwise.
\<close>

theorem handleResponse_records:
  assumes "store_ok (pw_store w)" "outputs_total (sv_outputs s)"
    and "canReadBody env resp" "rp_Body resp = Some r" "rd_err r = None"
    and "sint (sv_responseBodyLimit s) < 2 ^ 63 - 1" "length (rd_bytes r) < 2 ^ 63"
    and "ResponseBodyLimit (sv_recorder s) = sv_responseBodyLimit s"
    and "0 < sint (sv_responseBodyLimit s) \<or> \<not> cut_off resp (sv_responseBodyLimit s) (rd_bytes r)"
  shows "\<exists>resp' w' e. handleResponse env s ck (Some data) (Some resp) w = Inr (Some resp', w')
    \<and> entries (st_ring (pw_store w')) =
        spec_push (rb_capacity (st_ring (pw_store w))) (entries (st_ring (pw_store w))) e
    \<and> write_outputs (sv_outputs s) e (pw_out w) = Inr (pw_out w')
    \<and> ce_Method e = ce_Method (cc_entry data) \<and> ce_URL e = ce_URL (cc_entry data)
    \<and> ce_RequestBody e = ce_RequestBody (cc_entry data) \<and> ce_StatusCode e = rp_StatusCode resp
    \<and> ce_ResponseBody e =
        (if rd_bytes r \<noteq> []
            \<and> (isPrintable (rd_bytes r) \<or> IsJSONContentType env (header_get (rp_Header resp) ''Content-Type''))
            \<and> (sint (sv_responseBodyLimit s) \<le> 0 \<or> int (length (rd_bytes r)) \<le> sint (sv_responseBodyLimit s))
         then Some (rd_bytes r) else None)"
proof -
  let ?l = "sv_responseBodyLimit s"
  define b resp' where "b = captured_prefix resp ?l (rd_bytes r)"
    and "resp' = fixContentLength resp (captured_prefix resp ?l (rd_bytes r)) (cut_off resp ?l (rd_bytes r))"
  define e where "e = exchange_entry env s ck data resp' b (pw_counter w)"
  have r: "rp_StatusCode resp' = rp_StatusCode resp" "rp_Header resp' = rp_Header resp"
    by (simp_all add: resp'_def fixContentLength_def)
  have "ce_ResponseBody e = (if rd_bytes r \<noteq> []
            \<and> (isPrintable (rd_bytes r) \<or> IsJSONContentType env (header_get (rp_Header resp) ''Content-Type''))
            \<and> (sint ?l \<le> 0 \<or> int (length (rd_bytes r)) \<le> sint ?l)
         then Some (rd_bytes r) else None)"
  proof (cases "cut_off resp ?l (rd_bytes r)")
    case True
    then have "0 < sint ?l" "sint ?l < int (length (rd_bytes r))"
      using assms(9) by (auto simp: cut_off_def split: if_splits)
    moreover from this have "overLimit ?l (length b)"
      by (simp add: overLimit_def b_def captured_prefix_def)
    ultimately show ?thesis
      using assms(8) by (auto simp: e_def exchange_entry_fields recorder_CaptureResponse_def CaptureResponse_def
          captureBody_def drop_over_def Let_def split: option.splits)
  next
    case False
    then have "b = rd_bytes r" "\<not> overLimit ?l (length (rd_bytes r))"
      by (auto simp: b_def captured_prefix_def cut_off_def overLimit_def split: if_splits)
    then show ?thesis
      using assms(8) r False by (auto simp: e_def exchange_entry_fields recorder_CaptureResponse_def CaptureResponse_def
          captureBody_def worthCapturing_def drop_over_def cut_off_def Let_def split: if_splits)
  qed
  moreover have "ce_Method e = ce_Method (cc_entry data)" "ce_URL e = ce_URL (cc_entry data)"
    "ce_RequestBody e = ce_RequestBody (cc_entry data)" "ce_StatusCode e = rp_StatusCode resp"
    using r by (simp_all add: e_def exchange_entry_fields)
  moreover obtain w' where "handleResponse env s ck (Some data) (Some resp) w = Inr (Some resp', w')"
    "entries (st_ring (pw_store w')) =
        spec_push (rb_capacity (st_ring (pw_store w))) (entries (st_ring (pw_store w))) e"
    "write_outputs (sv_outputs s) e (pw_out w) = Inr (pw_out w')"
    using recordResponse_eof [OF assms(1-7), of ck data]
    by (auto simp: handleResponse_def responseData_def e_def b_def resp'_def)
  ultimately show ?thesis by blast
qed

theorem handleResponse_records_witness:
  "\<exists>resp' w' e. handleResponse demo_env (demo_server 5) demo_clocks (Some demo_ctx) (Some demo_response) demo_world
       = Inr (Some resp', w')
    \<and> entries (st_ring (pw_store w')) = spec_push 2 (entries (st_ring demo_store)) e
    \<and> ce_ResponseBody e = Some ''hello''"
proof -
  have "isPrintable ''hello''"
    by (simp add: isPrintable_def runes_ascii isPrintableChar_def)
  moreover have "rb_capacity (st_ring demo_store) = 2"
    by (simp add: demo_store_def empty_ring_def)
  ultimately show ?thesis
    using handleResponse_records [OF demo_world_ok demo_can_read(2), of "\<lparr>rd_bytes = ''hello'', rd_err = None\<rparr>" 5
        demo_clocks demo_ctx]
    by (simp add: demo_server_def demo_response_def cut_off_def NewDefaultRecorder_def demo_world_def) blast
qed

text \<open>
  \<^bold>\<open>C22\<close>. Filtered traffic passes untouched: a request whose URL the include filter does not match,
  or the exclude filter matches, is forwarded unchanged, whatever its body does, and its
  response is forwarded unchanged too, with nothing stored, no identifier used up and
  nothing written. Every other request is captured; it is forwarded unchanged if it has no
  body or a body that is read without an error.
\<close>

theorem filters_decide_capture:
  "(let url = url_string env (rq_URL req);
        wanted = ((\<forall>m. sv_includeRE s = Some m \<longrightarrow> m url) \<and> (\<forall>m. sv_excludeRE s = Some m \<longrightarrow> \<not> m url));
        (req', ctx) = handleRequest env s now req
    in (ctx \<noteq> None) = wanted
       \<and> (\<not> wanted \<longrightarrow> req' = req \<and> handleResponse env s ck ctx resp w = Inr (resp, w))
       \<and> (wanted \<and> (\<forall>rd. rq_Body req = Some rd \<longrightarrow> rd_err rd = None) \<longrightarrow> req' = req))"
proof -
  let ?url = "url_string env (rq_URL req)"
  have sc: "shouldCapture env s req \<longleftrightarrow>
      (\<forall>m. sv_includeRE s = Some m \<longrightarrow> m ?url) \<and> (\<forall>m. sv_excludeRE s = Some m \<longrightarrow> \<not> m ?url)"
    by (auto simp: shouldCapture_def regexAllows_def regexExcludes_def Let_def split: option.splits)
  have "snd (recorder_CaptureRequest env (sv_recorder s) req) = req" if "\<forall>rd. rq_Body req = Some rd \<longrightarrow> rd_err rd = None"
    by (rule default_rec.request_kept) (use that in blast)
  then show ?thesis
    unfolding Let_def sc [symmetric]
    by (auto simp: handleRequest_def handleResponse_def responseData_def split: prod.splits)
qed

theorem filters_decide_capture_witness:
  "handleRequest demo_env (demo_server 0) 4 demo_request = (demo_request, None)
     \<and> handleResponse demo_env (demo_server 0) demo_clocks None (Some demo_response) demo_world
        = Inr (Some demo_response, demo_world)"
  using filters_decide_capture [where env = demo_env and req = demo_request and s = "demo_server 0" and now = 4
      and ck = demo_clocks and resp = "Some demo_response" and w = demo_world]
  by (auto simp: demo_request_def demo_server_def demo_env_def Let_def split: prod.splits)

text \<open>
  \<^bold>\<open>C23\<close>. Streams are never buffered: an event stream or a multipart replacement stream of unknown
  length is handed on exactly as it is (body, headers and unknown length), is recorded as
  one entry without a body, and no output is written.
\<close>

theorem handleResponse_streaming:
  assumes "store_ok (pw_store w)" "isStreamingResponse env resp" "rp_Body resp \<noteq> None"
  shows "\<exists>w' e. handleResponse env s ck (Some data) (Some resp) w = Inr (Some resp, w')
    \<and> entries (st_ring (pw_store w')) =
        spec_push (rb_capacity (st_ring (pw_store w))) (entries (st_ring (pw_store w))) e
    \<and> ce_ResponseBody e = None \<and> ce_StatusCode e = rp_StatusCode resp \<and> pw_out w' = pw_out w"
proof -
  define e where "e = exchange_entry env s ck data resp [] (pw_counter w)"
  have "ce_ResponseBody e = None" "ce_StatusCode e = rp_StatusCode resp"
    by (simp_all add: e_def exchange_entry_fields recorder_CaptureResponse_def CaptureResponse_def
        captureBody_def drop_over_def Let_def)
  then show ?thesis
    using captureStreaming_ok [OF assms(1), of env s ck data resp] assms(2,3)
    by (auto simp: handleResponse_def responseData_def recordResponse_def readBodyBounded_def canReadBody_def e_def)
qed

theorem handleResponse_streaming_witness:
  "\<exists>w' e. handleResponse demo_env (demo_server 3) demo_clocks (Some demo_ctx)
       (Some (demo_response\<lparr>rp_ContentLength := - 1, rp_Header := [''Content-Type'' \<mapsto> [''text/event-stream'']]\<rparr>)) demo_world
     = Inr (Some (demo_response\<lparr>rp_ContentLength := - 1, rp_Header := [''Content-Type'' \<mapsto> [''text/event-stream'']]\<rparr>), w')
    \<and> entries (st_ring (pw_store w')) =
        spec_push (rb_capacity (st_ring (pw_store demo_world))) (entries (st_ring (pw_store demo_world))) e
    \<and> ce_ResponseBody e = None
    \<and> ce_StatusCode e = rp_StatusCode (demo_response\<lparr>rp_ContentLength := - 1, rp_Header := [''Content-Type'' \<mapsto> [''text/event-stream'']]\<rparr>)
    \<and> pw_out w' = pw_out demo_world"
proof (rule handleResponse_streaming [OF demo_world_ok(1)])
  have "trim_space ''text/event-stream'' = ''text/event-stream''"
    by (rule trim_space_ascii) (simp_all add: is_space_def)
  then have "NormalizeMediaType demo_env ''text/event-stream'' = ''text/event-stream''"
    by (simp add: NormalizeMediaType_def to_lower_ascii lower_byte_def before_byte_def)
  then show "isStreamingResponse demo_env
      (demo_response\<lparr>rp_ContentLength := - 1, rp_Header := [''Content-Type'' \<mapsto> [''text/event-stream'']]\<rparr>)"
    by (simp add: isStreamingResponse_def header_get_def isStreamingContentType_def)
qed (simp add: demo_response_def)

text \<open>
  \<^bold>\<open>C17\<close>. A response that is not a stream and whose body fails before the capture limit is reached
  (a limit below the largest int64) is not recorded but not damaged either: nothing is
  stored or written, no identifier is used up, and the client still receives every byte
  that arrived followed by the error.
\<close>

theorem handleResponse_read_error:
  assumes "canReadBody env resp" "rp_Body resp = Some r" "rd_err r = Some err"
    and "\<not> cut_off resp (sv_responseBodyLimit s) (rd_bytes r)" "sint (sv_responseBodyLimit s) < 2 ^ 63 - 1"
  shows "handleResponse env s ck (Some data) (Some resp) w = Inr (Some resp, w)"
proof -
  let ?l = "sv_responseBodyLimit s"
  have suc: "sint (?l + 1) = sint ?l + 1" if "0 < sint ?l"
    using that assms(5) by (intro sint_Suc64) auto
  have "readForCapture r (rp_ContentLength resp) ?l = ((rd_bytes r, Some err), r\<lparr>rd_bytes := []\<rparr>)"
    using assms(3,4) suc by (auto simp: readForCapture_def ReadAll_def ReadAllLimit_def cut_off_def
        unlimitedReadSafetyCap_def Let_def split: if_splits)
  then have "readAndRewire resp ?l = Inr (Inl err, resp)"
    using assms(2) by (simp add: readAndRewire_def)
  then show ?thesis
    using assms(1) by (simp add: handleResponse_def responseData_def recordResponse_def readBodyBounded_def)
qed

theorem handleResponse_read_error_witness:
  "handleResponse demo_env (demo_server 4) demo_clocks (Some demo_ctx)
      (Some (demo_response\<lparr>rp_Body := Some \<lparr>rd_bytes = ''hel'', rd_err = Some ''reset''\<rparr>\<rparr>)) demo_world
    = Inr (Some (demo_response\<lparr>rp_Body := Some \<lparr>rd_bytes = ''hel'', rd_err = Some ''reset''\<rparr>\<rparr>), demo_world)"
  by (rule handleResponse_read_error [of _ _ "\<lparr>rd_bytes = ''hel'', rd_err = Some ''reset''\<rparr>" "''reset''"])
    (simp_all add: demo_response_def demo_server_def canReadBody_def isStreamingResponse_def cut_off_def)

text \<open>
  Without a limit, a printable body of unknown length that is longer than 64 MiB is recorded
  as its first 64 MiB, as if that were the whole body: the recorder does not drop it.
\<close>

theorem unlimited_capture_keeps_prefix:
  assumes "store_ok (pw_store w)" "outputs_total (sv_outputs s)"
    and "canReadBody env resp" "rp_Body resp = Some r" "rd_err r = None" "length (rd_bytes r) < 2 ^ 63"
    and "sint (sv_responseBodyLimit s) \<le> 0" "ResponseBodyLimit (sv_recorder s) = sv_responseBodyLimit s"
    and "sint (rp_ContentLength resp) < 0" "67108864 < length (rd_bytes r)" "isPrintable (rd_bytes r)"
  shows "\<exists>resp' w' e. handleResponse env s ck (Some data) (Some resp) w = Inr (Some resp', w')
    \<and> entries (st_ring (pw_store w')) =
        spec_push (rb_capacity (st_ring (pw_store w))) (entries (st_ring (pw_store w))) e
    \<and> ce_ResponseBody e = Some (take 67108864 (rd_bytes r))"
proof -
  let ?l = "sv_responseBodyLimit s"
  define resp' where "resp' = fixContentLength resp (captured_prefix resp ?l (rd_bytes r)) (cut_off resp ?l (rd_bytes r))"
  define e where "e = exchange_entry env s ck data resp' (captured_prefix resp ?l (rd_bytes r)) (pw_counter w)"
  have pre: "captured_prefix resp ?l (rd_bytes r) = take 67108864 (rd_bytes r)"
    using assms(7,9) by (simp add: captured_prefix_def)
  have "isPrintable (take 67108864 (rd_bytes r))"
    using assms(11) set_take_subset [of 67108864 "rd_bytes r"] unfolding isPrintable_bytes list_all_iff by blast
  moreover have "take 67108864 (rd_bytes r) \<noteq> []" using assms(10) by auto
  ultimately have "ce_ResponseBody e = Some (take 67108864 (rd_bytes r))"
    using assms(7,8) pre
    by (simp add: e_def exchange_entry_fields recorder_CaptureResponse_def CaptureResponse_def captureBody_def
        worthCapturing_def drop_over_def overLimit_def Let_def)
  moreover have "sint ?l < 2 ^ 63 - 1" using assms(7) by simp
  ultimately show ?thesis
    using recordResponse_eof [OF assms(1-5) _ assms(6), of ck data]
    by (auto simp: handleResponse_def responseData_def e_def resp'_def)
qed

theorem unlimited_capture_keeps_prefix_witness:
  "\<exists>resp' w' e. handleResponse demo_env (demo_server 0) demo_clocks (Some demo_ctx)
      (Some (demo_response\<lparr>rp_ContentLength := - 1, rp_Body := Some \<lparr>rd_bytes = replicate 67108865 (CHR ''a''), rd_err = None\<rparr>\<rparr>))
      demo_world = Inr (Some resp', w')
    \<and> entries (st_ring (pw_store w')) =
        spec_push (rb_capacity (st_ring (pw_store demo_world))) (entries (st_ring (pw_store demo_world))) e
    \<and> ce_ResponseBody e = Some (take 67108864 (replicate 67108865 (CHR ''a'')))"
proof -
  let ?r = "\<lparr>rd_bytes = replicate 67108865 (CHR ''a''), rd_err = None\<rparr>"
  let ?p = "demo_response\<lparr>rp_ContentLength := - 1, rp_Body := Some ?r\<rparr>"
  have "\<not> isStreamingContentType demo_env ''text/plain''"
  proof -
    have "trim_space ''text/plain'' = ''text/plain''"
      by (rule trim_space_ascii) (simp_all add: is_space_def)
    then show ?thesis
      by (simp add: isStreamingContentType_def NormalizeMediaType_def to_lower_ascii lower_byte_def before_byte_def)
  qed
  then have "canReadBody demo_env ?p"
    by (simp add: canReadBody_def isStreamingResponse_def demo_response_def header_get_def)
  moreover have "isPrintable (rd_bytes ?r)"
    by (simp add: isPrintable_bytes list_all_iff)
  ultimately show ?thesis
    using unlimited_capture_keeps_prefix [OF demo_world_ok, of demo_env ?p ?r 0 demo_clocks demo_ctx]
    by (simp add: demo_server_def NewDefaultRecorder_def)
qed

lemma NewServer_accepted:
  assumes "parseConfig cenv args = Inr cfg" "cf_BufferSize cfg \<le> 2 ^ 45"
  shows "\<exists>s st. NewServer cenv (Inr ca) now cfg = Inr (Inr (s :: 'w server, st, ca))
            \<and> store_ok st \<and> entries (st_ring st) = []
            \<and> (0 < cf_BufferSize cfg \<longrightarrow> rb_capacity (st_ring st) = nat (cf_BufferSize cfg))
            \<and> ResponseBodyLimit (sv_recorder s) = sv_responseBodyLimit s
            \<and> (sv_includeRE s = None \<longleftrightarrow> cf_CaptureInclude cfg = []) \<and> sv_outputs s = []"
proof -
  have "\<exists>re. compileCaptureRegex cenv n p = Inr re \<and> (re = None \<longleftrightarrow> p = [])" if "validateCaptureRegex cenv n p = None" for n p
    using that by (auto simp: compileCaptureRegex_def validateCaptureRegex_def split: if_splits sum.splits)
  note compiles = this
  obtain i where "compileCaptureRegex cenv ''--capture-include'' (cf_CaptureInclude cfg) = Inr i"
      "i = None \<longleftrightarrow> cf_CaptureInclude cfg = []"
    using compiles validateConfig_regexes [OF parseConfig_valid [OF assms(1)]] by metis
  moreover obtain x where "compileCaptureRegex cenv ''--capture-exclude'' (cf_CaptureExclude cfg) = Inr x"
    using compiles validateConfig_regexes [OF parseConfig_valid [OF assms(1)]] by metis
  moreover have "0 < cf_BufferSize cfg \<longrightarrow> rb_capacity (empty_ring (cf_BufferSize cfg) now) = nat (cf_BufferSize cfg)"
    by (simp add: empty_ring_def Let_def)
  ultimately show ?thesis
    using assms(2)
    by (simp add: NewServer_def NewRingBuffer_cases configureCaptureRegexes_def NewDefaultRecorder_def store_ok_def ring_ok_New
        subs_open_def Let_def) (simp add: empty_ring_def Let_def)
qed

text \<open>
  A configuration that the command line accepts starts, if its buffer fits into the address
  space: unless loading the CA fails, \<^verbatim>\<open>NewServer\<close> succeeds for it (its filters compile), with a
  well-formed empty store of the requested capacity and one limit shared by the proxy and
  the recorder; a CA failure is reported as such, and a larger buffer panics.
\<close>

theorem accepted_config_starts:
  fixes ca :: 'ca
  assumes "parseConfig cenv args = Inr cfg"
  shows "(cf_BufferSize cfg \<le> 2 ^ 45 \<longrightarrow> (\<exists>s st. NewServer cenv (Inr ca) now cfg = Inr (Inr (s :: 'w server, st, ca))
            \<and> store_ok st \<and> entries (st_ring st) = []
            \<and> (0 < cf_BufferSize cfg \<longrightarrow> rb_capacity (st_ring st) = nat (cf_BufferSize cfg))
            \<and> ResponseBodyLimit (sv_recorder s) = sv_responseBodyLimit s
            \<and> (sv_includeRE s = None \<longleftrightarrow> cf_CaptureInclude cfg = [])))
      \<and> (2 ^ 45 < cf_BufferSize cfg \<longrightarrow>
            (NewServer cenv (Inr ca) now cfg :: (string + 'w server \<times> store \<times> 'ca) go) = Inl MakeSliceLen)
      \<and> (NewServer cenv (Inl err) now cfg :: (string + 'w server \<times> store \<times> 'ca) go) = Inr (Inl (''load CA: '' @ err))"
  using NewServer_accepted [where 'w = 'w, OF assms, of ca now]
  by (auto simp: NewServer_def NewRingBuffer_cases)

theorem accepted_config_starts_witness:
  "(\<exists>s st. NewServer demo_cli (Inr ()) 7 (Default\<lparr>cf_CADir := ''/root/.goper/ca'', cf_CaptureInclude := ''api''\<rparr>) = Inr (Inr (s, st, ()))
     \<and> store_ok st \<and> rb_capacity (st_ring st) = 10000 \<and> sv_includeRE s \<noteq> None)"
proof -
  have "split_flag ''--capture-include=api'' = FlagArg ''capture-include'' (Some ''api'')"
    by code_simp
  then have "parseConfig demo_cli [''--capture-include=api'']
      = Inr (Default\<lparr>cf_CADir := ''/root/.goper/ca'', cf_CaptureInclude := ''api''\<rparr>)"
    by (simp add: parseConfig_def parse_flags.simps flag_table_def set_flag_def on_cfg_def validateConfig_def
        validOutputFormat_def validateCaptureRegex_def applyDerivedSettings_def expandHomeDir_def demo_cli_def Default_def)
  from accepted_config_starts [OF this, of "()" 7 "[]"] show ?thesis
    by (auto simp: Default_def)
qed

end
