(* ===== verification/Proxy_System.thy ===== *)
theory Proxy_System
  imports Store_Concurrency Proxy_Server
begin

text \<open>
  The running proxy: any number of exchanges that are handled by goroutines of their own,
  together with the API clients that subscribe to the store or clear it. A goroutine that
  records a response runs \<^verbatim>\<open>recordResponse\<close> in the steps between its accesses to shared
  state: it reads the body and draws an identifier, it pushes under the mutex of the store,
  it notifies the subscribers of its snapshot one by one, and it calls \<^verbatim>\<open>WriteEntry\<close> of the
  outputs one by one (the writers share no memory; that the calls of the one writer with a
  common file can be taken as single steps is shown in \<open>Output_Concurrency\<close>). The steps on the store are those of the store's own transition
  system. Reads of the store (listing, lookup, statistics) change nothing and are not steps.
\<close>

section \<open>Exchanges as tasks\<close>

datatype 'w task =
    Awaiting captureCtx
  | Pushing captured_entry "'w entry_output list"
  | Notifying nat "'w entry_output list"
  | Writing captured_entry "'w entry_output list"
  | Done

text \<open>
  \<^verbatim>\<open>recordResponse\<close> up to the call of \<^verbatim>\<open>Push\<close>: the entry to push and the outputs to write
  to afterwards (none for a stream), or nothing if there is no response or it cannot be read.
\<close>

definition begin_recording ::
  "std_env \<Rightarrow> 'w server \<Rightarrow> clocks \<Rightarrow> captureCtx \<Rightarrow> http_response option \<Rightarrow> int64 \<Rightarrow> ('w task \<times> int64) go" where
  "begin_recording env s ck data resp c =
     (case resp of
        None \<Rightarrow> Inr (Done, c)
      | Some r \<Rightarrow>
          go_bind (readBodyBounded env r (sv_responseBodyLimit s)) (\<lambda>(b, r1).
          if br_err b \<noteq> None then Inr (Done, c)
          else
            (let body = (if br_skipped b then [] else br_body b);
                 ws = (if br_skipped b then [] else sv_outputs s);
                 result = recorder_CaptureResponse env (sv_recorder s) (rp_StatusCode r1) (rp_Header r1)
                            body (cc_start data) (ck_duration ck)
             in case recorder_CombineEntry env (sv_recorder s) (ck_id ck) (ck_stamp ck) c (cc_entry data) result of
                  (fullEntry, c') \<Rightarrow> Inr (Pushing fullEntry ws, c'))))"

record 'w psys =
  py_sys :: sys
  py_out :: 'w
  py_tasks :: "'w task list"

definition init_psys :: "int \<Rightarrow> go_time \<Rightarrow> 'w \<Rightarrow> 'w psys" where
  "init_psys capacity now out = \<lparr>py_sys = init_sys capacity now, py_out = out, py_tasks = []\<rparr>"

datatype paction =
    PRequest go_time http_request
  | PRespond nat clocks "http_response option"
  | PPush nat go_time go_time
  | PNotify nat
  | PNotified nat
  | PWrite nat
  | PFinish nat
  | PStore action

text \<open>What API clients do to the store.\<close>

fun client_action :: "action \<Rightarrow> bool" where
  "client_action ASubscribe = True"
| "client_action (AUnsubscribe ch) = True"
| "client_action (AReceive ch) = True"
| "client_action AClear = True"
| "client_action _ = False"

definition task_of :: "'w psys \<Rightarrow> nat \<Rightarrow> 'w task option" where
  "task_of p i = (if i < length (py_tasks p) then Some (py_tasks p ! i) else None)"

definition set_task :: "nat \<Rightarrow> 'w task \<Rightarrow> 'w psys \<Rightarrow> 'w psys" where
  "set_task i t p = p\<lparr>py_tasks := (py_tasks p)[i := t]\<rparr>"

definition panicking :: "go_panic \<Rightarrow> 'w psys \<Rightarrow> 'w psys" where
  "panicking x p = p\<lparr>py_sys := (py_sys p)\<lparr>sy_panic := Some x\<rparr>\<rparr>"

inductive proxy_step :: "std_env \<Rightarrow> 'w server \<Rightarrow> 'w psys \<Rightarrow> paction \<Rightarrow> 'w psys \<Rightarrow> bool" for env s where
  request: "sy_panic (py_sys p) = None \<Longrightarrow>
    proxy_step env s p (PRequest now req)
      (p\<lparr>py_tasks := py_tasks p @
           [case snd (handleRequest env s now req) of None \<Rightarrow> Done | Some data \<Rightarrow> Awaiting data]\<rparr>)"
| respond: "sy_panic (py_sys p) = None \<Longrightarrow> task_of p i = Some (Awaiting data) \<Longrightarrow>
    begin_recording env s ck data resp (sy_ctr (py_sys p)) = Inr (t, c) \<Longrightarrow>
    proxy_step env s p (PRespond i ck resp) (set_task i t (p\<lparr>py_sys := (py_sys p)\<lparr>sy_ctr := c\<rparr>\<rparr>))"
| respond_panic: "sy_panic (py_sys p) = None \<Longrightarrow> task_of p i = Some (Awaiting data) \<Longrightarrow>
    begin_recording env s ck data resp (sy_ctr (py_sys p)) = Inl x \<Longrightarrow>
    proxy_step env s p (PRespond i ck resp) (panicking x p)"
| push: "task_of p i = Some (Pushing e ws) \<Longrightarrow> sys_step env (py_sys p) (APush e n1 n2) y \<Longrightarrow>
    proxy_step env s p (PPush i n1 n2)
      (set_task i (Notifying (length (sy_inflight (py_sys p))) ws) (p\<lparr>py_sys := y\<rparr>))"
| notify: "task_of p i = Some (Notifying k ws) \<Longrightarrow> sys_step env (py_sys p) (ANotify k) y \<Longrightarrow>
    proxy_step env s p (PNotify i) (p\<lparr>py_sys := y\<rparr>)"
| notified: "sy_panic (py_sys p) = None \<Longrightarrow> task_of p i = Some (Notifying k ws) \<Longrightarrow>
    k < length (sy_inflight (py_sys p)) \<Longrightarrow> sy_inflight (py_sys p) ! k = ([], e) \<Longrightarrow>
    proxy_step env s p (PNotified i) (set_task i (Writing e ws) p)"
| write_out: "sy_panic (py_sys p) = None \<Longrightarrow> task_of p i = Some (Writing e (w # ws)) \<Longrightarrow>
    w (Some e) (py_out p) = Inr (err, out) \<Longrightarrow>
    proxy_step env s p (PWrite i) (set_task i (Writing e ws) (p\<lparr>py_out := out\<rparr>))"
| write_panic: "sy_panic (py_sys p) = None \<Longrightarrow> task_of p i = Some (Writing e (w # ws)) \<Longrightarrow>
    w (Some e) (py_out p) = Inl x \<Longrightarrow>
    proxy_step env s p (PWrite i) (panicking x p)"
| finish: "sy_panic (py_sys p) = None \<Longrightarrow> task_of p i = Some (Writing e []) \<Longrightarrow>
    proxy_step env s p (PFinish i) (set_task i Done p)"
| client: "client_action a \<Longrightarrow> sys_step env (py_sys p) a y \<Longrightarrow>
    proxy_step env s p (PStore a) (p\<lparr>py_sys := y\<rparr>)"

inductive proxy_run :: "std_env \<Rightarrow> 'w server \<Rightarrow> 'w psys \<Rightarrow> paction list \<Rightarrow> 'w psys \<Rightarrow> bool" for env s p where
  run_nil: "proxy_run env s p [] p"
| run_snoc: "proxy_run env s p as q \<Longrightarrow> proxy_step env s q a q' \<Longrightarrow> proxy_run env s p (as @ [a]) q'"

inductive_cases proxy_stepE [elim]: "proxy_step env s p a p'"
inductive_simps proxy_run_snoc: "proxy_run env s p (as @ [a]) q"
inductive_simps proxy_run_nil: "proxy_run env s p [] q"

lemma proxy_run_append:
  "proxy_run env s p as q \<Longrightarrow> proxy_run env s q bs r \<Longrightarrow> proxy_run env s p (as @ bs) r"
proof (induction bs arbitrary: r rule: rev_induct)
  case (snoc b bs)
  then show ?case
    by (metis append.assoc proxy_run_snoc append_is_Nil_conv not_Cons_self2)
qed (auto simp: proxy_run_nil)

section \<open>Invariant\<close>

lemma begin_recording_cases:
  obtains (nothing) "begin_recording env s ck data resp c = Inr (Done, c)"
  | (entry) e ws where "begin_recording env s ck data resp c = Inr (Pushing e ws, c + 1)"
      "set ws \<subseteq> set (sv_outputs s)" "ce_ID e = fst (NewEntryID env (ck_id ck) c)"
proof (cases resp)
  case None
  then show ?thesis using that(1) by (simp add: begin_recording_def)
next
  case (Some r)
  obtain b where "readBodyBounded env r (sv_responseBodyLimit s) = Inr (b, r)"
    using readBodyBounded_total by blast
  then show ?thesis
    using that Some
    by (cases "br_err b") (auto simp: begin_recording_def recorder_CombineEntry_def CombineEntry_def NewEntryID_def Let_def)
qed

fun task_ok :: "'w server \<Rightarrow> nat \<Rightarrow> 'w task \<Rightarrow> bool" where
  "task_ok s n (Pushing e ws) \<longleftrightarrow> set ws \<subseteq> set (sv_outputs s)"
| "task_ok s n (Notifying k ws) \<longleftrightarrow> k < n \<and> set ws \<subseteq> set (sv_outputs s)"
| "task_ok s n (Writing e ws) \<longleftrightarrow> set ws \<subseteq> set (sv_outputs s)"
| "task_ok s n t \<longleftrightarrow> True"

definition psys_inv :: "'w server \<Rightarrow> 'w psys \<Rightarrow> bool" where
  "psys_inv s p \<longleftrightarrow> sys_inv (py_sys p)
     \<and> (\<forall>i t. task_of p i = Some t \<longrightarrow> task_ok s (length (sy_inflight (py_sys p))) t)"

lemma task_of_set [simp]:
  "task_of (set_task i t p) j = (if i = j \<and> j < length (py_tasks p) then Some t else task_of p j)"
  by (auto simp: task_of_def set_task_def)

lemma task_of_other [simp]:
  "task_of (p\<lparr>py_sys := y\<rparr>) j = task_of p j" "task_of (p\<lparr>py_out := out\<rparr>) j = task_of p j"
  "task_of (panicking x p) j = task_of p j"
  by (simp_all add: task_of_def panicking_def)

lemma task_of_new: "task_of (p\<lparr>py_tasks := py_tasks p @ [t]\<rparr>) j =
    (if j = length (py_tasks p) then Some t else task_of p j)"
  by (auto simp: task_of_def nth_append)

lemma task_of_bound: "task_of p i = Some t \<Longrightarrow> i < length (py_tasks p)"
  by (simp add: task_of_def split: if_splits)

lemma set_task_simps [simp]:
  "py_sys (set_task i t p) = py_sys p" "py_out (set_task i t p) = py_out p"
  "length (py_tasks (set_task i t p)) = length (py_tasks p)"
  by (simp_all add: set_task_def)

lemma task_ok_mono: "task_ok s n t \<Longrightarrow> n \<le> m \<Longrightarrow> task_ok s m t"
  by (cases t) auto

lemma sys_step_grows: "sys_step env y a y' \<Longrightarrow> length (sy_inflight y) \<le> length (sy_inflight y')"
  by (auto elim!: sys_step.cases)

lemma psys_inv_init: "psys_inv s (init_psys capacity now out)"
  by (simp add: psys_inv_def init_psys_def sys_inv_init task_of_def)

lemma psys_inv_sys:
  assumes "psys_inv s p" "sys_step env (py_sys p) a y"
  shows "sys_inv y" and "task_of p i = Some t \<Longrightarrow> task_ok s (length (sy_inflight y)) t"
  using assms sys_step_inv sys_step_grows [OF assms(2)] task_ok_mono unfolding psys_inv_def by blast+

lemma psys_inv_set:
  "psys_inv s p \<Longrightarrow> task_ok s (length (sy_inflight (py_sys p))) t \<Longrightarrow> psys_inv s (set_task i t p)"
  by (auto simp: psys_inv_def)

lemma psys_step_inv:
  assumes inv: "psys_inv s p" and st: "proxy_step env s p a p'" and tot: "outputs_total (sv_outputs s)"
  shows "psys_inv s p'"
  using st
proof cases
  case (request now req)
  then show ?thesis using inv by (auto simp: psys_inv_def task_of_new split: option.splits)
next
  case (respond i data ck resp t c)
  then show ?thesis
    using inv by (cases rule: begin_recording_cases [of env s ck data resp "sy_ctr (py_sys p)"])
      (auto simp: psys_inv_def sys_inv_def)
next
  case (respond_panic i data ck resp x)
  then show ?thesis by (cases rule: begin_recording_cases [of env s ck data resp "sy_ctr (py_sys p)"]) auto
next
  case (push i e ws n1 n2 y)
  obtain e' c where "finalizeEntry env n1 n2 (sy_ctr (py_sys p)) e = (e', c)" by fastforce
  from sys_step_push(6) [OF _ push(4) this]
  have "length (sy_inflight y) = Suc (length (sy_inflight (py_sys p)))"
    using inv by (simp add: psys_inv_def)
  moreover have "set ws \<subseteq> set (sv_outputs s)"
    using inv push(3) unfolding psys_inv_def by (metis task_ok.simps(1))
  ultimately show ?thesis
    using push psys_inv_sys [OF inv push(4)] by (simp add: psys_inv_def)
next
  case (notify i k ws y)
  then show ?thesis using psys_inv_sys [OF inv notify(4)] by (simp add: psys_inv_def)
next
  case (notified i k ws e)
  then show ?thesis using inv by (fastforce simp: psys_inv_def)
next
  case (write_out i e w ws err out)
  then show ?thesis using inv by (fastforce simp: psys_inv_def)
next
  case (write_panic i e w ws x)
  then have "w \<in> set (sv_outputs s)" using inv by (fastforce simp: psys_inv_def)
  then obtain r where "w (Some e) (py_out p) = Inr r" using tot unfolding outputs_total_def by blast
  then show ?thesis using write_panic by simp
next
  case (finish i e)
  then show ?thesis using inv by (auto simp: psys_inv_def)
next
  case (client a y)
  then show ?thesis using psys_inv_sys [OF inv client(4)] by (simp add: psys_inv_def)
qed

lemma proxy_run_inv:
  assumes "proxy_run env s p as q" "psys_inv s p" "outputs_total (sv_outputs s)"
  shows "psys_inv s q"
  using assms by induction (auto intro: psys_step_inv)

section \<open>Credentials\<close>

definition same_request :: "std_env \<Rightarrow> http_request \<Rightarrow> http_request \<Rightarrow> bool" where
  "same_request env q q' \<longleftrightarrow> q' = q\<lparr>rq_Header := rq_Header q'\<rparr>
     \<and> same_but_credentials env (rq_Header q) (rq_Header q')"

definition same_response :: "std_env \<Rightarrow> http_response \<Rightarrow> http_response \<Rightarrow> bool" where
  "same_response env r r' \<longleftrightarrow> r' = r\<lparr>rp_Header := rp_Header r'\<rparr>
     \<and> same_but_credentials env (rp_Header r) (rp_Header r')"

text \<open>Two actions that differ in nothing but the values of credential headers.\<close>

fun same_action :: "std_env \<Rightarrow> paction \<Rightarrow> paction \<Rightarrow> bool" where
  "same_action env (PRequest now q) b \<longleftrightarrow> (\<exists>q'. b = PRequest now q' \<and> same_request env q q')"
| "same_action env (PRespond i ck r) b \<longleftrightarrow> (\<exists>r'. b = PRespond i ck r' \<and> rel_option (same_response env) r r')"
| "same_action env a b \<longleftrightarrow> a = b"

lemma handleRequest_hides:
  assumes "same_request env q q'"
  shows "snd (handleRequest env s now q) = snd (handleRequest env s now q')"
proof -
  have eq: "q' = q\<lparr>rq_Header := rq_Header q'\<rparr>" and
    h: "same_but_credentials env (rq_Header q) (rq_Header q')"
    using assms by (simp_all add: same_request_def)
  have "rq_URL q' = rq_URL q" by (subst eq) simp
  then have "shouldCapture env s q' = shouldCapture env s q" by (simp add: shouldCapture_def)
  moreover have "fst (recorder_CaptureRequest env (sv_recorder s) q) = fst (recorder_CaptureRequest env (sv_recorder s) q')"
    using default_rec.request_hides [OF h, of "sv_recorder s" q] by (subst eq) simp
  ultimately show ?thesis by (auto simp: handleRequest_def split: prod.splits)
qed

lemma begin_recording_hides:
  assumes "rel_option (same_response env) r r'"
  shows "begin_recording env s ck data r c = begin_recording env s ck data r' c"
  using assms
proof cases
  case None
  then show ?thesis by simp
next
  case (Some x y)
  then have eq: "y = x\<lparr>rp_Header := rp_Header y\<rparr>" and
    h: "same_but_credentials env (rp_Header x) (rp_Header y)"
    by (simp_all add: same_response_def)
  from readBodyBounded_header [OF h, of x "sv_responseBodyLimit s"] obtain b body where
    "readBodyBounded env x (sv_responseBodyLimit s) = Inr (b, x\<lparr>rp_Body := body, rp_Header := rp_Header x\<rparr>)"
    "readBodyBounded env y (sv_responseBodyLimit s) = Inr (b, x\<lparr>rp_Body := body, rp_Header := rp_Header y\<rparr>)"
    using eq by (metis http_response.surjective http_response.update_convs(2))
  then show ?thesis
    using Some by (simp add: begin_recording_def default_rec.response_hides [OF h])
qed

lemma same_action_step:
  assumes "proxy_step env s p a p'" "same_action env a b"
  shows "proxy_step env s p b p'"
  using assms
proof cases
  case (request now req)
  then obtain q' where "b = PRequest now q'" "same_request env req q'" using assms(2) by auto
  then show ?thesis
    using request proxy_step.request [of p env s now q'] handleRequest_hides [of env req q' s now] by simp
next
  case (respond i data ck resp t c)
  then obtain r' where "b = PRespond i ck r'" "rel_option (same_response env) resp r'" using assms(2) by auto
  then show ?thesis
    using respond proxy_step.respond [of p i data env s ck r' t c] begin_recording_hides by metis
next
  case (respond_panic i data ck resp x)
  then obtain r' where "b = PRespond i ck r'" "rel_option (same_response env) resp r'" using assms(2) by auto
  then show ?thesis
    using respond_panic proxy_step.respond_panic [of p i data env s ck r' x] begin_recording_hides by metis
qed (use assms in auto)

section \<open>Identifiers\<close>

text \<open>The entries that have an identifier but are not in the store yet.\<close>

definition pending :: "'w psys \<Rightarrow> nat \<Rightarrow> captured_entry option" where
  "pending p i = (case task_of p i of Some (Pushing e ws) \<Rightarrow> Some e | _ \<Rightarrow> None)"

abbreviation ring_of :: "'w psys \<Rightarrow> ring_buffer" where
  "ring_of p \<equiv> st_ring (sy_store (py_sys p))"

definition numbered :: "int64 \<Rightarrow> entry_id \<Rightarrow> bool" where
  "numbered c x \<longleftrightarrow> x \<noteq> [] \<and> (\<exists>k. 1 \<le> k \<and> k \<le> sint c \<and> id_number x = itoa k)"

definition ids_inv :: "'w psys \<Rightarrow> bool" where
  "ids_inv p \<longleftrightarrow> 0 \<le> sint (sy_ctr (py_sys p)) \<and> index_complete (ring_of p)
     \<and> (\<forall>e \<in> set (entries (ring_of p)). numbered (sy_ctr (py_sys p)) (ce_ID e))
     \<and> (\<forall>i e. pending p i = Some e \<longrightarrow> numbered (sy_ctr (py_sys p)) (ce_ID e)
          \<and> ce_ID e \<notin> ce_ID ` set (entries (ring_of p))
          \<and> (\<forall>j e'. pending p j = Some e' \<and> j \<noteq> i \<longrightarrow> ce_ID e' \<noteq> ce_ID e))"

lemma NewEntryID_numbered:
  assumes "0 \<le> sint c" "sint c < 2 ^ 63 - 1"
  shows "numbered (c + 1) (fst (NewEntryID env now c))" and "\<not> numbered c (fst (NewEntryID env now c))"
proof -
  have c: "sint (c + 1) = sint c + 1" using assms by (intro sint_Suc64) auto
  have n: "id_number (fst (NewEntryID env now c)) = itoa (sint c + 1)"
    using assms c by (simp add: NewEntryID_def Let_def id_number_mk itoa_no_minus)
  have ne: "fst (NewEntryID env now c) \<noteq> []" by (simp add: NewEntryID_def Let_def)
  show "numbered (c + 1) (fst (NewEntryID env now c))"
    unfolding numbered_def using assms c n ne by (intro conjI exI [of _ "sint c + 1"]) auto
  have "sint c + 1 = k" if "itoa k = itoa (sint c + 1)" "1 \<le> k" for k
    using that assms(1) itoa_inj_nonneg [of k "sint c + 1"] by simp
  then show "\<not> numbered c (fst (NewEntryID env now c))"
    unfolding numbered_def n by force
qed

lemma numbered_mono: "numbered c x \<Longrightarrow> sint c \<le> sint c' \<Longrightarrow> numbered c' x"
  by (auto simp: numbered_def)

lemma ids_inv_less:
  assumes "ids_inv p" "\<And>i e. pending p' i = Some e \<Longrightarrow> pending p i = Some e"
    and "set (entries (ring_of p')) \<subseteq> set (entries (ring_of p))" "index_complete (ring_of p')"
    and "sy_ctr (py_sys p') = sy_ctr (py_sys p)"
  shows "ids_inv p'"
  unfolding ids_inv_def
proof (intro conjI ballI allI impI)
  fix i e assume "pending p' i = Some e"
  then have "pending p i = Some e" by (rule assms(2))
  then have *: "numbered (sy_ctr (py_sys p)) (ce_ID e)" "ce_ID e \<notin> ce_ID ` set (entries (ring_of p))"
    "\<And>j e'. pending p j = Some e' \<Longrightarrow> j \<noteq> i \<Longrightarrow> ce_ID e' \<noteq> ce_ID e"
    using assms(1) unfolding ids_inv_def by blast+
  show "numbered (sy_ctr (py_sys p')) (ce_ID e)" using *(1) assms(5) by simp
  show "ce_ID e \<notin> ce_ID ` set (entries (ring_of p'))" using *(2) assms(3) by blast
  show "ce_ID e' \<noteq> ce_ID e" if "pending p' j = Some e' \<and> j \<noteq> i" for j e'
    using *(3) assms(2) that by blast
qed (use assms in \<open>auto simp: ids_inv_def\<close>)

lemma pending_set:
  "pending (set_task i t p) j = (if i = j \<and> j < length (py_tasks p)
     then (case t of Pushing e ws \<Rightarrow> Some e | _ \<Rightarrow> None) else pending p j)"
  by (auto simp: pending_def)

lemma pending_other [simp]:
  "pending (p\<lparr>py_sys := y\<rparr>) j = pending p j" "pending (p\<lparr>py_out := out\<rparr>) j = pending p j"
  "pending (panicking x p) j = pending p j"
  by (simp_all add: pending_def)

lemma ids_inv_drop:
  assumes "ids_inv p" "\<And>e ws. t \<noteq> Pushing e ws"
  shows "ids_inv (set_task i t p)" "ids_inv (set_task i t (p\<lparr>py_out := out\<rparr>))"
proof -
  have ic: "index_complete (ring_of p)" using assms(1) by (simp add: ids_inv_def)
  have "(case t of Pushing e ws \<Rightarrow> Some e | _ \<Rightarrow> None) = None" using assms(2) by (cases t) auto
  then show "ids_inv (set_task i t p)" "ids_inv (set_task i t (p\<lparr>py_out := out\<rparr>))"
    using ic by (auto intro!: ids_inv_less [OF assms(1)] simp: pending_set split: if_splits)
qed

lemma ids_inv_request:
  assumes "ids_inv p" "\<And>e ws. t \<noteq> Pushing e ws"
  shows "ids_inv (p\<lparr>py_tasks := py_tasks p @ [t]\<rparr>)"
proof (rule ids_inv_less [OF assms(1)])
  show "pending p i = Some e" if "pending (p\<lparr>py_tasks := py_tasks p @ [t]\<rparr>) i = Some e" for i e
    using that assms(2) by (cases t) (auto simp: pending_def task_of_new split: if_splits)
qed (use assms(1) in \<open>simp_all add: ids_inv_def\<close>)

lemma ids_inv_new:
  assumes inv: "ids_inv p" and c: "sint (sy_ctr (py_sys p)) < 2 ^ 63 - 1"
    and i: "i < length (py_tasks p)" "pending p i = None" and e: "ce_ID e = fst (NewEntryID env now (sy_ctr (py_sys p)))"
  shows "ids_inv (set_task i (Pushing e ws) (p\<lparr>py_sys := (py_sys p)\<lparr>sy_ctr := sy_ctr (py_sys p) + 1\<rparr>\<rparr>))"
proof -
  let ?c = "sy_ctr (py_sys p)"
  have c0: "0 \<le> sint ?c" using inv by (simp add: ids_inv_def)
  then have c1: "sint (?c + 1) = sint ?c + 1" using c by (intro sint_Suc64) auto
  have new: "numbered (?c + 1) (ce_ID e)" "\<not> numbered ?c (ce_ID e)"
    using NewEntryID_numbered [OF c0 c] e by simp_all
  have old: "ce_ID x \<noteq> ce_ID e \<and> numbered (?c + 1) (ce_ID x)" if "numbered ?c (ce_ID x)" for x
    using that new(2) c1 numbered_mono [of ?c "ce_ID x" "?c + 1"] by auto
  have ring: "ce_ID x \<noteq> ce_ID e" "numbered (?c + 1) (ce_ID x)" if "x \<in> set (entries (ring_of p))" for x
    using inv old that by (auto simp: ids_inv_def)
  have pend: "ce_ID x \<noteq> ce_ID e" "numbered (?c + 1) (ce_ID x)" if "pending p j = Some x" for x j
    using inv old that unfolding ids_inv_def by blast+
  show ?thesis
    using inv new(1) c0 c1 i ring pend unfolding ids_inv_def
    by (auto simp: pending_set) (metis pend(1), metis ring(1))
qed

lemma ids_inv_push:
  assumes inv: "ids_inv p" and ps: "sys_inv (py_sys p)" and i: "task_of p i = Some (Pushing e ws)"
    and st: "sys_step env (py_sys p) (APush e n1 n2) y"
  shows "ids_inv (set_task i (Notifying k ws) (p\<lparr>py_sys := y\<rparr>))" and "sy_ctr y = sy_ctr (py_sys p)"
proof -
  have pi: "pending p i = Some e" "i < length (py_tasks p)"
    using i task_of_bound by (auto simp: pending_def)
  have e: "numbered (sy_ctr (py_sys p)) (ce_ID e)" "ce_ID e \<notin> ce_ID ` set (entries (ring_of p))"
    and dis: "\<And>j x. pending p j = Some x \<Longrightarrow> j \<noteq> i \<Longrightarrow> ce_ID x \<noteq> ce_ID e"
    using inv pi(1) unfolding ids_inv_def by blast+
  obtain e' where fin: "finalizeEntry env n1 n2 (sy_ctr (py_sys p)) e = (e', sy_ctr (py_sys p))" "ce_ID e' = ce_ID e"
    using e(1) by (auto simp: finalizeEntry_def numbered_def Let_def)
  note push = sys_step_push [OF ps st fin(1)]
  show "sy_ctr y = sy_ctr (py_sys p)" by (rule push(4))
  have ic: "index_complete (st_ring (sy_store y))" using push(3) inv e(2) fin(2) by (simp add: ids_inv_def)
  have sub: "set (entries (st_ring (sy_store y))) \<subseteq> insert e' (set (entries (ring_of p)))"
    using ring.set_spec_push push(1) by metis
  have pend: "pending (set_task i (Notifying k ws) (p\<lparr>py_sys := y\<rparr>)) j = (if j = i then None else pending p j)" for j
    using pi(2) by (simp add: pending_set)
  have ring: "numbered (sy_ctr (py_sys p)) (ce_ID x)" if "x \<in> set (entries (st_ring (sy_store y)))" for x
    using that sub e(1) fin(2) inv by (auto simp: ids_inv_def)
  have out: "ce_ID x \<notin> ce_ID ` set (entries (st_ring (sy_store y)))" if "pending p j = Some x" "j \<noteq> i" for j x
    using that sub dis [OF that] fin(2) inv unfolding ids_inv_def by fastforce
  show "ids_inv (set_task i (Notifying k ws) (p\<lparr>py_sys := y\<rparr>))"
    using inv ic ring out push(4) unfolding ids_inv_def pend by auto
qed

text \<open>Every step keeps the identifiers apart and uses up at most one number.\<close>

lemma ids_step_inv:
  assumes inv: "ids_inv p" and ps: "psys_inv s p" and st: "proxy_step env s p a p'"
    and c: "sint (sy_ctr (py_sys p)) < 2 ^ 63 - 1"
  shows "ids_inv p' \<and> sint (sy_ctr (py_sys p')) \<le> sint (sy_ctr (py_sys p)) + 1"
proof -
  have ic: "index_complete (ring_of p)" and c0: "0 \<le> sint (sy_ctr (py_sys p))" using inv by (simp_all add: ids_inv_def)
  have c1: "sint (sy_ctr (py_sys p) + 1) = sint (sy_ctr (py_sys p)) + 1" using c c0 by (intro sint_Suc64) auto
  have sys: "ids_inv p' \<and> sint (sy_ctr (py_sys p')) \<le> sint (sy_ctr (py_sys p)) + 1"
    if "p' = p\<lparr>py_sys := y\<rparr>" "sys_step env (py_sys p) b y" "\<And>e n1 n2. b \<noteq> APush e n1 n2" "\<And>t. b \<noteq> ANewID t" for b y
  proof -
    note step = that(2) and other = that(3)
    have "sy_ctr y = sy_ctr (py_sys p)" using sys_step_ctr that(2-4) by metis
    moreover have "set (entries (st_ring (sy_store y))) \<subseteq> set (entries (ring_of p)) \<and> index_complete (st_ring (sy_store y))"
    proof (cases "b = AClear")
      case True
      then show ?thesis using sys_step_clear step by (simp add: index_complete_Clear)
    next
      case False
      then obtain xs where "st_ring (sy_store y) = (ring_of p)\<lparr>rb_subscribers := xs\<rparr>"
        using sys_step_frame [OF step other] by blast
      then show ?thesis using ic by simp
    qed
    ultimately show ?thesis using that(1) ids_inv_less [OF inv, of p'] by simp
  qed
  from st show ?thesis
  proof cases
    case (respond i data ck resp t c)
    have p: "pending p i = None" "i < length (py_tasks p)"
      using respond task_of_bound by (auto simp: pending_def)
    show ?thesis
    proof (cases rule: begin_recording_cases [of env s ck data resp "sy_ctr (py_sys p)"])
      case nothing
      then show ?thesis using respond ids_inv_drop(1) [OF inv] by auto
    next
      case (entry e ws)
      then show ?thesis using respond ids_inv_new [OF inv \<open>sint (sy_ctr (py_sys p)) < 2 ^ 63 - 1\<close> p(2,1) entry(3)] c1 by simp
    qed
  next
    case (push i e ws n1 n2 y)
    then show ?thesis using ids_inv_push [OF inv _ push(3,4)] ps c0 by (simp add: psys_inv_def)
  next
    case (notify i k ws y)
    then show ?thesis using sys [OF notify(2,4)] by simp
  next
    case (client b y)
    then show ?thesis using sys [OF client(2,4)] by (cases b) auto
  next
    case (request now req)
    then show ?thesis using ids_inv_request [OF inv] by (auto split: option.splits)
  qed (use ic ids_inv_drop [OF inv] ids_inv_less [OF inv, of p'] in \<open>auto simp: panicking_def\<close>)
qed

lemma ids_inv_init: "ids_inv (init_psys capacity now out)" "sint (sy_ctr (py_sys (init_psys capacity now out))) = 0"
proof -
  have "pending (init_psys capacity now out) i = None" for i
    by (simp add: pending_def task_of_def init_psys_def)
  moreover have "ring_of (init_psys capacity now out) = empty_ring capacity now"
    by (simp add: init_psys_def init_sys_def)
  moreover show "sint (sy_ctr (py_sys (init_psys capacity now out))) = 0"
    by (simp add: init_psys_def init_sys_def)
  ultimately show "ids_inv (init_psys capacity now out)"
    by (simp add: ids_inv_def index_complete_New)
qed

lemma proxy_run_ids:
  assumes "proxy_run env s p as q" "psys_inv s p" "ids_inv p" "sint (sy_ctr (py_sys p)) = 0"
    and "outputs_total (sv_outputs s)" "int (length as) < 2 ^ 63"
  shows "ids_inv q \<and> sint (sy_ctr (py_sys q)) \<le> int (length as)"
  using assms(1,6)
proof (induction rule: proxy_run.induct)
  case run_nil
  then show ?case using assms(3,4) by simp
next
  case (run_snoc as q a q')
  have q: "psys_inv s q" using run_snoc(1) assms(2,5) by (rule proxy_run_inv)
  have "ids_inv q" "sint (sy_ctr (py_sys q)) \<le> int (length as)" using run_snoc.IH run_snoc.prems by simp_all
  then show ?case using ids_step_inv [OF _ q run_snoc(2)] run_snoc.prems by simp
qed

section \<open>The log of pushed entries\<close>

text \<open>The entries that were ever pushed, in the order of the pushes.\<close>

definition push_log :: "'w psys \<Rightarrow> captured_entry list" where
  "push_log p = map snd (sy_inflight (py_sys p))"

text \<open>
  The pushes of a run, and those of them up to its last clear (none if there is no clear).
\<close>

fun is_push :: "paction \<Rightarrow> bool" where
  "is_push (PPush i n1 n2) = True"
| "is_push a = False"

definition pushes :: "paction list \<Rightarrow> nat" where
  "pushes as = length (filter is_push as)"

definition cleared :: "paction list \<Rightarrow> nat" where
  "cleared as = pushes (rev (dropWhile (\<lambda>a. a \<noteq> PStore AClear) (rev as)))"

lemma pushes_simps [simp]:
  "pushes [] = 0" "pushes (as @ [a]) = pushes as + (if is_push a then 1 else 0)"
  "cleared [] = 0" "cleared (as @ [a]) = (if a = PStore AClear then pushes as else cleared as)"
  by (simp_all add: pushes_def cleared_def)

lemma cleared_none:
  assumes "PStore AClear \<notin> set as"
  shows "cleared as = 0"
proof -
  have "dropWhile (\<lambda>a. a \<noteq> PStore AClear) (rev as) = []" using assms by (auto simp: dropWhile_eq_Nil_conv)
  then show ?thesis unfolding cleared_def by (simp only: rev.simps pushes_simps)
qed

text \<open>The store holds the newest entries of the log since the last clear (at position \<open>k\<close>).\<close>

definition holds_newest :: "nat \<Rightarrow> nat \<Rightarrow> 'w psys \<Rightarrow> bool" where
  "holds_newest cap k p \<longleftrightarrow> k \<le> length (push_log p) \<and> rb_capacity (ring_of p) = cap
     \<and> entries (ring_of p) = drop (max k (length (push_log p) - cap)) (push_log p)"

lemma spec_push_log:
  assumes "k \<le> length xs" "0 < cap"
  shows "spec_push cap (drop (max k (length xs - cap)) xs) e = drop (max k (length (xs @ [e]) - cap)) (xs @ [e])"
proof (cases "length xs - max k (length xs - cap) = cap")
  case True
  then have "max k (length (xs @ [e]) - cap) = Suc (max k (length xs - cap))" "Suc (max k (length xs - cap)) \<le> length xs"
    using assms by (auto simp: max_def split: if_splits)
  then show ?thesis using True by (simp add: spec_push_def drop_Suc tl_drop)
next
  case False
  then have "max k (length (xs @ [e]) - cap) = max k (length xs - cap)"
    using assms by (auto simp: max_def split: if_splits)
  then show ?thesis using False assms(1) by (simp add: spec_push_def)
qed

lemma sys_step_log:
  assumes "sys_step env y a y'" "\<And>e n1 n2. a \<noteq> APush e n1 n2"
  shows "map snd (sy_inflight y') = map snd (sy_inflight y)"
  using assms(1)
proof cases
  case (notify k sub subs e chs)
  then show ?thesis by (simp add: map_update) (metis list_update_id map_update snd_conv)
qed (use assms(2) in auto)

lemma holds_newest_frame:
  assumes "holds_newest cap k p" "sys_step env (py_sys p) a y" "\<And>e n1 n2. a \<noteq> APush e n1 n2" "a \<noteq> AClear"
  shows "holds_newest cap k (p\<lparr>py_sys := y\<rparr>)"
proof -
  obtain xs where "st_ring (sy_store y) = (ring_of p)\<lparr>rb_subscribers := xs\<rparr>"
    using sys_step_frame [OF assms(2-4)] by blast
  then show ?thesis using assms(1) sys_step_log [OF assms(2,3)] by (simp add: holds_newest_def push_log_def)
qed

lemma holds_newest_same:
  assumes "holds_newest cap k p" "sy_inflight (py_sys p') = sy_inflight (py_sys p)" "ring_of p' = ring_of p"
  shows "holds_newest cap k p'"
  using assms by (simp add: holds_newest_def push_log_def)

lemma holds_newest_step:
  assumes inv: "psys_inv s p" and st: "proxy_step env s p a p'" and h: "holds_newest cap k p" and cap: "0 < cap"
  shows "holds_newest cap (if a = PStore AClear then length (push_log p) else k) p'"
  using st
proof cases
  case (push i e ws n1 n2 y)
  obtain e' c where fin: "finalizeEntry env n1 n2 (sy_ctr (py_sys p)) e = (e', c)" by fastforce
  have "sys_inv (py_sys p)" using inv by (simp add: psys_inv_def)
  note eff = sys_step_push [OF this push(4) fin]
  have "push_log p' = push_log p @ [e']" "ring_of p' = st_ring (sy_store y)"
    using push eff(6) by (simp_all add: push_log_def)
  then show ?thesis
    using h eff(1,2) push(1) cap spec_push_log [of k "push_log p" cap e'] by (simp add: holds_newest_def)
next
  case (notify i j ws y)
  then show ?thesis using holds_newest_frame [OF h notify(4)] by simp
next
  case (client b y)
  show ?thesis
  proof (cases "b = AClear")
    case True
    then show ?thesis
      using client h sys_step_clear sys_step_log [OF client(4)] by (simp add: holds_newest_def push_log_def)
  next
    case False
    then show ?thesis
      using client holds_newest_frame [OF h client(4)] by (cases b) auto
  qed
qed (use h in \<open>auto intro: holds_newest_same [OF h] simp: panicking_def\<close>)

lemma push_log_grows:
  assumes "psys_inv s p" "proxy_step env s p a p'"
  shows "length (push_log p') = length (push_log p) + (if is_push a then 1 else 0)"
  using assms(2)
proof cases
  case (push i e ws n1 n2 y)
  obtain e' c where "finalizeEntry env n1 n2 (sy_ctr (py_sys p)) e = (e', c)" by fastforce
  from sys_step_push(6) [OF _ push(4) this] show ?thesis
    using assms(1) push by (simp add: push_log_def psys_inv_def)
next
  case (notify i k ws y)
  then show ?thesis using sys_step_log [OF notify(4)] by (simp add: push_log_def)
next
  case (client b y)
  then have "map snd (sy_inflight y) = map snd (sy_inflight (py_sys p))"
    using sys_step_log [OF client(4)] by (cases b) auto
  then show ?thesis using client(1,2) by (simp add: push_log_def)
qed (simp_all add: push_log_def panicking_def)

lemma proxy_run_newest:
  assumes "proxy_run env s (init_psys capacity now out) as q" "outputs_total (sv_outputs s)"
  shows "holds_newest (if capacity \<le> 0 then 10000 else nat capacity) (cleared as) q \<and> length (push_log q) = pushes as"
  using assms(1)
proof (induction rule: proxy_run.induct)
  case run_nil
  then show ?case
    by (simp add: holds_newest_def push_log_def init_psys_def init_sys_def) (simp add: empty_ring_def Let_def)
next
  case (run_snoc as q a q')
  have inv: "psys_inv s q" using run_snoc(1) psys_inv_init assms(2) by (rule proxy_run_inv)
  moreover have "0 < (if capacity \<le> 0 then 10000 else nat capacity)" by auto
  ultimately have "holds_newest (if capacity \<le> 0 then 10000 else nat capacity)
      (if a = PStore AClear then length (push_log q) else cleared as) q'"
    using holds_newest_step [OF _ run_snoc(2)] run_snoc.IH by blast
  then show ?case using run_snoc.IH push_log_grows [OF inv run_snoc(2)] by (cases "a = PStore AClear") auto
qed

section \<open>The form of recorded entries\<close>

definition redacted_headers :: "std_env \<Rightarrow> str_map \<Rightarrow> bool" where
  "redacted_headers env m \<longleftrightarrow>
     (\<forall>k v. m k = Some v \<and> redactHeader (to_lower (unicode_lower env) k) \<longrightarrow> v = redacted_value)"

definition request_wf :: "std_env \<Rightarrow> 'w server \<Rightarrow> captured_entry \<Rightarrow> bool" where
  "request_wf env s e \<longleftrightarrow> redacted_headers env (ce_RequestHeaders e)
     \<and> (\<forall>b. ce_RequestBody e = Some b \<longrightarrow> \<not> overLimit (RequestBodyLimit (sv_recorder s)) (length b))"

definition entry_wf :: "std_env \<Rightarrow> 'w server \<Rightarrow> captured_entry \<Rightarrow> bool" where
  "entry_wf env s e \<longleftrightarrow> request_wf env s e \<and> ce_ID e \<noteq> [] \<and> redacted_headers env (ce_ResponseHeaders e)
     \<and> (\<forall>b. ce_ResponseBody e = Some b \<longrightarrow> b \<noteq> [] \<and> \<not> overLimit (ResponseBodyLimit (sv_recorder s)) (length b)
          \<and> (isPrintable b \<or> IsJSONContentType env (ce_ContentType e)))"

lemma headersToMap_redacted: "redacted_headers env (headersToMap env h)"
  by (auto simp: redacted_headers_def headersToMap_def split: option.splits)

lemma handleRequest_wf:
  assumes "snd (handleRequest env s now req) = Some data"
  shows "request_wf env s (cc_entry data)"
proof -
  have "data = \<lparr>cc_entry = fst (recorder_CaptureRequest env (sv_recorder s) req), cc_start = now\<rparr>"
    using assms by (auto simp: handleRequest_def split: if_splits prod.splits)
  then show ?thesis
    by (auto simp: request_wf_def recorder_CaptureRequest_def captureRequest_def request_entry_def headersToMap_redacted
        drop_over_Some zero_entry_def Let_def split: option.splits prod.splits)
qed

lemma finalizeEntry_wf:
  "entry_wf env s e \<Longrightarrow> finalizeEntry env n1 n2 c e = (e', c') \<Longrightarrow> entry_wf env s e'"
  by (auto simp: finalizeEntry_def entry_wf_def request_wf_def Let_def split: if_splits prod.splits)

lemma CombineEntry_wf:
  assumes "request_wf env s e0"
  shows "entry_wf env s (fst (CombineEntry env n1 n2 c e0
    (recorder_CaptureResponse env (sv_recorder s) st h body t0 t1)))"
  using assms
  by (auto simp: CombineEntry_def NewEntryID_def entry_wf_def request_wf_def recorder_CaptureResponse_def CaptureResponse_def
      headersToMap_redacted drop_over_Some captureBody_def worthCapturing_def Let_def split: if_splits)

lemma begin_recording_wf:
  assumes "begin_recording env s ck data resp c = Inr (Pushing e ws, c')" "request_wf env s (cc_entry data)"
  shows "entry_wf env s e"
proof (cases resp)
  case None
  then show ?thesis using assms(1) by (simp add: begin_recording_def)
next
  case (Some r)
  obtain b where b: "readBodyBounded env r (sv_responseBodyLimit s) = Inr (b, r)"
    using readBodyBounded_total by blast
  then have "br_err b = None" using assms(1) Some by (simp add: begin_recording_def split: if_splits)
  then have "e = fst (CombineEntry env (ck_id ck) (ck_stamp ck) c (cc_entry data)
      (recorder_CaptureResponse env (sv_recorder s) (rp_StatusCode r) (rp_Header r)
        (if br_skipped b then [] else br_body b) (cc_start data) (ck_duration ck)))"
    using assms(1) Some b by (auto simp: begin_recording_def recorder_CombineEntry_def split: prod.splits)
  then show ?thesis using CombineEntry_wf [OF assms(2)] by simp
qed

fun task_wf :: "std_env \<Rightarrow> 'w server \<Rightarrow> 'w task \<Rightarrow> bool" where
  "task_wf env s (Awaiting data) \<longleftrightarrow> request_wf env s (cc_entry data)"
| "task_wf env s (Pushing e ws) \<longleftrightarrow> entry_wf env s e"
| "task_wf env s (Writing e ws) \<longleftrightarrow> entry_wf env s e"
| "task_wf env s t \<longleftrightarrow> True"

text \<open>Everything that holds entries: the tasks, the log and the queues of the subscribers.\<close>

definition entries_wf :: "std_env \<Rightarrow> 'w server \<Rightarrow> 'w psys \<Rightarrow> bool" where
  "entries_wf env s p \<longleftrightarrow> (\<forall>i t. task_of p i = Some t \<longrightarrow> task_wf env s t)
     \<and> (\<forall>x \<in> set (sy_inflight (py_sys p)). entry_wf env s (snd x))
     \<and> (\<forall>c ch. st_chans (sy_store (py_sys p)) c = Some ch \<longrightarrow> (\<forall>e \<in> set (ch_queue ch). entry_wf env s e))"

lemma sys_step_queues:
  assumes "sys_step env y a y'" "\<forall>x \<in> set (sy_inflight y). P (snd x)"
    "\<forall>c ch. st_chans (sy_store y) c = Some ch \<longrightarrow> (\<forall>e \<in> set (ch_queue ch). P e)"
  shows "\<forall>c ch. st_chans (sy_store y') c = Some ch \<longrightarrow> (\<forall>e \<in> set (ch_queue ch). P e)"
  using assms(1)
proof cases
  case (notify k sub subs e chs)
  have "P e" using assms(2) notify(4,5) nth_mem by fastforce
  then show ?thesis
    using notify assms(3) by (fastforce simp: try_send_def split: option.splits if_splits)
next
  case (unsubscribe ch st)
  then show ?thesis
    using assms(3)
    by (fastforce simp: Unsubscribe_def close_chan_def go_bind_eq_Inr split: if_splits option.splits)
qed (use assms(3) in \<open>auto simp: Subscribe_def Let_def split: if_splits\<close>)

lemma sys_step_inflight_wf:
  assumes "sys_step env y a y'" "\<And>e n1 n2. a \<noteq> APush e n1 n2" "\<forall>x \<in> set (sy_inflight y). P (snd x)"
  shows "\<forall>x \<in> set (sy_inflight y'). P (snd x)"
proof -
  have "snd ` set (sy_inflight y') = snd ` set (sy_inflight y)"
    using sys_step_log [OF assms(1,2)] by (metis set_map)
  then show ?thesis using assms(3) by (metis (no_types, lifting) image_iff)
qed

lemma entries_wf_set:
  "entries_wf env s p \<Longrightarrow> task_wf env s t \<Longrightarrow> entries_wf env s (set_task i t p)"
  "entries_wf env s p \<Longrightarrow> entries_wf env s (p\<lparr>py_out := out\<rparr>)"
  by (auto simp: entries_wf_def)

lemma entries_wf_sys:
  assumes "entries_wf env s p" "sys_step env (py_sys p) a y" "\<And>e n1 n2. a \<noteq> APush e n1 n2"
  shows "entries_wf env s (p\<lparr>py_sys := y\<rparr>)"
proof -
  have wf: "\<forall>x \<in> set (sy_inflight (py_sys p)). entry_wf env s (snd x)"
    "\<forall>c ch. st_chans (sy_store (py_sys p)) c = Some ch \<longrightarrow> (\<forall>e \<in> set (ch_queue ch). entry_wf env s e)"
    using assms(1) by (simp_all add: entries_wf_def)
  show ?thesis
    using assms(1) sys_step_queues [OF assms(2) wf] sys_step_inflight_wf [OF assms(2,3) wf(1)]
    by (simp add: entries_wf_def)
qed

lemma entries_wf_push:
  assumes wf: "entries_wf env s p" and inv: "psys_inv s p" and i: "task_of p i = Some (Pushing e ws)"
    and st: "sys_step env (py_sys p) (APush e n1 n2) y"
  shows "entries_wf env s (p\<lparr>py_sys := y\<rparr>)"
proof -
  obtain e' c where fin: "finalizeEntry env n1 n2 (sy_ctr (py_sys p)) e = (e', c)" by fastforce
  have "entry_wf env s e" using wf i unfolding entries_wf_def by (metis task_wf.simps(2))
  then have "entry_wf env s e'" using fin finalizeEntry_wf by blast
  moreover have "sy_inflight y = sy_inflight (py_sys p) @ [(rb_subscribers (ring_of p), e')]"
    using sys_step_push(6) [OF _ st fin] inv by (simp add: psys_inv_def)
  ultimately show ?thesis
    using wf sys_step_queues [OF st, of "entry_wf env s"] unfolding entries_wf_def by auto
qed

lemma entries_wf_step:
  assumes wf: "entries_wf env s p" and inv: "psys_inv s p" and st: "proxy_step env s p a p'"
  shows "entries_wf env s p'"
  using st
proof cases
  case (request now req)
  then show ?thesis
    using wf handleRequest_wf by (auto simp: entries_wf_def task_of_new split: option.splits)
next
  case (respond i data ck resp t c)
  have "request_wf env s (cc_entry data)" using wf respond(4) unfolding entries_wf_def by (metis task_wf.simps(1))
  then have "task_wf env s t"
    using respond(5) begin_recording_wf
    by (cases rule: begin_recording_cases [of env s ck data resp "sy_ctr (py_sys p)"]) auto
  then show ?thesis using respond wf by (auto simp: entries_wf_def)
next
  case (push i e ws n1 n2 y)
  then show ?thesis using entries_wf_push [OF wf inv push(3,4)] entries_wf_set(1) by fastforce
next
  case (notify i k ws y)
  then show ?thesis using entries_wf_sys [OF wf notify(4)] by simp
next
  case (notified i k ws e)
  then have "entry_wf env s e" using wf nth_mem [of k "sy_inflight (py_sys p)"] by (fastforce simp: entries_wf_def)
  then show ?thesis using notified wf by (simp add: entries_wf_set)
next
  case (write_out i e w ws err out)
  then have "entry_wf env s e" using wf unfolding entries_wf_def by (metis task_wf.simps(3))
  then show ?thesis using write_out wf by (simp add: entries_wf_set)
next
  case (client b y)
  then show ?thesis using entries_wf_sys [OF wf client(4)] by (cases b) auto
qed (use wf in \<open>auto simp: panicking_def entries_wf_def\<close>)

lemma proxy_run_wf:
  assumes "proxy_run env s (init_psys capacity now out) as p" "outputs_total (sv_outputs s)"
  shows "entries_wf env s p"
  using assms(1)
proof (induction rule: proxy_run.induct)
  case run_nil
  then show ?case by (simp add: entries_wf_def init_psys_def init_sys_def task_of_def)
next
  case (run_snoc as q a q')
  then show ?case using entries_wf_step proxy_run_inv [OF run_snoc(1) psys_inv_init assms(2)] by blast
qed

section \<open>Progress of an exchange\<close>

fun own_action :: "nat \<Rightarrow> paction \<Rightarrow> bool" where
  "own_action i (PRespond j ck r) \<longleftrightarrow> j = i"
| "own_action i (PPush j n1 n2) \<longleftrightarrow> j = i"
| "own_action i (PNotify j) \<longleftrightarrow> j = i"
| "own_action i (PNotified j) \<longleftrightarrow> j = i"
| "own_action i (PWrite j) \<longleftrightarrow> j = i"
| "own_action i (PFinish j) \<longleftrightarrow> j = i"
| "own_action i a \<longleftrightarrow> False"

text \<open>What is left to do: the stage of the task, and the subscribers or outputs still to serve.\<close>

definition work_left :: "nat \<Rightarrow> 'w psys \<Rightarrow> nat \<times> nat" where
  "work_left i p =
     (case task_of p i of
        Some (Awaiting data) \<Rightarrow> (4, 0)
      | Some (Pushing e ws) \<Rightarrow> (3, 0)
      | Some (Notifying k ws) \<Rightarrow> (2, length (fst (sy_inflight (py_sys p) ! k)))
      | Some (Writing e ws) \<Rightarrow> (1, Suc (length ws))
      | _ \<Rightarrow> (0, 0))"

lemma proxy_step_no_panic: "proxy_step env s p a p' \<Longrightarrow> sy_panic (py_sys p) = None"
  by (auto elim!: proxy_step.cases dest: sys_step_no_panic)

lemma work_left_cong:
  "task_of p' i = task_of p i \<Longrightarrow> sy_inflight (py_sys p') = sy_inflight (py_sys p) \<Longrightarrow> work_left i p' = work_left i p"
  by (simp add: work_left_def split: option.split task.split)

lemma work_left_sys:
  assumes "psys_inv s p" "sys_step env (py_sys p) a y" "py_sys p' = y" "task_of p' i = task_of p i"
  shows "work_left i p' = work_left i p \<or> (work_left i p', work_left i p) \<in> nat_lex"
proof -
  have "k < length (sy_inflight (py_sys p))" if "task_of p i = Some (Notifying k ws)" for k ws
    using assms(1) that unfolding psys_inv_def by (metis task_ok.simps(2))
  then have "length (fst (sy_inflight y ! k)) \<le> length (fst (sy_inflight (py_sys p) ! k))"
    if "task_of p i = Some (Notifying k ws)" for k ws
    using that sys_step_inflight(3) [OF assms(2)] by blast
  then show ?thesis
    using assms(3,4) by (auto simp: work_left_def less_le split: option.splits task.splits)
qed

lemma work_left_other:
  assumes inv: "psys_inv s p" and st: "proxy_step env s p a p'" and o: "\<not> own_action i a" and i: "i < length (py_tasks p)"
  shows "work_left i p' = work_left i p \<or> (work_left i p', work_left i p) \<in> nat_lex"
  using st
proof cases
  case (push j e ws n1 n2 y)
  then show ?thesis using o by (intro work_left_sys [OF inv push(4)]) auto
next
  case (notify j k ws y)
  then show ?thesis by (intro work_left_sys [OF inv notify(4)]) auto
next
  case (client b y)
  then show ?thesis by (intro work_left_sys [OF inv client(4)]) auto
next
  case (request now req)
  then show ?thesis using i by (intro disjI1 work_left_cong) (simp_all add: task_of_new)
qed (use o in \<open>auto intro!: work_left_cong simp: panicking_def\<close>)

lemma work_left_own:
  assumes inv: "psys_inv s p" and st: "proxy_step env s p a p'" and o: "own_action i a"
    and np: "sy_panic (py_sys p') = None"
  shows "(work_left i p', work_left i p) \<in> nat_lex"
  using st
proof cases
  case (respond j data ck resp t c)
  then show ?thesis
    using o task_of_bound [of p i]
    by (cases rule: begin_recording_cases [of env s ck data resp "sy_ctr (py_sys p)"]) (auto simp: work_left_def)
next
  case (notify j k ws y)
  then obtain sub subs e chs where "k < length (sy_inflight (py_sys p))"
    "sy_inflight (py_sys p) ! k = (sub # subs, e)" "sy_inflight y = (sy_inflight (py_sys p))[k := (subs, e)]"
    using np by (auto elim: sys_step.cases)
  then show ?thesis using notify o by (simp add: work_left_def)
qed (use o np task_of_bound [of p i] in \<open>auto simp: work_left_def panicking_def\<close>)

lemma own_action_enabled:
  assumes inv: "psys_inv s p" and i: "i < length (py_tasks p)" and nd: "task_of p i \<noteq> Some Done"
    and np: "sy_panic (py_sys p) = None"
  shows "\<exists>a q. own_action i a \<and> proxy_step env s p a q"
proof -
  obtain t where t: "task_of p i = Some t" using i by (simp add: task_of_def)
  have ok: "sys_inv (py_sys p)" "task_ok s (length (sy_inflight (py_sys p))) t"
    using inv t by (auto simp: psys_inv_def)
  show ?thesis
  proof (cases t)
    case (Awaiting data)
    then have "proxy_step env s p (PRespond i undefined None) (set_task i Done (p\<lparr>py_sys := (py_sys p)\<lparr>sy_ctr := sy_ctr (py_sys p)\<rparr>\<rparr>))"
      using t np by (intro proxy_step.respond) (simp_all add: begin_recording_def)
    then show ?thesis by (intro exI conjI) (auto intro: exI)
  next
    case (Pushing e ws)
    have "ring_ok (ring_of p)" using ok(1) by (simp add: sys_inv_def)
    then obtain rb e' c where "push_locked env 0 0 (sy_ctr (py_sys p)) (ring_of p) e = Inr (rb, e', c, rb_subscribers (ring_of p))"
      using push_locked_total by blast
    from proxy_step.push [OF _ sys_step.push [OF np this]] t Pushing show ?thesis
      by (metis own_action.simps(2))
  next
    case (Notifying k ws)
    then have k: "k < length (sy_inflight (py_sys p))" using ok(2) by simp
    obtain subs e where f: "sy_inflight (py_sys p) ! k = (subs, e)" by fastforce
    show ?thesis
    proof (cases subs)
      case Nil
      then show ?thesis using proxy_step.notified [OF np _ k] f t Notifying by (metis own_action.simps(4))
    next
      case (Cons sub subs')
      obtain y where "sys_step env (py_sys p) (ANotify k) y"
        using sys_step.notify [OF np k] sys_step.notify_panic [OF np k] f Cons by (metis sum.exhaust)
      then show ?thesis using proxy_step.notify t Notifying by (metis own_action.simps(3))
    qed
  next
    case (Writing e ws)
    show ?thesis
    proof (cases ws)
      case Nil
      then show ?thesis using proxy_step.finish [OF np] t Writing by (metis own_action.simps(6))
    next
      case (Cons w ws')
      then show ?thesis
        using proxy_step.write_out [OF np] proxy_step.write_panic [OF np] t Writing
        by (metis own_action.simps(5) sum.exhaust surj_pair)
    qed
  qed (use nd t in auto)
qed

interpretation exchange: progress "proxy_step env s"
  "\<lambda>p. psys_inv s p \<and> outputs_total (sv_outputs s) \<and> i < length (py_tasks p)" "own_action i"
  "work_left i" "\<lambda>p. task_of p i = Some Done" for env s i
proof (unfold_locales, goal_cases)
  case (1 p a p')
  then have "length (py_tasks p) \<le> length (py_tasks p')" by (auto elim!: proxy_step.cases simp: panicking_def)
  then show ?case using 1 psys_step_inv by auto
next
  case (2 p a p' b t)
  then show ?case using work_left_own proxy_step_no_panic by blast
next
  case (3 p a p')
  then show ?case using work_left_other by blast
next
  case (4 p b t)
  then show ?case using own_action_enabled proxy_step_no_panic by blast
qed

section \<open>An exchange that runs alone\<close>

lemma proxy_run_single: "proxy_step env s p a q \<Longrightarrow> proxy_run env s p [a] q"
  using run_snoc [OF run_nil] by fastforce

lemma proxy_run_Cons: "proxy_step env s p a q \<Longrightarrow> proxy_run env s q as r \<Longrightarrow> proxy_run env s p (a # as) r"
  using proxy_run_append [OF proxy_run_single] by fastforce

lemma notify_all_run:
  assumes "task_of p i = Some (Notifying k ws)" "sy_panic (py_sys p) = None"
    and "k < length (sy_inflight (py_sys p))" "sy_inflight (py_sys p) ! k = (subs, e)"
    and "notifySubscribers (st_chans (sy_store (py_sys p))) subs e = Inr chs"
  shows "proxy_run env s p (replicate (length subs) (PNotify i))
    (p\<lparr>py_sys := (py_sys p)\<lparr>sy_store := (sy_store (py_sys p))\<lparr>st_chans := chs\<rparr>,
        sy_inflight := (sy_inflight (py_sys p))[k := ([], e)]\<rparr>\<rparr>)"
  using assms
proof (induction subs arbitrary: p)
  case Nil
  then have "(sy_inflight (py_sys p))[k := ([], e)] = sy_inflight (py_sys p)" by (metis list_update_id)
  moreover have c: "chs = st_chans (sy_store (py_sys p))" using Nil by simp
  ultimately show ?case unfolding c using run_nil [of env s p] by simp
next
  case (Cons sub subs)
  then obtain chs' where c: "try_send (st_chans (sy_store (py_sys p))) sub e = Inr chs'"
    "notifySubscribers chs' subs e = Inr chs" by (auto simp: go_bind_eq_Inr)
  from proxy_step.notify [OF Cons.prems(1) sys_step.notify [OF Cons.prems(2-4) c(1)]]
  show ?case
    using Cons.IH [of "p\<lparr>py_sys := (py_sys p)\<lparr>sy_store := (sy_store (py_sys p))\<lparr>st_chans := chs'\<rparr>,
        sy_inflight := (sy_inflight (py_sys p))[k := (subs, e)]\<rparr>\<rparr>"] Cons.prems c(2)
    by simp (rule proxy_run_Cons)
qed

lemma set_task_twice: "set_task i t (set_task i t' p\<lparr>py_out := out\<rparr>) = set_task i t (p\<lparr>py_out := out\<rparr>)"
  by (simp add: set_task_def)

lemma write_all_run:
  assumes "task_of p i = Some (Writing e ws)" "sy_panic (py_sys p) = None" "write_outputs ws e (py_out p) = Inr out"
  shows "proxy_run env s p (replicate (length ws) (PWrite i)) (set_task i (Writing e []) (p\<lparr>py_out := out\<rparr>))"
  using assms
proof (induction ws arbitrary: p)
  case Nil
  then have "set_task i (Writing e []) p = p"
    by (simp add: set_task_def task_of_def split: if_splits) (metis list_update_id psys.surjective psys.update_convs(3))
  moreover have o: "out = py_out p" using Nil by simp
  ultimately show ?case unfolding o using run_nil [of env s p] by simp
next
  case (Cons w ws)
  then obtain err out' where w: "w (Some e) (py_out p) = Inr (err, out')" "write_outputs ws e out' = Inr out"
    by (auto simp: go_bind_eq_Inr)
  from proxy_step.write_out [OF Cons.prems(2,1) w(1)] show ?case
    using Cons.IH [of "set_task i (Writing e ws) (p\<lparr>py_out := out'\<rparr>)"] Cons.prems w(2) task_of_bound [OF Cons.prems(1)]
    by (simp add: set_task_twice) (rule proxy_run_Cons)
qed

definition world_of :: "'w psys \<Rightarrow> 'w proxy_world" where
  "world_of p = \<lparr>pw_store = sy_store (py_sys p), pw_counter = sy_ctr (py_sys p), pw_out = py_out p\<rparr>"

text \<open>\<^verbatim>\<open>Push\<close> and the loop over the outputs, step by step.\<close>

lemma push_schedule:
  assumes i: "task_of p i = Some (Pushing e0 ws)" and np: "sy_panic (py_sys p) = None"
    and push: "Push env n1 n2 (sy_ctr (py_sys p)) (sy_store (py_sys p)) e0 = Inr (st, e, c)"
    and out: "write_outputs ws e (py_out p) = Inr out"
  shows "\<exists>as q. proxy_run env s p as q \<and> list_all (own_action i) as
    \<and> length as \<le> 3 + length (rb_subscribers (ring_of p)) + length ws
    \<and> world_of q = \<lparr>pw_store = st, pw_counter = c, pw_out = out\<rparr>
    \<and> py_tasks q = (py_tasks p)[i := Done] \<and> sy_panic (py_sys q) = None"
proof -
  obtain rb subs chs where l: "push_locked env n1 n2 (sy_ctr (py_sys p)) (ring_of p) e0 = Inr (rb, e, c, subs)"
    "notifySubscribers (st_chans (sy_store (py_sys p))) subs e = Inr chs"
    "st = (sy_store (py_sys p))\<lparr>st_ring := rb, st_chans := chs\<rparr>"
    using push by (auto simp: Push_def go_bind_eq_Inr)
  have subs: "length subs \<le> length (rb_subscribers (ring_of p))"
    using l(1) by (auto simp: push_locked_def go_bind_eq_Inr evictOldest_def split: prod.splits if_splits)
  let ?k = "length (sy_inflight (py_sys p))"
  define y1 where "y1 = (py_sys p)\<lparr>sy_store := (sy_store (py_sys p))\<lparr>st_ring := rb\<rparr>, sy_ctr := c,
    sy_inflight := sy_inflight (py_sys p) @ [(subs, e)]\<rparr>"
  define p1 where "p1 = set_task i (Notifying ?k ws) (p\<lparr>py_sys := y1\<rparr>)"
  define p2 where "p2 = p1\<lparr>py_sys := y1\<lparr>sy_store := (sy_store y1)\<lparr>st_chans := chs\<rparr>, sy_inflight := (sy_inflight y1)[?k := ([], e)]\<rparr>\<rparr>"
  define p3 where "p3 = set_task i (Writing e ws) p2"
  define p4 where "p4 = set_task i (Writing e []) (p3\<lparr>py_out := out\<rparr>)"
  note b = task_of_bound [OF i]
  have "proxy_step env s p (PPush i n1 n2) p1"
    unfolding p1_def y1_def by (rule proxy_step.push [OF i sys_step.push [OF np l(1)]])
  moreover have t1: "task_of p1 i = Some (Notifying ?k ws)" "py_sys p1 = y1" "sy_panic y1 = None"
    using b np by (simp_all add: p1_def y1_def)
  have "proxy_run env s p1 (replicate (length subs) (PNotify i)) p2"
    using notify_all_run [OF t1(1), of subs e chs env s] t1 l(2) by (simp add: p2_def y1_def)
  moreover have t2: "task_of p2 i = Some (Notifying ?k ws)" "sy_panic (py_sys p2) = None"
    using t1 by (simp_all add: p2_def)
  have "proxy_step env s p2 (PNotified i) p3"
    unfolding p3_def by (rule proxy_step.notified [OF t2(2,1)]) (simp_all add: p2_def y1_def)
  moreover have t3: "task_of p3 i = Some (Writing e ws)" "sy_panic (py_sys p3) = None" "py_out p3 = py_out p"
    using b t2 by (simp_all add: p3_def p2_def p1_def)
  have "proxy_run env s p3 (replicate (length ws) (PWrite i)) p4"
    unfolding p4_def by (rule write_all_run [OF t3(1,2)]) (use t3 out in simp)
  moreover have t4: "task_of p4 i = Some (Writing e [])" "sy_panic (py_sys p4) = None"
    using b t3 by (simp_all add: p4_def p3_def p2_def p1_def)
  have "proxy_step env s p4 (PFinish i) (set_task i Done p4)" by (rule proxy_step.finish [OF t4(2,1)])
  ultimately have "proxy_run env s p ([PPush i n1 n2] @ replicate (length subs) (PNotify i) @ [PNotified i]
      @ replicate (length ws) (PWrite i) @ [PFinish i]) (set_task i Done p4)"
    by (intro proxy_run_append) (auto intro: proxy_run_single)
  moreover have "world_of (set_task i Done p4) = \<lparr>pw_store = st, pw_counter = c, pw_out = out\<rparr>"
    by (simp add: world_of_def p4_def p3_def p2_def y1_def l(3))
  moreover have "py_tasks (set_task i Done p4) = (py_tasks p)[i := Done]"
    by (simp add: set_task_def p4_def p3_def p2_def p1_def)
  moreover have "sy_panic (py_sys (set_task i Done p4)) = None" using t4(2) by simp
  ultimately show ?thesis
    using subs by - (rule exI, rule exI, rule conjI, assumption, auto simp: list_all_iff)
qed

text \<open>\<^verbatim>\<open>recordResponse\<close> is \<open>begin_recording\<close>, then \<^verbatim>\<open>Push\<close>, then the outputs.\<close>

lemma recordResponse_begin:
  assumes "recordResponse env s ck data r w = Inr (r', w')"
  obtains "begin_recording env s ck data (Some r) (pw_counter w) = Inr (Done, pw_counter w)" "w' = w"
  | e0 ws c st e c' out where "begin_recording env s ck data (Some r) (pw_counter w) = Inr (Pushing e0 ws, c)"
      "Push env (ck_push_id ck) (ck_push_stamp ck) c (pw_store w) e0 = Inr (st, e, c')"
      "write_outputs ws e (pw_out w) = Inr out" "length ws \<le> length (sv_outputs s)"
      "w' = \<lparr>pw_store = st, pw_counter = c', pw_out = out\<rparr>"
proof -
  obtain b where b: "readBodyBounded env r (sv_responseBodyLimit s) = Inr (b, r)"
    using readBodyBounded_total by blast
  define body where "body = (if br_skipped b then [] else br_body b)"
  define ws where "ws = (if br_skipped b then [] else sv_outputs s)"
  obtain e0 c where e0: "CombineEntry env (ck_id ck) (ck_stamp ck) (pw_counter w) (cc_entry data)
      (recorder_CaptureResponse env (sv_recorder s) (rp_StatusCode r) (rp_Header r) body (cc_start data) (ck_duration ck)) = (e0, c)"
    by fastforce
  show ?thesis
  proof (cases "br_err b")
    case None
    then have br: "begin_recording env s ck data (Some r) (pw_counter w) = Inr (Pushing e0 ws, c)"
      using b e0 by (simp add: begin_recording_def recorder_CombineEntry_def body_def ws_def)
    have "push_exchange env s ck data r1 body w
        = go_bind (Push env (ck_push_id ck) (ck_push_stamp ck) c (pw_store w) e0) (\<lambda>(st, e, c'). Inr (e, w\<lparr>pw_store := st, pw_counter := c'\<rparr>))"
      if "rp_StatusCode r1 = rp_StatusCode r" "rp_Header r1 = rp_Header r" for r1
      using that e0 by (simp add: push_exchange_def recorder_CombineEntry_def)
    note p = this [of "fixContentLength r (br_body b) (br_truncated b)"] this [OF refl refl]
    have "rp_StatusCode (fixContentLength r x t) = rp_StatusCode r" "rp_Header (fixContentLength r x t) = rp_Header r" for x t
      by (simp_all add: fixContentLength_def)
    then obtain st e c' out where "Push env (ck_push_id ck) (ck_push_stamp ck) c (pw_store w) e0 = Inr (st, e, c')"
      "write_outputs ws e (pw_out w) = Inr out" "w' = w\<lparr>pw_store := st, pw_counter := c', pw_out := out\<rparr>"
      using assms None b p
      by (cases "Push env (ck_push_id ck) (ck_push_stamp ck) c (pw_store w) e0"; cases "br_skipped b"; cases w)
        (auto simp: recordResponse_def captureStreaming_def captureResponse_def body_def ws_def Let_def go_bind_eq_Inr)
    then show ?thesis using that(2) [OF br] by (cases w) (auto simp: ws_def)
  next
    case (Some x)
    then show ?thesis using that(1) assms b by (simp add: recordResponse_def begin_recording_def)
  qed
qed

lemma exchange_schedule:
  assumes i: "task_of p i = Some (Awaiting data)" and np: "sy_panic (py_sys p) = None"
    and h: "handleResponse env s ck (Some data) resp (world_of p) = Inr (resp', w')"
  shows "\<exists>as q. proxy_run env s p as q \<and> list_all (own_action i) as
    \<and> length as \<le> 4 + length (rb_subscribers (ring_of p)) + length (sv_outputs s)
    \<and> world_of q = w' \<and> py_tasks q = (py_tasks p)[i := Done] \<and> sy_panic (py_sys q) = None"
proof -
  have none: ?thesis if "begin_recording env s ck data resp (sy_ctr (py_sys p)) = Inr (Done, sy_ctr (py_sys p))" "w' = world_of p"
  proof -
    have "proxy_run env s p [PRespond i ck resp] (set_task i Done p)"
      using proxy_run_single [OF proxy_step.respond [OF np i that(1)]] by simp
    then show ?thesis
      using that(2) np by (intro exI [of _ "[PRespond i ck resp]"] exI [of _ "set_task i Done p"])
        (simp add: world_of_def set_task_def)
  qed
  have some: ?thesis
    if b: "begin_recording env s ck data resp (sy_ctr (py_sys p)) = Inr (Pushing e0 ws, c)"
      and push: "Push env (ck_push_id ck) (ck_push_stamp ck) c (sy_store (py_sys p)) e0 = Inr (st, e, c')"
      and out: "write_outputs ws e (py_out p) = Inr out" "length ws \<le> length (sv_outputs s)"
      and w': "w' = \<lparr>pw_store = st, pw_counter = c', pw_out = out\<rparr>" for e0 ws c st e c' out
  proof -
    let ?p = "set_task i (Pushing e0 ws) (p\<lparr>py_sys := (py_sys p)\<lparr>sy_ctr := c\<rparr>\<rparr>)"
    have st: "proxy_step env s p (PRespond i ck resp) ?p" by (rule proxy_step.respond [OF np i b])
    have "\<exists>as q. proxy_run env s ?p as q \<and> list_all (own_action i) as
        \<and> length as \<le> 3 + length (rb_subscribers (ring_of ?p)) + length ws
        \<and> world_of q = \<lparr>pw_store = st, pw_counter = c', pw_out = out\<rparr>
        \<and> py_tasks q = (py_tasks ?p)[i := Done] \<and> sy_panic (py_sys q) = None"
      by (rule push_schedule) (use np push out(1) task_of_bound [OF i] in simp_all)
    then obtain as q where q: "proxy_run env s ?p as q" "list_all (own_action i) as"
      "length as \<le> 3 + length (rb_subscribers (ring_of p)) + length ws"
      "world_of q = w'" "py_tasks q = (py_tasks p)[i := Done]" "sy_panic (py_sys q) = None"
      using w' by (auto simp: set_task_def)
    from proxy_run_Cons [OF st q(1)] q(2-) out(2) show ?thesis
      by (intro exI [of _ "PRespond i ck resp # as"] exI [of _ q]) simp
  qed
  show ?thesis
  proof (cases resp)
    case None
    then show ?thesis using none h by (simp add: begin_recording_def handleResponse_def responseData_def)
  next
    case (Some r)
    then have "recordResponse env s ck data r (world_of p) = Inr (the resp', w')"
      using h by (auto simp: handleResponse_def responseData_def go_bind_eq_Inr)
    then show ?thesis
      by (rule recordResponse_begin) (use none some Some in \<open>simp_all add: world_of_def\<close>)
  qed
qed

section \<open>Properties\<close>

definition demo_get :: http_request where
  "demo_get = demo_request\<lparr>rq_Method := ''GET'',
     rq_URL := \<lparr>u_Scheme = ''http'', u_Host = ''a.example'', u_Path = ''/x'', u_RawQuery = []\<rparr>\<rparr>"

lemma demo_get_captured: "shouldCapture demo_env (demo_server limit) demo_get"
  by (simp add: shouldCapture_def regexAllows_def regexExcludes_def demo_server_def demo_get_def demo_request_def demo_env_def Let_def)

lemma same_action_refl: "same_action env a a"
proof -
  have h: "same_but_credentials env h h" for h by (simp add: same_but_credentials_def)
  have "same_request env q q" for q by (simp add: same_request_def h)
  moreover have "rel_option (same_response env) r r" for r by (cases r) (simp_all add: same_response_def h)
  ultimately show ?thesis by (cases a) auto
qed

definition demo_state :: "os_state task \<Rightarrow> os_state psys" where
  "demo_state t = (init_psys 2 0 demo_os)\<lparr>py_tasks := [t]\<rparr>"

definition demo_pending :: "http_header \<Rightarrow> captureCtx" where
  "demo_pending h = the (snd (handleRequest demo_env (demo_server 5) 4 (demo_get\<lparr>rq_Header := h\<rparr>)))"

lemma demo_request_step:
  "proxy_step demo_env (demo_server 5) (init_psys 2 0 demo_os) (PRequest 4 (demo_get\<lparr>rq_Header := h\<rparr>))
     (demo_state (Awaiting (demo_pending h)))"
proof -
  let ?q = "demo_get\<lparr>rq_Header := h\<rparr>"
  have "shouldCapture demo_env (demo_server 5) ?q" using demo_get_captured [of 5] by (simp add: shouldCapture_def)
  then have "snd (handleRequest demo_env (demo_server 5) 4 ?q) = Some (demo_pending h)"
    by (simp add: handleRequest_def demo_pending_def split: prod.splits)
  then show ?thesis
    using proxy_step.request [of "init_psys 2 0 demo_os" demo_env "demo_server 5" 4 ?q]
    by (simp add: demo_state_def init_psys_def init_sys_def)
qed

lemma demo_recorded:
  "\<exists>resp' w'. handleResponse demo_env (demo_server 5) demo_clocks (Some data) (Some demo_response) (world_of (demo_state t))
     = Inr (resp', w') \<and> entries (st_ring (pw_store w')) \<noteq> []"
proof -
  have "store_ok (pw_store (world_of (demo_state t)))"
    using ring_ok_New [of 2 0]
    by (simp add: demo_state_def world_of_def init_psys_def init_sys_def store_ok_def subs_open_def) (simp add: empty_ring_def)
  from recordResponse_eof [OF this demo_world_ok(2) demo_can_read(2), of "\<lparr>rd_bytes = ''hello'', rd_err = None\<rparr>" 5 demo_clocks data]
  show ?thesis
    by (auto simp: demo_response_def demo_server_def spec_push_def handleResponse_def responseData_def)
qed

text \<open>A complete exchange, from the empty store to its last step.\<close>

lemma demo_run:
  "\<exists>as q. proxy_run demo_env (demo_server 5) (init_psys 2 0 demo_os) (PRequest 4 (demo_get\<lparr>rq_Header := h\<rparr>) # as) q
    \<and> length as \<le> 5 \<and> entries (ring_of q) \<noteq> [] \<and> task_of q 0 = Some Done \<and> PStore AClear \<notin> set as
    \<and> sy_panic (py_sys q) = None"
proof -
  let ?s = "demo_server 5"
  define data where "data = demo_pending h"
  define p where "p = demo_state (Awaiting data)"
  have "proxy_step demo_env ?s (init_psys 2 0 demo_os) (PRequest 4 (demo_get\<lparr>rq_Header := h\<rparr>)) p"
    unfolding p_def data_def by (rule demo_request_step)
  moreover obtain resp' w' where w': "handleResponse demo_env ?s demo_clocks (Some data) (Some demo_response) (world_of p) = Inr (resp', w')"
    "entries (st_ring (pw_store w')) \<noteq> []"
    using demo_recorded unfolding p_def by blast
  have "\<exists>as q. proxy_run demo_env ?s p as q \<and> list_all (own_action 0) as
    \<and> length as \<le> 4 + length (rb_subscribers (ring_of p)) + length (sv_outputs ?s)
    \<and> world_of q = w' \<and> py_tasks q = (py_tasks p)[0 := Done] \<and> sy_panic (py_sys q) = None"
    by (rule exchange_schedule [where data = data and ck = demo_clocks and resp = "Some demo_response" and resp' = resp'])
      (use w'(1) in \<open>simp_all add: p_def demo_state_def task_of_def init_psys_def init_sys_def\<close>)
  then obtain as q where "proxy_run demo_env ?s p as q" "list_all (own_action 0) as" "world_of q = w'"
    "length as \<le> 4 + length (rb_subscribers (ring_of p)) + length (sv_outputs ?s)" "py_tasks q = [Done]" "sy_panic (py_sys q) = None"
    by (auto simp: p_def demo_state_def)
  moreover have "length (rb_subscribers (ring_of p)) + length (sv_outputs ?s) = 1"
    by (simp add: p_def demo_state_def init_psys_def init_sys_def demo_server_def) (simp add: empty_ring_def)
  moreover have "entries (ring_of q) \<noteq> []" using \<open>world_of q = w'\<close> w'(2) by (auto simp: world_of_def)
  ultimately show ?thesis
    by (intro exI [of _ as] exI [of _ q]) (auto simp: task_of_def list_all_iff intro: proxy_run_Cons)
qed

text \<open>
  \<^bold>\<open>C1\<close>. Credentials leave no trace in the running system: if the requests and responses of a run
  (any number of concurrent exchanges, in any interleaving, with API clients that subscribe,
  read, leave or clear) are replaced by ones that differ only in the values of credential
  headers, the same run is possible and ends in the very same state: the same store, the
  same entries in the queues of the subscribers, the same output files, the same
  identifiers and the same unfinished tasks.
\<close>

theorem system_hides_credentials:
  assumes "proxy_run env s p as q" "list_all2 (same_action env) as bs"
  shows "proxy_run env s p bs q"
  using assms
proof (induction arbitrary: bs rule: proxy_run.induct)
  case run_nil
  then show ?case using proxy_run.run_nil by simp
next
  case (run_snoc as q a q')
  then obtain bs' b where "bs = bs' @ [b]" "list_all2 (same_action env) as bs'" "same_action env a b"
    by (auto simp: list_all2_append1 list_all2_Cons1)
  then show ?case using run_snoc same_action_step proxy_run.run_snoc by metis
qed

theorem system_hides_credentials_witness:
  "\<exists>as q. proxy_run demo_env (demo_server 5) (init_psys 2 0 demo_os) (PRequest 4 (demo_get\<lparr>rq_Header := [''Cookie'' \<mapsto> [''sid=1'']]\<rparr>) # as) q
    \<and> proxy_run demo_env (demo_server 5) (init_psys 2 0 demo_os) (PRequest 4 (demo_get\<lparr>rq_Header := [''Cookie'' \<mapsto> [''sid=2'', ''x'']]\<rparr>) # as) q
    \<and> entries (ring_of q) \<noteq> []"
proof -
  obtain as q where r: "proxy_run demo_env (demo_server 5) (init_psys 2 0 demo_os)
      (PRequest 4 (demo_get\<lparr>rq_Header := [''Cookie'' \<mapsto> [''sid=1'']]\<rparr>) # as) q" "entries (ring_of q) \<noteq> []"
    using demo_run by blast
  have "list_all2 (same_action demo_env) as as" by (simp add: list_all2_same same_action_refl)
  moreover have "same_action demo_env (PRequest 4 (demo_get\<lparr>rq_Header := [''Cookie'' \<mapsto> [''sid=1'']]\<rparr>))
      (PRequest 4 (demo_get\<lparr>rq_Header := [''Cookie'' \<mapsto> [''sid=2'', ''x'']]\<rparr>))"
    by (auto simp: same_request_def same_but_credentials_def cookie_redacted)
  ultimately show ?thesis using r system_hides_credentials [OF r(1)] by blast
qed

text \<open>
  \<^bold>\<open>C2\<close>. The store stays consistent while exchanges run concurrently: after fewer than \<open>2 ^ 63\<close>
  steps of any interleaving from the start of the proxy, the listed entries have distinct
  identifiers, each is found by \<^verbatim>\<open>Get\<close> under its identifier, no other identifier is found,
  the ring is within its capacity and every subscriber queue within 100 slots; nothing but a send on a closed channel can have
  panicked.
\<close>

theorem running_store_consistent:
  assumes "proxy_run env s (init_psys capacity now out) as p" "outputs_total (sv_outputs s)" "int (length as) < 2 ^ 63"
  shows "distinct (map ce_ID (entries (ring_of p)))
    \<and> (\<forall>x e. Get (ring_of p) x = Inr (Some e) \<longleftrightarrow> e \<in> set (entries (ring_of p)) \<and> ce_ID e = x)
    \<and> length (entries (ring_of p)) \<le> rb_capacity (ring_of p)
    \<and> (\<forall>c ch. st_chans (sy_store (py_sys p)) c = Some ch \<longrightarrow> length (ch_queue ch) \<le> 100)
    \<and> (sy_panic (py_sys p) = None \<or> sy_panic (py_sys p) = Some SendOnClosed)"
proof -
  have inv: "sys_inv (py_sys p)" using proxy_run_inv [OF assms(1) psys_inv_init assms(2)] by (simp add: psys_inv_def)
  then have ok: "ring_ok (ring_of p)" by (simp add: sys_inv_def)
  have ic: "index_complete (ring_of p)"
    using proxy_run_ids [OF assms(1) psys_inv_init ids_inv_init assms(2,3)] by (simp add: ids_inv_def)
  have "e \<in> set (entries (ring_of p)) \<and> ce_ID e = x" if g: "Get (ring_of p) x = Inr (Some e)" for x e
  proof -
    obtain e' where "e' \<in> set (entries (ring_of p))" "ce_ID e' = x"
      using Get_absent [OF ok, of x] g by (cases "x \<in> ce_ID ` set (entries (ring_of p))") auto
    then show ?thesis using Get_present [OF ok ic] g by auto
  qed
  then show ?thesis
    using inv ok entries_distinct_ids [OF ok ic] Get_present [OF ok ic]
    by (auto simp: sys_inv_def ring_ok_def ring_shape_def chans_inv_def chan_cap_def)
qed

theorem running_store_consistent_witness:
  "\<exists>as p. proxy_run demo_env (demo_server 5) (init_psys 2 0 demo_os) as p
    \<and> (\<exists>x e. Get (ring_of p) x = Inr (Some e)) \<and> distinct (map ce_ID (entries (ring_of p)))"
proof -
  obtain as p where r: "proxy_run demo_env (demo_server 5) (init_psys 2 0 demo_os) (PRequest 4 (demo_get\<lparr>rq_Header := Map.empty\<rparr>) # as) p"
    "length as \<le> 5" "entries (ring_of p) \<noteq> []" using demo_run by blast
  have "int (length (PRequest 4 (demo_get\<lparr>rq_Header := Map.empty\<rparr>) # as)) < 2 ^ 63" using r(2) by simp
  note c = running_store_consistent [OF r(1) demo_world_ok(2) this]
  have "last (entries (ring_of p)) \<in> set (entries (ring_of p))" using r(3) by simp
  then show ?thesis using c r(1) by metis
qed

text \<open>
  \<^bold>\<open>C14\<close>. Whatever the interleaving, every entry that an API client can list, look up or receive
  and every entry that is handed to an output has the form that the recorder promises: it
  has an identifier, the values of credential headers are redacted in both header maps, a
  request body does not exceed a positive request limit, and a response body is not empty,
  is printable or declared as JSON, and does not exceed a positive response limit.
\<close>

theorem running_entries_wf:
  assumes "proxy_run env s (init_psys capacity now out) as p" "outputs_total (sv_outputs s)"
  shows "(\<forall>e \<in> set (entries (ring_of p)). entry_wf env s e)
    \<and> (\<forall>c ch. st_chans (sy_store (py_sys p)) c = Some ch \<longrightarrow> (\<forall>e \<in> set (ch_queue ch). entry_wf env s e))
    \<and> (\<forall>i e ws. task_of p i = Some (Writing e ws) \<longrightarrow> entry_wf env s e)"
proof -
  have wf: "entries_wf env s p" using proxy_run_wf [OF assms] .
  have "set (entries (ring_of p)) \<subseteq> set (push_log p)"
    using proxy_run_newest [OF assms] by (auto simp: holds_newest_def dest: in_set_dropD)
  then have "\<forall>e \<in> set (entries (ring_of p)). entry_wf env s e"
    using wf by (auto simp: entries_wf_def push_log_def)
  then show ?thesis using wf by (fastforce simp: entries_wf_def)
qed

theorem running_entries_wf_witness:
  "\<exists>as p e. proxy_run demo_env (demo_server 5) (init_psys 2 0 demo_os) as p
    \<and> e \<in> set (entries (ring_of p)) \<and> entry_wf demo_env (demo_server 5) e"
proof -
  obtain as p where r: "proxy_run demo_env (demo_server 5) (init_psys 2 0 demo_os) (PRequest 4 (demo_get\<lparr>rq_Header := Map.empty\<rparr>) # as) p"
    "entries (ring_of p) \<noteq> []" using demo_run by blast
  have "last (entries (ring_of p)) \<in> set (entries (ring_of p))" using r(2) by simp
  then show ?thesis using r(1) running_entries_wf [OF r(1) demo_world_ok(2)] by blast
qed

text \<open>
  \<^bold>\<open>C6\<close>. The concurrent system implements one bounded queue: every push of a run from the start of
  the proxy adds one entry to the log of pushes, and in every state that a run reaches the
  store holds exactly the newest entries of those that were pushed after the last clear (of
  all, if there is none), in the order of the pushes and up to the configured capacity (10000
  if it is not positive).
\<close>

theorem running_store_newest:
  assumes "proxy_run env s (init_psys capacity now out) as p" "outputs_total (sv_outputs s)"
  shows "length (push_log p) = pushes as
    \<and> entries (ring_of p) = drop (max (cleared as) (pushes as - (if capacity \<le> 0 then 10000 else nat capacity))) (push_log p)"
  using proxy_run_newest [OF assms] by (auto simp: holds_newest_def)

theorem running_store_newest_witness:
  "\<exists>as p q. proxy_run demo_env (demo_server 5) (init_psys 2 0 demo_os) as p
    \<and> entries (ring_of p) = drop (pushes as - 2) (push_log p) \<and> entries (ring_of p) \<noteq> []
    \<and> proxy_run demo_env (demo_server 5) (init_psys 2 0 demo_os) (as @ [PStore AClear]) q
    \<and> length (push_log q) = pushes as \<and> entries (ring_of q) = []"
proof -
  obtain as p where r: "proxy_run demo_env (demo_server 5) (init_psys 2 0 demo_os) (PRequest 4 (demo_get\<lparr>rq_Header := Map.empty\<rparr>) # as) p"
    "PStore AClear \<notin> set as" "entries (ring_of p) \<noteq> []" "sy_panic (py_sys p) = None"
    using demo_run [of Map.empty] by blast
  let ?as = "PRequest 4 (demo_get\<lparr>rq_Header := Map.empty\<rparr>) # as"
  let ?q = "p\<lparr>py_sys := (py_sys p)\<lparr>sy_store := (sy_store (py_sys p))\<lparr>st_ring := Clear (st_ring (sy_store (py_sys p)))\<rparr>\<rparr>\<rparr>"
  have c: "proxy_run demo_env (demo_server 5) (init_psys 2 0 demo_os) (?as @ [PStore AClear]) ?q"
    by (rule run_snoc [OF r(1) proxy_step.client [OF _ sys_step.clear]]) (simp_all add: r(4))
  have "cleared ?as = 0" using r(2) by (simp add: cleared_none)
  then have "entries (ring_of p) = drop (pushes ?as - 2) (push_log p)"
    using running_store_newest [OF r(1) demo_world_ok(2)] by simp
  moreover have "length (push_log ?q) = pushes ?as" "entries (ring_of ?q) = []"
    using running_store_newest [OF c demo_world_ok(2)] pushes_simps(2,4) [of ?as "PStore AClear"] by auto
  ultimately show ?thesis using r(1,3) c by blast
qed

text \<open>An entry that is ready to be pushed is pushed before its task moves on.\<close>

definition logged :: "std_env \<Rightarrow> captured_entry \<Rightarrow> 'w psys \<Rightarrow> bool" where
  "logged env e p \<longleftrightarrow> (\<exists>n1 n2 c. fst (finalizeEntry env n1 n2 c e) \<in> set (push_log p))"

lemma sys_step_log_mono:
  assumes "sys_step env y a y'"
  shows "set (map snd (sy_inflight y)) \<subseteq> set (map snd (sy_inflight y'))"
proof (cases "\<exists>e n1 n2. a = APush e n1 n2")
  case True
  then show ?thesis using assms by (auto elim!: sys_step.cases)
next
  case False
  then show ?thesis using sys_step_log [OF assms] by (metis order_refl)
qed

lemma push_log_mono:
  assumes "proxy_step env s p a p'"
  shows "set (push_log p) \<subseteq> set (push_log p')"
  using assms by cases (use sys_step_log_mono in \<open>auto simp: push_log_def panicking_def\<close>)

lemma pushing_or_logged:
  assumes inv: "psys_inv s p" and st: "proxy_step env s p a p'"
    and h: "task_of p i = Some (Pushing e ws) \<or> logged env e p"
  shows "task_of p' i = Some (Pushing e ws) \<or> logged env e p'"
proof (cases "logged env e p")
  case True
  then show ?thesis using push_log_mono [OF st] by (auto simp: logged_def)
next
  case False
  then have i: "task_of p i = Some (Pushing e ws)" using h by blast
  from st show ?thesis
  proof cases
    case (push j e0 ws' n1 n2 y)
    obtain e' c where "finalizeEntry env n1 n2 (sy_ctr (py_sys p)) e0 = (e', c)" by fastforce
    from sys_step_push(6) [OF _ push(4) this] have "e' \<in> set (push_log p')"
      using inv push(2) by (simp add: push_log_def psys_inv_def)
    then have "logged env e0 p'"
      using \<open>finalizeEntry env n1 n2 (sy_ctr (py_sys p)) e0 = (e', c)\<close> unfolding logged_def by (metis fst_conv)
    then show ?thesis using push i by (cases "i = j") auto
  qed (use i task_of_bound [OF i] in \<open>auto simp: task_of_new\<close>)
qed

text \<open>
  \<^bold>\<open>C11\<close>. Every exchange ends: in an endless run in which no goroutine panics, an exchange is never
  held up by slow subscribers, by other exchanges or by API clients, and under weak fairness
  (if from some point on it always could take a step of its own, it takes one) its task
  finishes, past notifying all subscribers of its snapshot and writing all outputs; an
  entry that was ready to be pushed has then been pushed.
\<close>

theorem fair_exchange_finishes:
  assumes "proxy_run env s (init_psys capacity now out) as (run 0)" "outputs_total (sv_outputs s)"
    and "i < length (py_tasks (run 0))"
    and "\<And>n. proxy_step env s (run n) (act n) (run (Suc n))"
    and "\<And>n. (\<forall>m \<ge> n. \<exists>a t. own_action i a \<and> proxy_step env s (run m) a t) \<Longrightarrow> \<exists>m \<ge> n. own_action i (act m)"
  shows "\<exists>n. task_of (run n) i = Some Done
    \<and> (\<forall>e ws. task_of (run 0) i = Some (Pushing e ws) \<longrightarrow> logged env e (run n))"
proof -
  have inv: "psys_inv s (run n) \<and> outputs_total (sv_outputs s) \<and> i < length (py_tasks (run n))" for n
    by (rule exchange.steps_inv [where act = act, OF _ assms(4)])
      (use proxy_run_inv [OF assms(1) psys_inv_init assms(2)] assms(2,3) in simp)
  obtain n where n: "task_of (run n) i = Some Done"
    using exchange.fair_run_finishes [where act = act, OF inv assms(4,5)] by blast
  have "task_of (run m) i = Some (Pushing e ws) \<or> logged env e (run m)" if "task_of (run 0) i = Some (Pushing e ws)" for m e ws
    using that inv assms(4) by (induction m) (auto dest: pushing_or_logged)
  then show ?thesis using n by (metis option.inject task.distinct(13))
qed

lemma done_has_no_step: "task_of p i = Some Done \<Longrightarrow> own_action i a \<Longrightarrow> \<not> proxy_step env s p a q"
  by (auto elim!: proxy_step.cases)

lemma demo_state_clear: "proxy_step demo_env (demo_server 5) (demo_state t) (PStore AClear) (demo_state t)"
proof -
  have "Clear (empty_ring 2 0) = empty_ring 2 0" by (simp add: Clear_def empty_ring_def)
  then have "sys_step demo_env (py_sys (demo_state t)) AClear (py_sys (demo_state t))"
    using sys_step.clear [of "init_sys 2 0" demo_env] by (simp add: init_sys_def demo_state_def init_psys_def)
  from proxy_step.client [OF _ this] show ?thesis by simp
qed

theorem fair_exchange_finishes_witness:
  "\<exists>n::nat. task_of (if n = 0 then demo_state (Awaiting (demo_pending Map.empty)) else demo_state Done) 0 = Some Done"
proof -
  let ?run = "\<lambda>n::nat. if n = 0 then demo_state (Awaiting (demo_pending Map.empty)) else demo_state Done"
  let ?act = "\<lambda>n::nat. if n = 0 then PRespond 0 demo_clocks None else PStore AClear"
  have r: "proxy_step demo_env (demo_server 5) (?run n) (?act n) (?run (Suc n))" for n
  proof (cases n)
    case 0
    have "proxy_step demo_env (demo_server 5) (demo_state (Awaiting (demo_pending Map.empty))) (PRespond 0 demo_clocks None)
        (set_task 0 Done ((demo_state (Awaiting (demo_pending Map.empty)))\<lparr>py_sys := (py_sys (demo_state (Awaiting (demo_pending Map.empty))))\<lparr>sy_ctr := 0\<rparr>\<rparr>))"
      by (rule proxy_step.respond [where data = "demo_pending Map.empty"])
        (simp_all add: begin_recording_def demo_state_def init_psys_def init_sys_def task_of_def)
    then show ?thesis using 0 by (simp add: demo_state_def set_task_def init_psys_def init_sys_def)
  qed (simp add: demo_state_clear)
  have "\<exists>n. task_of (?run n) 0 = Some Done \<and> (\<forall>e ws. task_of (?run 0) 0 = Some (Pushing e ws) \<longrightarrow> logged demo_env e (?run n))"
  proof (rule fair_exchange_finishes [where run = ?run and act = ?act and as = "[PRequest 4 (demo_get\<lparr>rq_Header := Map.empty\<rparr>)]"
        and capacity = 2 and now = 0 and out = demo_os and env = demo_env and s = "demo_server 5" and i = 0])
    show "proxy_step demo_env (demo_server 5) (?run n) (?act n) (?run (Suc n))" for n by (rule r)
    show "\<exists>m \<ge> n. own_action 0 (?act m)"
      if "\<forall>m \<ge> n. \<exists>a t. own_action 0 a \<and> proxy_step demo_env (demo_server 5) (?run m) a t" for n
    proof (cases n)
      case (Suc k)
      have "task_of (demo_state Done) 0 = Some Done" by (simp add: demo_state_def task_of_def)
      then show ?thesis using that Suc done_has_no_step by (metis le_refl nat.distinct(1))
    qed auto
  qed (use proxy_run_single [OF demo_request_step, of Map.empty] demo_world_ok(2) in \<open>simp_all add: demo_state_def\<close>)
  then show ?thesis by blast
qed

end
