(* ===== verification/Stream_Delivery.thy ===== *)
theory Stream_Delivery
  imports Proxy_System "HOL-Library.Multiset"
begin

text \<open>
  What a stream client gets to see. A client that subscribes while exchanges are being
  recorded finds its entries in the queue of its channel; entries that arrive while the
  queue is full are dropped (the \<^verbatim>\<open>select\<close> with a default in \<^verbatim>\<open>notifySubscribers\<close>). This theory
  accounts for every pushed entry: it was received, is queued, is still on its way, or was
  dropped at a full queue, and each of these exactly once.
\<close>

section \<open>Observing one subscriber\<close>

definition queue_of :: "chan_id \<Rightarrow> 'w psys \<Rightarrow> captured_entry list" where
  "queue_of c p = (case st_chans (sy_store (py_sys p)) c of None \<Rightarrow> [] | Some ch \<Rightarrow> ch_queue ch)"

text \<open>The entries of the pushes that still have to notify the channel.\<close>

definition owed :: "chan_id \<Rightarrow> (chan_id list \<times> captured_entry) list \<Rightarrow> captured_entry list" where
  "owed c fs = map snd (filter (\<lambda>x. c \<in> set (fst x)) fs)"

text \<open>What a step lets the client receive, and what it drops because the queue is full.\<close>

fun received_by :: "chan_id \<Rightarrow> 'w psys \<Rightarrow> paction \<Rightarrow> captured_entry list" where
  "received_by c p (PStore (AReceive d)) = (if d = c then take 1 (queue_of c p) else [])"
| "received_by c p _ = []"

definition dropped_notice :: "chan_id \<Rightarrow> 'w psys \<Rightarrow> chan_id list \<times> captured_entry \<Rightarrow> captured_entry list" where
  "dropped_notice c p x =
     (case x of (sub # _, e) \<Rightarrow> if sub = c \<and> chan_cap \<le> length (queue_of c p) then [e] else [] | _ \<Rightarrow> [])"

fun dropped_by :: "chan_id \<Rightarrow> 'w psys \<Rightarrow> paction \<Rightarrow> captured_entry list" where
  "dropped_by c p (PNotify i) =
     (case task_of p i of Some (Notifying k ws) \<Rightarrow> dropped_notice c p (sy_inflight (py_sys p) ! k) | _ \<Rightarrow> [])"
| "dropped_by c p _ = []"

inductive observed ::
  "std_env \<Rightarrow> 'w server \<Rightarrow> chan_id \<Rightarrow> 'w psys \<Rightarrow> paction list \<Rightarrow> captured_entry list \<Rightarrow> captured_entry list \<Rightarrow> 'w psys \<Rightarrow> bool"
  for env s c p where
  obs_nil: "observed env s c p [] [] [] p"
| obs_snoc: "observed env s c p as rs ds q \<Longrightarrow> proxy_step env s q a q' \<Longrightarrow>
    observed env s c p (as @ [a]) (rs @ received_by c q a) (ds @ dropped_by c q a) q'"

lemma observed_run: "observed env s c p as rs ds q \<Longrightarrow> proxy_run env s p as q"
  by (induction rule: observed.induct) (auto intro: proxy_run.intros)

section \<open>Snapshots list a subscriber once\<close>

definition subs_once :: "sys \<Rightarrow> bool" where
  "subs_once y \<longleftrightarrow> distinct (rb_subscribers (st_ring (sy_store y))) \<and> (\<forall>x \<in> set (sy_inflight y). distinct (fst x))"

lemma subs_once_init: "subs_once (init_sys capacity now)"
  by (simp add: subs_once_def init_sys_def) (simp add: empty_ring_def Let_def)

lemma subs_once_step:
  assumes inv: "sys_inv y" and st: "sys_step env y a y'" and o: "subs_once y"
  shows "subs_once y'"
  using st
proof cases
  case (push n1 n2 e0 rb e c subs)
  then show ?thesis
    using o push_locked_total [of "st_ring (sy_store y)" env n1 n2 "sy_ctr y" e0] inv
    by (auto simp: subs_once_def sys_inv_def)
next
  case (notify k sub subs e chs)
  have "distinct (sub # subs)" using o notify(4,5) nth_mem unfolding subs_once_def by (metis fst_conv)
  then have "distinct (fst x)" if "x \<in> set ((sy_inflight y)[k := (subs, e)])" for x
    using that o set_update_subset_insert [of "sy_inflight y" k "(subs, e)"] by (auto simp: subs_once_def)
  then show ?thesis using notify o by (simp add: subs_once_def)
next
  case subscribe
  have "st_next (sy_store y) \<notin> set (rb_subscribers (st_ring (sy_store y)))"
    using inv chans_inv_subs(1) [of "sy_store y" "st_next (sy_store y)"] by (auto simp: sys_inv_def)
  then show ?thesis using subscribe o by (simp add: subs_once_def Subscribe_def Let_def)
next
  case (unsubscribe ch st)
  then show ?thesis
    using o by (auto simp: subs_once_def Unsubscribe_def go_bind_eq_Inr distinct_remove1 split: if_splits)
next
  case clear
  then show ?thesis using o by (simp add: subs_once_def Clear_def)
qed (use o in \<open>simp_all add: subs_once_def\<close>)

text \<open>Every step of the proxy is a step of the store's system or leaves what concerns it alone.\<close>

lemma proxy_step_sys:
  assumes "proxy_step env s p a p'"
  shows "(\<exists>b. sys_step env (py_sys p) b (py_sys p'))
    \<or> (sy_store (py_sys p') = sy_store (py_sys p) \<and> sy_inflight (py_sys p') = sy_inflight (py_sys p))"
  using assms by cases (auto simp: panicking_def)

lemma proxy_run_subs_once:
  assumes "proxy_run env s p as q" "psys_inv s p" "subs_once (py_sys p)" "outputs_total (sv_outputs s)"
  shows "subs_once (py_sys q)"
  using assms(1)
proof (induction rule: proxy_run.induct)
  case run_nil
  then show ?case by (rule assms(3))
next
  case (run_snoc as q a q')
  have inv: "sys_inv (py_sys q)" using proxy_run_inv [OF run_snoc(1) assms(2,4)] by (simp add: psys_inv_def)
  from proxy_step_sys [OF run_snoc(2)] show ?case
  proof
    assume "\<exists>b. sys_step env (py_sys q) b (py_sys q')"
    then show ?thesis using subs_once_step [OF inv _ run_snoc.IH] by blast
  qed (use run_snoc.IH in \<open>simp add: subs_once_def\<close>)
qed

section \<open>The account\<close>

lemma owed_append: "owed c (fs @ [(subs, e)]) = owed c fs @ (if c \<in> set subs then [e] else [])"
  by (simp add: owed_def)

lemma owed_notified:
  assumes "k < length fs" "fs ! k = (sub # subs, e)" "distinct (sub # subs)"
  shows "mset (owed c fs) = mset (owed c (fs[k := (subs, e)])) + (if sub = c then {#e#} else {#})"
proof -
  have "fs = take k fs @ (sub # subs, e) # drop (Suc k) fs"
    using id_take_nth_drop [OF assms(1)] assms(2) by simp
  then have "mset (owed c fs) = mset (owed c (take k fs @ (sub # subs, e) # drop (Suc k) fs))" by simp
  also have "\<dots> = mset (owed c (take k fs @ (subs, e) # drop (Suc k) fs)) + (if sub = c then {#e#} else {#})"
    using assms(3) by (auto simp: owed_def)
  finally show ?thesis using upd_conv_take_nth_drop [OF assms(1), of "(subs, e)"] by simp
qed

definition account :: "chan_id \<Rightarrow> nat \<Rightarrow> captured_entry list \<Rightarrow> captured_entry list \<Rightarrow> 'w psys \<Rightarrow> bool" where
  "account c n rs ds p \<longleftrightarrow> c \<in> set (rb_subscribers (ring_of p)) \<and> n \<le> length (push_log p)
     \<and> mset rs + mset ds + mset (queue_of c p) + mset (owed c (sy_inflight (py_sys p))) = mset (drop n (push_log p))"

text \<open>The send to the observed channel: queued, or dropped if there is no room.\<close>

lemma try_send_account:
  assumes inv: "chans_inv (sy_store (py_sys p))" and c: "c \<in> set (rb_subscribers (ring_of p))"
    and k: "sy_inflight (py_sys p) ! k = (sub # subs, e)"
    and t: "try_send (st_chans (sy_store (py_sys p))) sub e = Inr chs"
  shows "mset (case chs c of None \<Rightarrow> [] | Some ch \<Rightarrow> ch_queue ch) + mset (dropped_notice c p (sub # subs, e))
    = mset (queue_of c p) + (if sub = c then {#e#} else {#})"
proof -
  obtain ch where ch: "st_chans (sy_store (py_sys p)) c = Some ch" "\<not> ch_closed ch"
    using chans_inv_subs(2) [OF inv c] by blast
  show ?thesis
  proof (cases "sub = c")
    case True
    then show ?thesis
      using t ch by (auto simp: try_send_def dropped_notice_def queue_of_def split: if_splits)
  next
    case False
    then have "chs c = st_chans (sy_store (py_sys p)) c"
      using t by (auto simp: try_send_def split: option.splits if_splits)
    then show ?thesis using False by (simp add: dropped_notice_def queue_of_def)
  qed
qed

lemma account_same:
  assumes "account c n rs ds p" "sy_store (py_sys p') = sy_store (py_sys p)" "sy_inflight (py_sys p') = sy_inflight (py_sys p)"
  shows "account c n rs ds p'"
  using assms by (simp add: account_def push_log_def queue_of_def)

lemma account_push:
  assumes acc: "account c n rs ds p" and inv: "sys_inv (py_sys p)" and st: "sys_step env (py_sys p) (APush e0 n1 n2) y"
    and y: "py_sys p' = y"
  shows "account c n rs ds p'"
proof -
  obtain e c' where fin: "finalizeEntry env n1 n2 (sy_ctr (py_sys p)) e0 = (e, c')" by fastforce
  note eff = sys_step_push [OF inv st fin]
  show ?thesis
    using acc eff(6-8) y by (auto simp: account_def push_log_def queue_of_def owed_append)
qed

lemma account_notify:
  assumes acc: "account c n rs ds p" and inv: "sys_inv (py_sys p)" and o: "subs_once (py_sys p)"
    and st: "sys_step env (py_sys p) (ANotify k) y"
  shows "account c n rs (ds @ dropped_notice c p (sy_inflight (py_sys p) ! k)) (p\<lparr>py_sys := y\<rparr>)"
  using st
proof cases
  case (notify sub subs e chs)
  have ci: "chans_inv (sy_store (py_sys p))" using inv by (simp add: sys_inv_def)
  have c: "c \<in> set (rb_subscribers (ring_of p))" using acc by (simp add: account_def)
  have d: "distinct (sub # subs)" using o notify(3,4) nth_mem unfolding subs_once_def by (metis fst_conv)
  have log: "map snd (sy_inflight y) = map snd (sy_inflight (py_sys p))" using sys_step_log [OF st] by simp
  note q = try_send_account [OF ci c notify(4,5)] and ow = owed_notified [OF notify(3,4) d, of c]
  show ?thesis
    using acc q ow log notify by (auto simp: account_def push_log_def queue_of_def algebra_simps split: if_splits)
next
  case (notify_panic sub subs e x)
  have "sub \<noteq> c"
  proof
    assume "sub = c"
    moreover have "chans_inv (sy_store (py_sys p))" "c \<in> set (rb_subscribers (ring_of p))"
      using acc inv by (simp_all add: account_def sys_inv_def)
    ultimately obtain ch where "st_chans (sy_store (py_sys p)) sub = Some ch" "\<not> ch_closed ch"
      using chans_inv_subs(2) by blast
    then show False using notify_panic(5) by (simp add: try_send_def split: if_splits)
  qed
  then show ?thesis
    using account_same [OF acc, of "p\<lparr>py_sys := y\<rparr>"] notify_panic(1,4) by (simp add: dropped_notice_def)
qed

lemma account_client:
  assumes acc: "account c n rs ds p" and inv: "sys_inv (py_sys p)" and cl: "client_action b" and b: "b \<noteq> AUnsubscribe c"
    and st: "sys_step env (py_sys p) b y"
  shows "account c n (rs @ received_by c p (PStore b)) ds (p\<lparr>py_sys := y\<rparr>)"
  using st
proof cases
  case subscribe
  have "c < st_next (sy_store (py_sys p))"
    using acc inv chans_inv_subs(1) by (auto simp: account_def sys_inv_def)
  then show ?thesis
    using acc subscribe by (auto simp: account_def push_log_def queue_of_def Subscribe_def Let_def)
next
  case (unsubscribe ch st)
  have "ch \<noteq> c" using b unsubscribe by blast
  moreover have "st_chans st c = st_chans (sy_store (py_sys p)) c"
    using Unsubscribe_ok [of "sy_store (py_sys p)" ch] inv unsubscribe(4) \<open>ch \<noteq> c\<close>
    by (metis Inr_inject sys_inv_def)
  moreover have "c \<in> set (rb_subscribers (st_ring st))"
    using acc unsubscribe(4) \<open>ch \<noteq> c\<close>
    by (auto simp: account_def Unsubscribe_def go_bind_eq_Inr in_set_remove1 split: if_splits)
  ultimately show ?thesis
    using acc unsubscribe by (simp add: account_def push_log_def queue_of_def)
next
  case (receive d ch x xs)
  then show ?thesis
    using acc by (auto simp: account_def push_log_def queue_of_def)
next
  case clear
  then show ?thesis using acc by (simp add: account_def push_log_def queue_of_def Clear_def)
next
  case (unsubscribe_panic ch x)
  then show ?thesis
    using account_same [OF acc, of "p\<lparr>py_sys := y\<rparr>"] by simp
qed (use cl in simp_all)

lemma account_step:
  assumes acc: "account c n rs ds p" and inv: "psys_inv s p" and o: "subs_once (py_sys p)"
    and st: "proxy_step env s p a p'" and a: "a \<noteq> PStore (AUnsubscribe c)"
  shows "account c n (rs @ received_by c p a) (ds @ dropped_by c p a) p'"
proof -
  have y: "sys_inv (py_sys p)" using inv by (simp add: psys_inv_def)
  from st show ?thesis
  proof cases
    case (push i e ws n1 n2 y')
    then show ?thesis using account_push [OF acc y push(4), of p'] by simp
  next
    case (notify i k ws y')
    then show ?thesis using account_notify [OF acc y o notify(4)] by simp
  next
    case (client b y')
    then show ?thesis using account_client [OF acc y client(3) _ client(4)] a by simp
  qed (use account_same [OF acc, of p'] in \<open>simp_all add: panicking_def\<close>)
qed

lemma account_observed:
  assumes "observed env s c p as rs ds q" "account c n [] [] p" "psys_inv s p" "subs_once (py_sys p)"
    and "outputs_total (sv_outputs s)" "PStore (AUnsubscribe c) \<notin> set as"
  shows "account c n rs ds q"
  using assms(1,6)
proof (induction rule: observed.induct)
  case obs_nil
  then show ?case using assms(2) by simp
next
  case (obs_snoc as rs ds q a q')
  have r: "proxy_run env s p as q" using obs_snoc(1) by (rule observed_run)
  have "account c n rs ds q" using obs_snoc.IH obs_snoc.prems by simp
  then show ?case
    by (rule account_step [OF _ proxy_run_inv [OF r assms(3,5)] proxy_run_subs_once [OF r assms(3-5)] obs_snoc(2)])
      (use obs_snoc.prems in auto)
qed

text \<open>A new subscriber starts with an empty account.\<close>

lemma account_fresh:
  assumes inv: "psys_inv s p" and st: "proxy_step env s p (PStore ASubscribe) p0"
  shows "account (st_next (sy_store (py_sys p))) (length (push_log p0)) [] [] p0"
proof -
  let ?c = "st_next (sy_store (py_sys p))"
  have p0: "p0 = p\<lparr>py_sys := (py_sys p)\<lparr>sy_store := snd (Subscribe (sy_store (py_sys p)))\<rparr>\<rparr>"
    using st by (auto elim!: proxy_step.cases sys_step.cases)
  have "\<forall>x \<in> set (sy_inflight (py_sys p)). ?c \<notin> set (fst x)"
    using inv by (fastforce simp: psys_inv_def sys_inv_def)
  then show ?thesis
    by (simp add: p0 account_def Subscribe_def Let_def queue_of_def owed_def)
qed

section \<open>Properties\<close>

text \<open>
  \<^bold>\<open>C13\<close>. Streams account for every entry: from the moment a client has subscribed until it
  unsubscribes, under any interleaving of exchanges and other clients, the entries it has
  received, those dropped because its queue of 100 was full, those queued for it and those
  whose push has yet to notify it are together exactly the entries pushed since it
  subscribed, each counted once. Nothing is received twice, and nothing is lost except at a
  full queue.
\<close>

theorem stream_accounts_for_every_entry:
  assumes "proxy_run env s (init_psys capacity now out) as p" "outputs_total (sv_outputs s)"
    and "proxy_step env s p (PStore ASubscribe) p0" "c = st_next (sy_store (py_sys p))"
    and "observed env s c p0 bs rs ds q" "PStore (AUnsubscribe c) \<notin> set bs"
  shows "mset rs + mset ds + mset (queue_of c q) + mset (owed c (sy_inflight (py_sys q)))
    = mset (drop (length (push_log p)) (push_log q))"
proof -
  have inv: "psys_inv s p" using assms(1) psys_inv_init assms(2) by (rule proxy_run_inv)
  have once: "subs_once (py_sys (init_psys capacity now out))" by (simp add: init_psys_def subs_once_init)
  have r0: "proxy_run env s (init_psys capacity now out) (as @ [PStore ASubscribe]) p0"
    using assms(1,3) by (rule run_snoc)
  have "push_log p0 = push_log p"
    using assms(3) by (auto elim!: proxy_step.cases sys_step.cases simp: push_log_def)
  then have "account c (length (push_log p)) [] [] p0" using account_fresh [OF inv assms(3)] assms(4) by simp
  then have "account c (length (push_log p)) rs ds q"
    by (rule account_observed [OF assms(5) _ proxy_run_inv [OF r0 psys_inv_init assms(2)]
        proxy_run_subs_once [OF r0 psys_inv_init once assms(2)] assms(2,6)])
  then show ?thesis by (simp add: account_def)
qed

lemma run_observed: "proxy_run env s p as q \<Longrightarrow> \<exists>rs ds. observed env s c p as rs ds q"
  by (induction rule: proxy_run.induct) (blast intro: observed.intros)+

definition demo_subscribed :: "os_state task list \<Rightarrow> os_state psys" where
  "demo_subscribed ts = (init_psys 2 0 demo_os)\<lparr>py_sys := (init_sys 2 0)\<lparr>sy_store := snd (Subscribe (sy_store (init_sys 2 0)))\<rparr>,
     py_tasks := ts\<rparr>"

lemma demo_subscribe: "proxy_step demo_env (demo_server 5) (init_psys 2 0 demo_os) (PStore ASubscribe) (demo_subscribed [])"
proof -
  have "sys_step demo_env (py_sys (init_psys 2 0 demo_os)) ASubscribe (py_sys (demo_subscribed []))"
    using sys_step.subscribe [of "init_sys 2 0" demo_env] by (simp add: demo_subscribed_def init_psys_def init_sys_def)
  from proxy_step.client [OF _ this] show ?thesis by (simp add: demo_subscribed_def init_psys_def)
qed

text \<open>An exchange that is recorded while the client is subscribed.\<close>

lemma demo_subscribed_run:
  "\<exists>bs q. proxy_run demo_env (demo_server 5) (demo_subscribed []) bs q \<and> PStore (AUnsubscribe 0) \<notin> set bs
    \<and> entries (ring_of q) \<noteq> []"
proof -
  let ?s = "demo_server 5"
  obtain data where d: "snd (handleRequest demo_env ?s 4 demo_get) = Some data"
    using demo_get_captured [of 5] by (cases "recorder_CaptureRequest demo_env (sv_recorder ?s) demo_get") (simp add: handleRequest_def)
  let ?p = "demo_subscribed [Awaiting data]"
  have st: "proxy_step demo_env ?s (demo_subscribed []) (PRequest 4 demo_get) ?p"
    using proxy_step.request [of "demo_subscribed []" demo_env ?s 4 demo_get] d
    by (simp add: demo_subscribed_def init_sys_def)
  have "store_ok (pw_store (world_of ?p))"
    using ring_ok_New [of 2 0]
    by (simp add: demo_subscribed_def world_of_def init_sys_def store_ok_def subs_open_def Subscribe_def Let_def)
      (simp add: empty_ring_def)
  from recordResponse_eof [OF this demo_world_ok(2) demo_can_read(2), of "\<lparr>rd_bytes = ''hello'', rd_err = None\<rparr>" 5 demo_clocks data]
  obtain resp' w' where w': "handleResponse demo_env ?s demo_clocks (Some data) (Some demo_response) (world_of ?p) = Inr (resp', w')"
    "entries (st_ring (pw_store w')) \<noteq> []"
    by (auto simp: demo_response_def demo_server_def spec_push_def handleResponse_def responseData_def)
  have "task_of ?p 0 = Some (Awaiting data)" "sy_panic (py_sys ?p) = None"
    by (simp_all add: demo_subscribed_def task_of_def init_sys_def)
  from exchange_schedule [OF this w'(1)] obtain as q where q: "proxy_run demo_env ?s ?p as q" "list_all (own_action 0) as" "world_of q = w'"
    by blast
  have "PStore (AUnsubscribe 0) \<notin> set (PRequest 4 demo_get # as)" using q(2) by (auto simp: list_all_iff)
  moreover have "entries (ring_of q) \<noteq> []" using q(3) w'(2) by (auto simp: world_of_def)
  ultimately show ?thesis using proxy_run_Cons [OF st q(1)] by blast
qed

theorem stream_accounts_for_every_entry_witness:
  "\<exists>bs rs ds q. observed demo_env (demo_server 5) 0 (demo_subscribed []) bs rs ds q \<and> push_log q \<noteq> []
    \<and> mset rs + mset ds + mset (queue_of 0 q) + mset (owed 0 (sy_inflight (py_sys q))) = mset (push_log q)"
proof -
  obtain bs q where q: "proxy_run demo_env (demo_server 5) (demo_subscribed []) bs q" "PStore (AUnsubscribe 0) \<notin> set bs"
    "entries (ring_of q) \<noteq> []" using demo_subscribed_run by blast
  obtain rs ds where obs: "observed demo_env (demo_server 5) 0 (demo_subscribed []) bs rs ds q" using run_observed [OF q(1)] by blast
  have c: "0 = st_next (sy_store (py_sys (init_psys 2 0 demo_os)))" by (simp add: init_psys_def init_sys_def)
  have l: "push_log (init_psys 2 0 demo_os) = []" by (simp add: push_log_def init_psys_def init_sys_def)
  have "proxy_run demo_env (demo_server 5) (init_psys 2 0 demo_os) (PStore ASubscribe # bs) q"
    using proxy_run_Cons [OF demo_subscribe q(1)] .
  from proxy_run_newest [OF this demo_world_ok(2)] have "push_log q \<noteq> []" using q(3) by (auto simp: holds_newest_def)
  then show ?thesis
    using obs stream_accounts_for_every_entry [OF run_nil demo_world_ok(2) demo_subscribe c obs q(2)] l by auto
qed

end
