(* ===== verification/Api_Handlers.thy ===== *)
theory Api_Handlers
  imports Proxy_Server
begin

text \<open>
  \<^verbatim>\<open>internal/api\<close>: the handlers of the query API, the event stream and the replay endpoint.
  A handler returns what it writes; JSON bodies are values of \<open>json\<close>, the event stream is
  the text that reaches the client. The event stream is driven by the list of events its
  \<^verbatim>\<open>select\<close> sees. \<^verbatim>\<open>json.Marshal\<close> of an entry, \<^verbatim>\<open>time.Parse(RFC3339)\<close>, \<^verbatim>\<open>url.Parse\<close> and the HTTP
  client are components of \<open>api_env\<close>; routing is done by the library \<^verbatim>\<open>chi\<close>.
\<close>

section \<open>Responses\<close>

datatype json = JNull | JInt int | JString string | JTime go_time | JList "json list"
  | JObject "(string \<times> json) list" | JStrMap str_map | JHeader http_header

datatype api_body = JSONBody json | RawBody string | NoBody

record api_response =
  ar_Status :: int
  ar_Header :: str_map
  ar_Body :: api_body

definition writeJSON :: "int \<Rightarrow> json \<Rightarrow> api_response" where
  "writeJSON status v = \<lparr>ar_Status = status, ar_Header = [''Content-Type'' \<mapsto> ''application/json''], ar_Body = JSONBody v\<rparr>"

definition json_error :: "int \<Rightarrow> string \<Rightarrow> api_response" where
  "json_error status msg = writeJSON status (JObject [(''error'', JString msg)])"

definition json_opt :: "string option \<Rightarrow> json" where
  "json_opt s = (case s of None \<Rightarrow> JNull | Some x \<Rightarrow> JString x)"

text \<open>The struct tags of \<^verbatim>\<open>CapturedEntry\<close>.\<close>

definition entry_json :: "captured_entry \<Rightarrow> json" where
  "entry_json e = JObject
    [(''id'', JString (ce_ID e)), (''timestamp'', JTime (ce_Timestamp e)), (''duration_ms'', JInt (ce_DurationMs e)),
     (''method'', JString (ce_Method e)), (''url'', JString (ce_URL e)), (''scheme'', JString (ce_Scheme e)),
     (''host'', JString (ce_Host e)), (''path'', JString (ce_Path e)),
     (''request_headers'', JStrMap (ce_RequestHeaders e)), (''request_body'', json_opt (ce_RequestBody e)),
     (''status_code'', JInt (ce_StatusCode e)), (''response_headers'', JStrMap (ce_ResponseHeaders e)),
     (''response_body'', json_opt (ce_ResponseBody e)), (''content_type'', JString (ce_ContentType e))]"

record api_env =
  ae_std :: std_env
  parse_rfc3339 :: "string \<Rightarrow> go_time option"
  json_Marshal :: "captured_entry \<Rightarrow> string + string"
  url_Parse :: "string \<Rightarrow> string \<Rightarrow> string + url"
  client_Do :: "http_request \<Rightarrow> string + http_response"

section \<open>Queries\<close>

type_synonym url_values = "string \<rightharpoonup> string list"

definition values_Get :: "url_values \<Rightarrow> string \<Rightarrow> string" where
  "values_Get q k = (case q k of Some (v # _) \<Rightarrow> v | _ \<Rightarrow> [])"

definition parseTimeQuery :: "api_env \<Rightarrow> url_values \<Rightarrow> string \<Rightarrow> go_time" where
  "parseTimeQuery ae q key =
     (let raw = values_Get q key in
      if raw = [] then 0 else (case parse_rfc3339 ae raw of Some t \<Rightarrow> t | None \<Rightarrow> 0))"

definition parseIntQuery :: "url_values \<Rightarrow> string \<Rightarrow> int" where
  "parseIntQuery q key = (case atoi (values_Get q key) of None \<Rightarrow> 0 | Some n \<Rightarrow> n)"

definition parsePositiveIntQuery :: "url_values \<Rightarrow> string \<Rightarrow> int" where
  "parsePositiveIntQuery q key = (case atoi (values_Get q key) of None \<Rightarrow> 0 | Some n \<Rightarrow> if n \<le> 0 then 0 else n)"

definition listOptsFromQuery :: "api_env \<Rightarrow> url_values \<Rightarrow> list_opts" where
  "listOptsFromQuery ae q =
     \<lparr> lo_Since = parseTimeQuery ae q ''since'', lo_Method = values_Get q ''method'',
       lo_Status = parseIntQuery q ''status'', lo_URL = values_Get q ''url'',
       lo_Limit = parsePositiveIntQuery q ''limit'', lo_Offset = parsePositiveIntQuery q ''offset'' \<rparr>"

definition ListRequests :: "api_env \<Rightarrow> store \<Rightarrow> url_values \<Rightarrow> api_response go" where
  "ListRequests ae st q =
     go_bind (List_entries (st_ring st) (listOptsFromQuery ae q)) (\<lambda>r.
     let entries = (case r of None \<Rightarrow> [] | Some es \<Rightarrow> es) in
     Inr (writeJSON 200 (JObject [(''count'', JInt (int (length entries))), (''data'', JList (map entry_json entries))])))"

definition GetRequest :: "store \<Rightarrow> string \<Rightarrow> api_response go" where
  "GetRequest st i =
     go_bind (Get (st_ring st) i) (\<lambda>r.
     Inr (case r of None \<Rightarrow> json_error 404 ''entry not found'' | Some e \<Rightarrow> writeJSON 200 (entry_json e)))"

definition ClearRequests :: "store \<Rightarrow> api_response \<times> store" where
  "ClearRequests st = (writeJSON 200 (JObject [(''status'', JString ''cleared'')]), st\<lparr>st_ring := Clear (st_ring st)\<rparr>)"

text \<open>\<^verbatim>\<open>int64(time.Since(t).Seconds())\<close>, with the saturating difference of \<^verbatim>\<open>time.Since\<close>.\<close>

definition since_seconds :: "go_time \<Rightarrow> go_time \<Rightarrow> int" where
  "since_seconds start now =
     (let d = max (- (2 ^ 63)) (min (2 ^ 63 - 1) (now - start)) in sgn d * (\<bar>d\<bar> div 1000000000))"

definition GetStats :: "store \<Rightarrow> go_time \<Rightarrow> api_response" where
  "GetStats st now =
     (let s = Stats (st_ring st) in
      writeJSON 200 (JObject
        [(''count'', JInt (int (ss_Count s))), (''capacity'', JInt (int (ss_Capacity s))),
         (''evictions'', JInt (sint (ss_Evictions s))), (''bytes_captured'', JInt (sint (ss_BytesCaptured s))),
         (''uptime_seconds'', JInt (since_seconds (ss_StartTime s) now)), (''start_time'', JTime (ss_StartTime s))]))"

definition GetCA :: "string option \<Rightarrow> api_response" where
  "GetCA caPEM =
     (case caPEM of None \<Rightarrow> json_error 404 ''CA not available''
      | Some pem \<Rightarrow> \<lparr> ar_Status = 200,
          ar_Header = [''Content-Type'' \<mapsto> ''application/x-pem-file'',
                       ''Content-Disposition'' \<mapsto> ''attachment; filename=goper-ca.pem''],
          ar_Body = RawBody pem \<rparr>)"

definition serveUI :: "string \<Rightarrow> api_response" where
  "serveUI indexHTML = \<lparr>ar_Status = 200, ar_Header = [''Content-Type'' \<mapsto> ''text/html; charset=utf-8''], ar_Body = RawBody indexHTML\<rparr>"

text \<open>
  The CORS middleware around a handler: the outcome of the handler is a response or a
  stream (its head and the connection), whose head gets the same additional headers.
\<close>

definition cors_headers :: str_map where
  "cors_headers = [''Access-Control-Allow-Origin'' \<mapsto> ''*'',
     ''Access-Control-Allow-Methods'' \<mapsto> ''GET, POST, PUT, DELETE, OPTIONS'',
     ''Access-Control-Allow-Headers'' \<mapsto> ''Content-Type'']"

definition corsMiddleware ::
  "string \<Rightarrow> (api_response + str_map \<times> 'c) go \<times> 's \<Rightarrow> 's \<Rightarrow> (api_response + str_map \<times> 'c) go \<times> 's" where
  "corsMiddleware meth served st =
     (if meth = ''OPTIONS'' then (Inr (Inl \<lparr>ar_Status = 200, ar_Header = cors_headers, ar_Body = NoBody\<rparr>), st)
      else (case served of (res, st') \<Rightarrow>
        (go_bind res (\<lambda>out. Inr (case out of
           Inl r \<Rightarrow> Inl (r\<lparr>ar_Header := cors_headers ++ ar_Header r\<rparr>)
         | Inr (head, c) \<Rightarrow> Inr (cors_headers ++ head, c))), st')))"

definition CAURL :: "int \<Rightarrow> string" where
  "CAURL port = ''http://localhost:'' @ itoa port @ ''/api/ca.pem''"

section \<open>The event stream\<close>

text \<open>
  The connection of a client: what has reached the client so far, how many more bytes will
  before the connection breaks (\<open>None\<close>: it never does), and how many writes after that still
  report success because the response writer buffers. A write, and the flush that follows
  it and whose error is ignored, can be cut at any byte.
\<close>

record sse_conn =
  cn_out :: string
  cn_left :: "nat option"
  cn_late :: nat

definition conn_write :: "string \<Rightarrow> sse_conn \<Rightarrow> bool \<times> sse_conn" where
  "conn_write s c =
     (case cn_left c of
        None \<Rightarrow> (True, c\<lparr>cn_out := cn_out c @ s\<rparr>)
      | Some n \<Rightarrow>
          let c' = c\<lparr>cn_out := cn_out c @ take n s, cn_left := Some (n - length s)\<rparr> in
          if length s \<le> n then (True, c')
          else if cn_late c = 0 then (False, c')
          else (True, c'\<lparr>cn_late := cn_late c - 1\<rparr>))"

abbreviation nl :: char where "nl \<equiv> CHR 0x0A"

definition writeSSEPing :: "sse_conn \<Rightarrow> bool \<times> sse_conn" where
  "writeSSEPing c = conn_write ('': ping'' @ [nl, nl]) c"

definition writeSSE :: "api_env \<Rightarrow> captured_entry \<Rightarrow> sse_conn \<Rightarrow> bool \<times> sse_conn" where
  "writeSSE ae entry c =
     (case json_Marshal ae entry of
        Inl err \<Rightarrow> (True, c)
      | Inr data \<Rightarrow> conn_write (''data: '' @ data @ [nl, nl]) c)"

fun writeEntries :: "api_env \<Rightarrow> captured_entry list \<Rightarrow> sse_conn \<Rightarrow> bool \<times> sse_conn" where
  "writeEntries ae [] c = (True, c)"
| "writeEntries ae (e # es) c =
     (case writeSSE ae e c of (ok, c') \<Rightarrow> if \<not> ok then (False, c') else writeEntries ae es c')"

definition defaultBackfill :: int where
  "defaultBackfill = 50"

definition parseBackfill :: "string \<Rightarrow> int \<Rightarrow> int" where
  "parseBackfill v def = (case atoi v of Some n \<Rightarrow> if 0 \<le> n then n else def | None \<Rightarrow> def)"

definition backfillCount :: "url_values \<Rightarrow> int" where
  "backfillCount q =
     (let v = values_Get q ''backfill'' in if v \<noteq> [] then parseBackfill v defaultBackfill else defaultBackfill)"

definition backfill_opts :: "int \<Rightarrow> list_opts" where
  "backfill_opts n = \<lparr>lo_Since = 0, lo_Method = [], lo_Status = 0, lo_URL = [], lo_Limit = n, lo_Offset = 0\<rparr>"

definition backfillSSE :: "api_env \<Rightarrow> store \<Rightarrow> int \<Rightarrow> sse_conn \<Rightarrow> (bool \<times> sse_conn) go" where
  "backfillSSE ae st backfill c =
     (if backfill \<le> 0 then Inr (True, c)
      else go_bind (List_entries (st_ring st) (backfill_opts backfill)) (\<lambda>r.
           Inr (writeEntries ae (case r of None \<Rightarrow> [] | Some es \<Rightarrow> es) c)))"

text \<open>What the three-way \<^verbatim>\<open>select\<close> can see.\<close>

datatype sse_event = CtxDone | PingTick | Received captured_entry | ChanClosed

text \<open>\<open>None\<close> is a receive from a closed channel (\<^verbatim>\<open>ok = false\<close>).\<close>

definition writeStreamEntry :: "api_env \<Rightarrow> captured_entry option \<Rightarrow> sse_conn \<Rightarrow> bool \<times> sse_conn" where
  "writeStreamEntry ae entry c = (case entry of Some e \<Rightarrow> writeSSE ae e c | None \<Rightarrow> (False, c))"

definition streamSelect :: "api_env \<Rightarrow> sse_event \<Rightarrow> sse_conn \<Rightarrow> bool \<times> sse_conn" where
  "streamSelect ae ev c =
     (case ev of
        CtxDone \<Rightarrow> (False, c)
      | PingTick \<Rightarrow> writeSSEPing c
      | Received e \<Rightarrow> writeStreamEntry ae (Some e) c
      | ChanClosed \<Rightarrow> writeStreamEntry ae None c)"

fun streamLoop :: "api_env \<Rightarrow> sse_event list \<Rightarrow> sse_conn \<Rightarrow> sse_conn" where
  "streamLoop ae [] c = c"
| "streamLoop ae (ev # evs) c =
     (case streamSelect ae ev c of (ok, c') \<Rightarrow> if ok then streamLoop ae evs c' else c')"

text \<open>
  \<^verbatim>\<open>StreamRequests\<close>: a writer that cannot flush is refused; otherwise the head is sent, the
  history, and then the live events. While the loop runs, other goroutines turn the store
  into \<open>others st\<close>; the deferred \<^verbatim>\<open>Unsubscribe\<close> acts on that.
\<close>

definition sse_head :: str_map where
  "sse_head = [''Content-Type'' \<mapsto> ''text/event-stream'', ''Cache-Control'' \<mapsto> ''no-cache'', ''Connection'' \<mapsto> ''keep-alive'']"

definition StreamRequests ::
  "api_env \<Rightarrow> bool \<Rightarrow> url_values \<Rightarrow> sse_event list \<Rightarrow> (store \<Rightarrow> store) \<Rightarrow> store \<Rightarrow> sse_conn
     \<Rightarrow> ((api_response + str_map \<times> sse_conn) \<times> store) go" where
  "StreamRequests ae can_flush q evs others st c =
     (if \<not> can_flush then Inr (Inl (json_error 500 ''streaming not supported''), st)
      else go_bind (backfillSSE ae st (backfillCount q) c) (\<lambda>(ok, c').
        if \<not> ok then Inr (Inr (sse_head, c'), st)
        else (case Subscribe st of (ch, st1) \<Rightarrow>
                go_bind (Unsubscribe (others st1) ch) (\<lambda>st2. Inr (Inr (sse_head, streamLoop ae evs c'), st2)))))"

section \<open>Replay\<close>

definition replayMaxBody :: int64 where
  "replayMaxBody = 1048576"

definition hopByHopHeaders :: "string list" where
  "hopByHopHeaders = [''connection'', ''proxy-connection'', ''keep-alive'', ''transfer-encoding'', ''te'', ''trailer'',
     ''upgrade'', ''host'', ''content-length'']"

text \<open>The captured keys are the canonical keys of the request's header, which \<^verbatim>\<open>Header.Set\<close> keeps.\<close>

definition copyReplayHeaders :: "std_env \<Rightarrow> http_header \<Rightarrow> str_map \<Rightarrow> http_header" where
  "copyReplayHeaders env h headers =
     (\<lambda>k. case headers k of
            None \<Rightarrow> h k
          | Some v \<Rightarrow> if to_lower (unicode_lower env) k \<in> set hopByHopHeaders then h k else Some [v])"

text \<open>\<^verbatim>\<open>http.NewRequest\<close> fails on a bad method or URL (the error of \<open>url_Parse\<close>); an empty method is GET.\<close>

definition buildReplayRequest :: "api_env \<Rightarrow> captured_entry \<Rightarrow> string + http_request" where
  "buildReplayRequest ae entry =
     (case url_Parse ae (ce_Method entry) (ce_URL entry) of
        Inl err \<Rightarrow> Inl err
      | Inr u \<Rightarrow> Inr \<lparr> rq_Method = (if ce_Method entry = [] then ''GET'' else ce_Method entry), rq_URL = u, rq_Host = u_Host u,
          rq_Header = copyReplayHeaders (ae_std ae) Map.empty (ce_RequestHeaders entry),
          rq_Body = map_option (\<lambda>b. \<lparr>rd_bytes = b, rd_err = None\<rparr>) (ce_RequestBody entry) \<rparr>)"

definition performReplay :: "api_env \<Rightarrow> http_request \<Rightarrow> (string + http_response \<times> string) go" where
  "performReplay ae req =
     (case client_Do ae req of
        Inl err \<Rightarrow> Inr (Inl err)
      | Inr resp \<Rightarrow>
          go_bind (go_deref (rp_Body resp)) (\<lambda>body.
          case ReadAllLimit replayMaxBody body of ((respBody, err), rest) \<Rightarrow>
            Inr (case err of Some e \<Rightarrow> Inl e | None \<Rightarrow> Inr (resp, respBody))))"

definition replayEntry :: "api_env \<Rightarrow> go_time \<Rightarrow> go_time \<Rightarrow> captured_entry \<Rightarrow> api_response go" where
  "replayEntry ae start now entry =
     (case buildReplayRequest ae entry of
        Inl err \<Rightarrow> Inr (json_error 400 err)
      | Inr req \<Rightarrow>
          go_bind (performReplay ae req) (\<lambda>r.
          Inr (case r of
                 Inl err \<Rightarrow> json_error 502 err
               | Inr (resp, respBody) \<Rightarrow>
                   writeJSON 200 (JObject
                     [(''status_code'', JInt (rp_StatusCode resp)), (''headers'', JHeader (rp_Header resp)),
                      (''body'', JString respBody), (''duration_ms'', JInt (since_ms start now))]))))"

definition ReplayRequest :: "api_env \<Rightarrow> go_time \<Rightarrow> go_time \<Rightarrow> store \<Rightarrow> string \<Rightarrow> api_response go" where
  "ReplayRequest ae start now st i =
     go_bind (Get (st_ring st) i) (\<lambda>r.
     case r of None \<Rightarrow> Inr (json_error 404 ''entry not found'') | Some e \<Rightarrow> replayEntry ae start now e)"

section \<open>Listing\<close>

lemma ListRequests_ok:
  fixes ae :: api_env and q :: url_values and st :: store
  assumes "ring_ok (st_ring st)"
  defines "es \<equiv> spec_page (listOptsFromQuery ae q) (filter (Matches (listOptsFromQuery ae q)) (entries (st_ring st)))"
  shows "ListRequests ae st q =
    Inr (writeJSON 200 (JObject [(''count'', JInt (int (length es))), (''data'', JList (map entry_json es))]))"
proof -
  obtain r where "List_entries (st_ring st) (listOptsFromQuery ae q) = Inr r" "nil_as_empty r = es"
    using List_entries_ok [OF assms(1)] unfolding es_def by metis
  then show ?thesis by (simp add: ListRequests_def nil_as_empty_def)
qed

text \<open>The query of the \<open>i\<close>-th page of \<open>n\<close> entries.\<close>

definition page_query :: "nat \<Rightarrow> nat \<Rightarrow> url_values" where
  "page_query n i = [''limit'' \<mapsto> [itoa (int n)], ''offset'' \<mapsto> [itoa (int (i * n))]]"

definition page_response :: "captured_entry list \<Rightarrow> api_response" where
  "page_response es = writeJSON 200 (JObject [(''count'', JInt (int (length es))), (''data'', JList (map entry_json es))])"

lemma listOpts_page:
  assumes "0 < n" "n < 2 ^ 63" "i * n < 2 ^ 63"
  shows "listOptsFromQuery ae (page_query n i) = all_opts\<lparr>lo_Limit := int n, lo_Offset := int (i * n)\<rparr>"
proof -
  have "int n < 2 ^ 63" "int (i * n) < 2 ^ 63" using assms(2,3) by (simp_all flip: of_nat_mult)
  then have "atoi (itoa (int n)) = Some (int n)" "atoi (itoa (int (i * n))) = Some (int (i * n))"
    by (simp_all add: atoi_itoa del: of_nat_mult)
  moreover have "atoi [] = None" by (simp add: atoi_def)
  ultimately show ?thesis
    using assms(1) by (simp add: listOptsFromQuery_def page_query_def all_opts_def values_Get_def parseTimeQuery_def
        parseIntQuery_def parsePositiveIntQuery_def del: of_nat_mult)
qed

lemma concat_chunks: "concat (map (\<lambda>i. take n (drop (i * n) xs)) [0..<k]) = take (k * n) xs"
proof (induction k)
  case (Suc k)
  have "take (Suc k * n) xs = take (k * n) xs @ take n (drop (k * n) xs)"
    by (metis add.commute mult_Suc take_add)
  with Suc show ?case by simp
qed simp

section \<open>Frames of the event stream\<close>

definition ev_frame :: "api_env \<Rightarrow> sse_event \<Rightarrow> string" where
  "ev_frame ae ev =
     (case ev of PingTick \<Rightarrow> '': ping'' @ [nl, nl]
      | Received e \<Rightarrow> (case json_Marshal ae e of Inl _ \<Rightarrow> [] | Inr d \<Rightarrow> ''data: '' @ d @ [nl, nl])
      | _ \<Rightarrow> [])"

definition ev_payload :: "api_env \<Rightarrow> sse_event \<Rightarrow> string list" where
  "ev_payload ae ev =
     (case ev of Received e \<Rightarrow> (case json_Marshal ae e of Inl _ \<Rightarrow> [] | Inr d \<Rightarrow> [d]) | _ \<Rightarrow> [])"

definition payloads :: "api_env \<Rightarrow> sse_event list \<Rightarrow> string list" where
  "payloads ae evs = concat (map (ev_payload ae) evs)"

text \<open>
  What an event source client extracts from the text it has received: it collects the data
  lines of an event and dispatches them at the empty line that ends it; comments and other
  fields are skipped, and a line or an event that is not complete when the text ends is
  discarded.
\<close>

fun sse_dispatch :: "string \<Rightarrow> string list \<Rightarrow> string list" where
  "sse_dispatch buf [] = []"
| "sse_dispatch buf (l # ls) =
     (if l = [] then (if buf = [] then [] else [butlast buf]) @ sse_dispatch [] ls
      else if prefix ''data:'' l
      then sse_dispatch (buf @ (let v = drop 5 l in if prefix '' '' v then drop 1 v else v) @ [nl]) ls
      else sse_dispatch buf ls)"

definition sse_data :: "string \<Rightarrow> string list" where
  "sse_data s = sse_dispatch [] (butlast (split_byte nl s))"

definition one_line_json :: "api_env \<Rightarrow> bool" where
  "one_line_json ae \<longleftrightarrow> (\<forall>e d. json_Marshal ae e = Inr d \<longrightarrow> nl \<notin> set d)"

lemma sse_data_Nil [simp]: "sse_data [] = []"
  by (simp add: sse_data_def)

lemma split_event:
  assumes "nl \<notin> set l"
  shows "butlast (split_byte nl (l @ nl # nl # s)) = l # [] # butlast (split_byte nl s)"
  using split_byte_append [of nl l "nl # s"] split_byte_append [of nl "[]" s] split_byte_absent [OF assms] by simp

text \<open>The frame of an event is empty, or a line without a newline and the empty line behind it.\<close>

lemma ev_frame_cases:
  assumes "one_line_json ae"
  shows "(ev_frame ae ev = [] \<and> ev_payload ae ev = [])
    \<or> (ev_frame ae ev = '': ping'' @ [nl, nl] \<and> ev_payload ae ev = [])
    \<or> (\<exists>d. ev_frame ae ev = (''data: '' @ d) @ [nl, nl] \<and> ev_payload ae ev = [d] \<and> nl \<notin> set d)"
  using assms by (cases ev) (auto simp: ev_frame_def ev_payload_def one_line_json_def split: sum.splits)

lemma sse_data_frame:
  assumes "one_line_json ae"
  shows "sse_data (ev_frame ae ev @ rest) = ev_payload ae ev @ sse_data rest"
proof -
  have ping: "sse_data ('': ping'' @ nl # nl # rest) = sse_data rest"
    unfolding sse_data_def by (subst split_event) simp_all
  have data: "sse_data ((''data: '' @ d) @ nl # nl # rest) = d # sse_data rest" if "nl \<notin> set d" for d
    unfolding sse_data_def by (subst split_event) (use that in simp_all)
  show ?thesis using ping data ev_frame_cases [OF assms, of ev] by auto
qed

lemma sse_data_frames: "one_line_json ae \<Longrightarrow> sse_data (concat (map (ev_frame ae) evs)) = payloads ae evs"
  by (induction evs) (simp_all add: sse_data_frame payloads_def)

text \<open>A frame that is cut off before its end yields nothing.\<close>

lemma sse_data_cut_line:
  assumes "nl \<notin> set l" "strict_prefix t (l @ [nl, nl])"
  shows "sse_data t = []"
proof (cases "nl \<in> set t")
  case False
  then show ?thesis by (simp add: sse_data_def split_byte_absent)
next
  case True
  have "prefix t (l @ [nl])"
    using assms(2) by (metis append.assoc append_Cons append_Nil prefix_order.dual_order.strict_iff_order prefix_snoc)
  then have "t = l @ [nl]" using True assms(1) by (auto simp: prefix_snoc dest: set_mono_prefix)
  then have "butlast (split_byte nl t) = [l]"
    using split_byte_append [of nl l "[]"] split_byte_absent [OF assms(1)] by simp
  then show ?thesis by (simp add: sse_data_def)
qed

lemma sse_data_cut:
  assumes "one_line_json ae" "strict_prefix t (ev_frame ae ev)"
  shows "sse_data t = []"
proof -
  consider "ev_frame ae ev = []" | "ev_frame ae ev = '': ping'' @ [nl, nl]"
    | d where "ev_frame ae ev = (''data: '' @ d) @ [nl, nl]" "nl \<notin> set d"
    using ev_frame_cases [OF assms(1), of ev] by blast
  then show ?thesis
  proof cases
    case 2
    then show ?thesis using assms(2) sse_data_cut_line [of "'': ping''" t] by simp
  next
    case 3
    then show ?thesis using assms(2) sse_data_cut_line [of "''data: '' @ d" t] by simp
  qed (use assms(2) in simp)
qed

text \<open>Where a text that ends somewhere in the frames ends.\<close>

lemma frames_cut:
  assumes "prefix s (concat (map (ev_frame ae) evs))"
  obtains m t where "m \<le> length evs" "s = concat (map (ev_frame ae) (take m evs)) @ t"
    "t = [] \<or> m < length evs \<and> strict_prefix t (ev_frame ae (evs ! m))"
  using assms
proof (induction evs arbitrary: s thesis)
  case Nil
  then show ?case by simp
next
  case (Cons ev evs)
  show ?case
  proof (cases "prefix (ev_frame ae ev) s")
    case True
    then obtain s' where s: "s = ev_frame ae ev @ s'" by (auto simp: prefix_def)
    then obtain m t where "m \<le> length evs" "s' = concat (map (ev_frame ae) (take m evs)) @ t"
      "t = [] \<or> m < length evs \<and> strict_prefix t (ev_frame ae (evs ! m))"
      using Cons.IH [of s'] Cons.prems(2) by auto
    then show ?thesis using Cons.prems(1) [of "Suc m" t] s by auto
  next
    case False
    then have "strict_prefix s (ev_frame ae ev)"
      using Cons.prems(2) by (metis concat.simps(2) list.map(2) prefix_append prefix_order.less_le prefix_order.refl prefix_prefix prefix_same_cases)
    then show ?thesis using Cons.prems(1) [of 0 s] by simp
  qed
qed

definition ends_stream :: "sse_event \<Rightarrow> bool" where
  "ends_stream ev \<longleftrightarrow> ev = CtxDone \<or> ev = ChanClosed"

definition cut :: "nat option \<Rightarrow> string \<Rightarrow> string" where
  "cut l s = (case l of None \<Rightarrow> s | Some n \<Rightarrow> take n s)"

lemma streamSelect_frame:
  assumes "streamSelect ae ev c = (ok, c')"
  shows "cn_out c' = cn_out c @ cut (cn_left c) (ev_frame ae ev)"
    and "cn_left c' = map_option (\<lambda>n. n - length (ev_frame ae ev)) (cn_left c)"
  using assms
  by (auto simp: streamSelect_def writeStreamEntry_def ev_frame_def writeSSE_def writeSSEPing_def conn_write_def cut_def Let_def
      option.map_id0 [unfolded id_def] split: sse_event.splits sum.splits option.splits if_splits)

lemma streamLoop_frames:
  "\<exists>m \<le> length evs. cn_out (streamLoop ae evs c) = cn_out c @ cut (cn_left c) (concat (map (ev_frame ae) (take m evs)))"
proof (induction evs arbitrary: c)
  case Nil
  then show ?case by (simp add: cut_def split: option.splits)
next
  case (Cons ev evs)
  obtain ok c' where s: "streamSelect ae ev c = (ok, c')" by fastforce
  note f = streamSelect_frame [OF s]
  show ?case
  proof (cases ok)
    case True
    obtain m where "m \<le> length evs" "cn_out (streamLoop ae evs c') = cn_out c' @ cut (cn_left c') (concat (map (ev_frame ae) (take m evs)))"
      using Cons.IH by blast
    then show ?thesis using True f s by (intro exI [of _ "Suc m"]) (auto simp: cut_def split: option.splits)
  next
    case False
    then show ?thesis using f s by (intro exI [of _ 1]) simp
  qed
qed

lemma cut_prefix: "prefix (cut l s) s"
  by (simp add: cut_def take_is_prefix split: option.splits)

lemma streamLoop_healthy:
  "cn_left c = None \<Longrightarrow> \<not> list_ex ends_stream evs \<Longrightarrow>
     streamLoop ae evs c = c\<lparr>cn_out := cn_out c @ concat (map (ev_frame ae) evs)\<rparr>"
proof (induction evs arbitrary: c)
  case (Cons ev evs)
  have "streamSelect ae ev c = (True, c\<lparr>cn_out := cn_out c @ ev_frame ae ev\<rparr>)"
    using Cons.prems by (auto simp: streamSelect_def writeStreamEntry_def ev_frame_def ends_stream_def writeSSE_def writeSSEPing_def
        conn_write_def split: sse_event.splits sum.splits)
  then show ?case using Cons by simp
qed simp

lemma writeEntries_loop: "writeEntries ae es c = (True, c') \<Longrightarrow> streamLoop ae (map Received es) c = c'"
  by (induction es arbitrary: c) (auto simp: streamSelect_def writeStreamEntry_def split: prod.splits if_splits)

lemma writeEntries_healthy:
  assumes "cn_left c = None"
  shows "writeEntries ae es c = (True, c\<lparr>cn_out := cn_out c @ concat (map (ev_frame ae) (map Received es))\<rparr>)"
  using assms
proof (induction es arbitrary: c)
  case (Cons e es)
  then show ?case by (auto simp: writeSSE_def conn_write_def ev_frame_def split: sum.splits)
qed simp

definition demo_api :: api_env where
  "demo_api = \<lparr> ae_std = demo_env, parse_rfc3339 = (\<lambda>_. None), json_Marshal = (\<lambda>e. Inr (filter (\<lambda>c. c \<noteq> nl) (ce_ID e))),
     url_Parse = (\<lambda>m u. Inr \<lparr>u_Scheme = ''http'', u_Host = ''a.example'', u_Path = ''/login'', u_RawQuery = []\<rparr>),
     client_Do = (\<lambda>_. Inl ''refused'') \<rparr>"

text \<open>A store that holds two entries.\<close>

lemma two_entries: "\<exists>st :: store. ring_inv (st_ring st) \<and> entries (st_ring st) = [demo_entry ''a'', demo_entry ''b'']"
proof -
  have "ring_inv (empty_ring 2 1)"
    by (simp add: ring_inv_def ring_ok_New index_complete_New)
  moreover have "rb_capacity (empty_ring 2 1) = 2"
    by (simp add: empty_ring_def)
  ultimately obtain rb where "ring_inv rb" "entries rb = [demo_entry ''a'', demo_entry ''b'']"
    using ring.push_all_newest [of "empty_ring 2 1" "[demo_entry ''a'', demo_entry ''b'']" demo_env]
    by (auto simp: final_entry_def demo_entry_def is_zero_time_def zero_entry_def)
  then show ?thesis by (intro exI [of _ "demo_store\<lparr>st_ring := rb\<rparr>"]) simp
qed

section \<open>Properties\<close>

text \<open>
  \<^bold>\<open>C35\<close>. Paging through the listing shows every entry exactly once: asking for page 0, 1, 2, ... of
  any size with the query parameters limit and offset, until the pages cover the store,
  returns pages whose concatenation is the whole list of entries, oldest first, each page
  with its own count.
\<close>

theorem ListRequests_pages:
  assumes "ring_ok (st_ring st)" "0 < n" "n < 2 ^ 63" "k * n < 2 ^ 63" "length (entries (st_ring st)) \<le> k * n"
  shows "\<exists>pages. length pages = k \<and> concat pages = entries (st_ring st)
    \<and> (\<forall>i < k. ListRequests ae st (page_query n i) = Inr (page_response (pages ! i)))"
proof -
  let ?xs = "entries (st_ring st)"
  let ?pages = "map (\<lambda>i. take n (drop (i * n) ?xs)) [0..<k]"
  have "ListRequests ae st (page_query n i) = Inr (page_response (?pages ! i))" if "i < k" for i
  proof -
    have "i * n \<le> k * n" using that by simp
    then have "i * n < 2 ^ 63" using assms(4) by linarith
    note q = listOpts_page [OF assms(2,3) this, of ae]
    have "spec_page (listOptsFromQuery ae (page_query n i))
        (filter (Matches (listOptsFromQuery ae (page_query n i))) ?xs) = take n (drop (i * n) ?xs)"
      unfolding q using assms(2) by (simp add: spec_page_def nat_mult_distrib)
    then show ?thesis
      using ListRequests_ok [OF assms(1), of ae "page_query n i"] that by (simp add: page_response_def)
  qed
  moreover have "concat ?pages = ?xs"
    using concat_chunks [of n ?xs k] assms(5) by simp
  ultimately show ?thesis by (intro exI [of _ ?pages]) simp
qed

theorem ListRequests_pages_witness:
  "\<exists>st pages. length pages = 2 \<and> concat pages = [demo_entry ''a'', demo_entry ''b'']
    \<and> (\<forall>i < 2. ListRequests demo_api st (page_query 1 i) = Inr (page_response (pages ! i)))"
proof -
  obtain st :: store where "ring_inv (st_ring st)" and e: "entries (st_ring st) = [demo_entry ''a'', demo_entry ''b'']"
    using two_entries by blast
  then have "ring_ok (st_ring st)" by (simp add: ring_inv_def)
  from ListRequests_pages [OF this, of 1 2 demo_api] e show ?thesis by auto
qed

text \<open>
  The read endpoints agree with the store: an entry is served under its own identifier, any
  other identifier is answered with 404, and after clearing every identifier is answered
  with 404 and the listing is empty.
\<close>

theorem GetRequest_agrees:
  assumes "ring_inv (st_ring st)"
  shows "(\<forall>e \<in> set (entries (st_ring st)). GetRequest st (ce_ID e) = Inr (writeJSON 200 (entry_json e)))
    \<and> (\<forall>i. i \<notin> ce_ID ` set (entries (st_ring st)) \<longrightarrow> GetRequest st i = Inr (json_error 404 ''entry not found''))
    \<and> (\<forall>i. GetRequest (snd (ClearRequests st)) i = Inr (json_error 404 ''entry not found''))
    \<and> ListRequests ae (snd (ClearRequests st)) q = Inr (page_response [])"
proof -
  have c: "ring_inv (Clear (st_ring st))" "entries (Clear (st_ring st)) = []"
    using ring.clear [OF assms] by blast+
  then have "ring_ok (Clear (st_ring st))" by (simp add: ring_inv_def)
  then have "ListRequests ae (snd (ClearRequests st)) q = Inr (page_response [])"
    using ListRequests_ok [of "snd (ClearRequests st)" ae q]
    by (simp add: ClearRequests_def page_response_def spec_page_def)
  then show ?thesis
    using ring.get_present [OF assms] ring.get_absent [OF assms] ring.get_absent [OF c(1)] c(2)
    by (simp add: GetRequest_def ClearRequests_def)
qed

theorem GetRequest_agrees_witness:
  "\<exists>st. GetRequest st ''b'' = Inr (writeJSON 200 (entry_json (demo_entry ''b'')))
     \<and> GetRequest (snd (ClearRequests st)) ''b'' = Inr (json_error 404 ''entry not found'')"
proof -
  obtain st :: store where i: "ring_inv (st_ring st)" and e: "entries (st_ring st) = [demo_entry ''a'', demo_entry ''b'']"
    using two_entries by blast
  have "ce_ID (demo_entry ''b'') = ''b''" by (simp add: demo_entry_def)
  then show ?thesis
    using GetRequest_agrees [OF i, of demo_api "\<lambda>_. None"] e by (intro exI [of _ st]) auto
qed

text \<open>
  The history sent to a new stream client is the oldest part of the store: with a limit of \<open>n\<close>
  the client receives the first \<open>n\<close> entries, oldest first, so as soon as the store holds
  more than \<open>n\<close> entries these are not the \<open>n\<close> most recent ones.
\<close>

theorem backfill_sends_oldest:
  assumes "ring_inv (st_ring st)" "0 < n" "cn_left c = None"
  defines "es \<equiv> entries (st_ring st)"
  shows "backfillSSE ae st n c = Inr (True, c\<lparr>cn_out := cn_out c
             @ concat (map (ev_frame ae) (map Received (take (nat n) es)))\<rparr>)
    \<and> (nat n < length es \<longrightarrow> distinct es \<longrightarrow> take (nat n) es \<noteq> drop (length es - nat n) es)"
proof -
  have "backfill_opts n = all_opts\<lparr>lo_Limit := n\<rparr>" by (simp add: backfill_opts_def all_opts_def)
  then obtain r where "List_entries (st_ring st) (backfill_opts n) = Inr r" "nil_as_empty r = take (nat n) es"
    using ring.list_limit_prefix [OF assms(1,2)] unfolding es_def by metis
  then have "backfillSSE ae st n c = Inr (writeEntries ae (take (nat n) es) c)"
    using assms(2) by (simp add: backfillSSE_def nil_as_empty_def)
  moreover have "take (nat n) es \<noteq> drop (length es - nat n) es" if "nat n < length es" "distinct es"
  proof
    assume eq: "take (nat n) es = drop (length es - nat n) es"
    have "es ! 0 = take (nat n) es ! 0" using assms(2) that(1) by simp
    also have "\<dots> = es ! (length es - nat n)" unfolding eq using assms(2) that(1) by simp
    finally show False
      using nth_eq_iff_index_eq [OF that(2), of 0 "length es - nat n"] that(1) assms(2) by (cases "es = []") simp_all
  qed
  ultimately show ?thesis by (simp only: writeEntries_healthy [OF assms(3)]) simp
qed

theorem backfill_sends_oldest_witness:
  "\<exists>st. entries (st_ring st) = [demo_entry ''a'', demo_entry ''b'']
     \<and> backfillSSE demo_api st 1 \<lparr>cn_out = [], cn_left = None, cn_late = 0\<rparr>
       = Inr (True, \<lparr>cn_out = ''data: a'' @ [nl, nl], cn_left = None, cn_late = 0\<rparr>)"
proof -
  obtain st :: store where i: "ring_inv (st_ring st)" and e: "entries (st_ring st) = [demo_entry ''a'', demo_entry ''b'']"
    using two_entries by blast
  then show ?thesis
    using backfill_sends_oldest [OF i, of 1 "\<lparr>cn_out = [], cn_left = None, cn_late = 0\<rparr>" demo_api]
    by (intro exI [of _ st]) (simp add: ev_frame_def demo_api_def demo_entry_def)
qed

text \<open>
  \<^bold>\<open>C34\<close>. The event stream is read back without loss or corruption, provided that serialised
  entries contain no raw newline (which JSON escapes): at whatever byte the connection
  breaks, and however many writes the server believes to have succeeded afterwards, what
  the client has received are the frames of the first events and a part of the next one,
  and what it extracts are exactly the serialised entries of the frames that arrived whole,
  in order; keep-alive comments and the cut frame are invisible. On a connection that stays
  up, while the stream is neither cancelled nor closed, these are all entries.
\<close>

theorem stream_roundtrip:
  assumes "one_line_json ae"
  defines "received \<equiv> \<lambda>evs l w. cn_out (streamLoop ae evs \<lparr>cn_out = [], cn_left = l, cn_late = w\<rparr>)"
  shows "(\<exists>m t. m \<le> length evs \<and> received evs l w = concat (map (ev_frame ae) (take m evs)) @ t
        \<and> (t = [] \<or> m < length evs \<and> strict_prefix t (ev_frame ae (evs ! m)))
        \<and> sse_data (received evs l w) = payloads ae (take m evs))
    \<and> (\<not> list_ex ends_stream evs \<longrightarrow> sse_data (received evs None w) = payloads ae evs)"
proof -
  obtain m where m: "received evs l w = cut l (concat (map (ev_frame ae) (take m evs)))"
    using streamLoop_frames [of evs ae "\<lparr>cn_out = [], cn_left = l, cn_late = w\<rparr>"] by (auto simp: received_def)
  have "concat (map (ev_frame ae) evs) = concat (map (ev_frame ae) (take m evs)) @ concat (map (ev_frame ae) (drop m evs))"
    by (metis append_take_drop_id concat_append map_append)
  then have "prefix (received evs l w) (concat (map (ev_frame ae) evs))"
    unfolding m using cut_prefix by (metis prefix_prefix)
  then obtain n t where n: "n \<le> length evs" "received evs l w = concat (map (ev_frame ae) (take n evs)) @ t"
    "t = [] \<or> n < length evs \<and> strict_prefix t (ev_frame ae (evs ! n))"
    using frames_cut by blast
  have "sse_data (concat (map (ev_frame ae) xs) @ t) = payloads ae xs" for xs
  proof (induction xs)
    case Nil
    then show ?case using n(3) sse_data_cut [OF assms(1)] by (auto simp: payloads_def)
  qed (simp add: sse_data_frame [OF assms(1)] payloads_def)
  then have "sse_data (received evs l w) = payloads ae (take n evs)" unfolding n(2) .
  then show ?thesis
    using n streamLoop_healthy [of "\<lparr>cn_out = [], cn_left = None, cn_late = w\<rparr>" evs ae] sse_data_frames [OF assms(1), of evs]
    by (auto simp: received_def)
qed

theorem stream_roundtrip_witness:
  "sse_data (cn_out (streamLoop demo_api [Received (demo_entry ''a''), PingTick, Received (demo_entry ''b'')]
      \<lparr>cn_out = [], cn_left = None, cn_late = 0\<rparr>)) = [''a'', ''b'']
   \<and> sse_data (cn_out (streamLoop demo_api [Received (demo_entry ''a''), Received (demo_entry ''b'')]
      \<lparr>cn_out = [], cn_left = Some 16, cn_late = 1\<rparr>)) = [''a'']"
proof -
  have "one_line_json demo_api" by (auto simp: one_line_json_def demo_api_def)
  from stream_roundtrip [OF this, of "[Received (demo_entry ''a''), PingTick, Received (demo_entry ''b'')]" None 0]
  show ?thesis
    by (simp add: ends_stream_def payloads_def ev_payload_def demo_api_def demo_entry_def streamSelect_def writeStreamEntry_def
        writeSSE_def conn_write_def sse_data_def Let_def)
qed

text \<open>
  \<^bold>\<open>C36\<close>. A replayed request carries exactly what was recorded and never a credential: the request
  built from a captured request has its method (GET, if that is empty), its recorded body (none if the body was
  not recorded) and its headers without the hop-by-hop ones; a credential header that the
  original request had is sent with the redaction placeholder as its value.
\<close>

theorem replay_request_content:
  assumes "buildReplayRequest ae (fst (recorder_CaptureRequest (ae_std ae) r req)) = Inr req'"
  shows "rq_Method req' = (if rq_Method req = [] then ''GET'' else rq_Method req)
    \<and> rq_Body req' = map_option (\<lambda>b. \<lparr>rd_bytes = b, rd_err = None\<rparr>)
        (ce_RequestBody (fst (recorder_CaptureRequest (ae_std ae) r req)))
    \<and> rq_Header req' k =
        (if to_lower (unicode_lower (ae_std ae)) k \<in> set hopByHopHeaders then None
         else map_option (\<lambda>v. [if redactHeader (to_lower (unicode_lower (ae_std ae)) k) then redacted_value else joinValues v])
           (rq_Header req k))"
proof -
  have "ce_RequestHeaders (fst (recorder_CaptureRequest (ae_std ae) r req)) = headersToMap (ae_std ae) (rq_Header req)"
    "ce_Method (fst (recorder_CaptureRequest (ae_std ae) r req)) = rq_Method req"
    by (auto simp: recorder_CaptureRequest_def captureRequest_def request_entry_def Let_def split: option.splits prod.splits)
  then show ?thesis
    using assms by (auto simp: buildReplayRequest_def copyReplayHeaders_def headersToMap_def split: sum.splits option.splits)
qed

theorem replay_request_content_witness:
  "\<exists>req'. buildReplayRequest demo_api (fst (recorder_CaptureRequest demo_env (NewDefaultRecorder 0 0) demo_request)) = Inr req'
     \<and> rq_Header req' ''Cookie'' = Some [''***REDACTED***'']"
proof -
  obtain req' where r: "buildReplayRequest demo_api (fst (recorder_CaptureRequest demo_env (NewDefaultRecorder 0 0) demo_request)) = Inr req'"
    by (simp add: buildReplayRequest_def demo_api_def)
  have "to_lower ul ''Cookie'' \<notin> set hopByHopHeaders" for ul
    by (simp add: to_lower_ascii lower_byte_def char_of_eq_iff hopByHopHeaders_def)
  then show ?thesis
    using replay_request_content [of demo_api "NewDefaultRecorder 0 0" demo_request req' "''Cookie''"] r cookie_redacted
    by (auto simp: demo_api_def demo_request_def redacted_value_def)
qed

end
