(* ===== verification/Tls_Sni.thy ===== *)
theory Tls_Sni
  imports Go_Strings
begin

text \<open>
  \<^verbatim>\<open>internal/proxy/transparent_shared.go\<close>: reading the server name from a TLS ClientHello
  that is peeked, not consumed, from a buffered connection. The input is chosen by the
  peer, so every array access of the code is modelled with its bounds check and the
  absence of panics is a theorem. Offsets are natural numbers: all of them are sums of
  lengths below \<open>2 ^ 16\<close>, far from the range of \<^verbatim>\<open>int\<close>.
\<close>

section \<open>Big-endian lengths\<close>

text \<open>\<^verbatim>\<open>int(hi)<<8 | int(lo)\<close>.\<close>

definition be16 :: "byte \<Rightarrow> byte \<Rightarrow> nat" where
  "be16 hi lo = or (push_bit 8 (unat hi)) (unat lo)"

lemma be16_arith: "be16 hi lo = 256 * unat hi + unat lo"
proof -
  have "and (push_bit 8 (unat hi)) (unat lo) = 0"
  proof (rule bit_eqI)
    fix n
    have "\<not> bit (unat lo) n" if "8 \<le> n"
      using that bit_imp_le_length [of lo n] by (auto simp: bit_unsigned_iff)
    then show "bit (and (push_bit 8 (unat hi)) (unat lo)) n = bit 0 n"
      by (auto simp: bit_and_iff bit_push_bit_iff)
  qed
  then show ?thesis
    by (simp add: be16_def push_bit_eq_mult flip: disjunctive_add_eq_or)
qed

definition read16 :: "byte list \<Rightarrow> nat \<Rightarrow> nat go" where
  "read16 data off =
     go_bind (go_index data off) (\<lambda>hi. go_bind (go_index data (off + 1)) (\<lambda>lo. Inr (be16 hi lo)))"

lemma read16_Inr [simp, go_simps]:
  "off + 1 < length data \<Longrightarrow> read16 data off = Inr (be16 (data ! off) (data ! (off + 1)))"
  by (simp add: read16_def)

text \<open>\<^verbatim>\<open>string(bytes)\<close>.\<close>

definition bytes_string :: "byte list \<Rightarrow> string" where
  "bytes_string bs = map (\<lambda>b. char_of (unat b)) bs"

section \<open>The ServerNameList\<close>

definition isDNSEntry :: "byte \<Rightarrow> nat \<Rightarrow> nat \<Rightarrow> nat \<Rightarrow> bool" where
  "isDNSEntry nameType nameLen nameOffset nameEnd \<longleftrightarrow>
     nameType = 0 \<and> 0 < nameLen \<and> nameOffset + nameLen \<le> nameEnd"

definition clampServerNameListEnd :: "nat \<Rightarrow> nat \<Rightarrow> nat \<Rightarrow> nat" where
  "clampServerNameListEnd nameEnd extStart extLen =
     (if extStart + extLen < nameEnd then extStart + extLen else nameEnd)"

text \<open>The loop of \<^verbatim>\<open>sniFromServerNameList\<close>; the empty string is "no name".\<close>

function sni_names :: "byte list \<Rightarrow> nat \<Rightarrow> nat \<Rightarrow> string go" where
  "sni_names data nameOffset nameEnd =
     (if nameOffset + 3 \<le> nameEnd then
        go_bind (go_index data nameOffset) (\<lambda>nameType.
        go_bind (read16 data (nameOffset + 1)) (\<lambda>nameLen.
          (if isDNSEntry nameType nameLen (nameOffset + 3) nameEnd
           then go_bind (go_slice data (nameOffset + 3) (nameOffset + 3 + nameLen))
                  (\<lambda>bs. Inr (bytes_string bs))
           else sni_names data (nameOffset + 3 + nameLen) nameEnd)))
      else Inr [])"
  by pat_completeness auto
termination
  by (relation "measure (\<lambda>(data, off, stop). stop - off)") auto

declare sni_names.simps [simp del]

definition sniFromServerNameList :: "byte list \<Rightarrow> nat \<Rightarrow> nat \<Rightarrow> nat \<Rightarrow> string go" where
  "sniFromServerNameList data offset stop extLen =
     go_bind (read16 data offset) (\<lambda>listLen.
       (let nameOffset = offset + 2;
            nameEnd = clampServerNameListEnd (nameOffset + listLen) offset extLen
        in sni_names data nameOffset nameEnd))"

section \<open>The extensions\<close>

definition isSNIExtension :: "nat \<Rightarrow> nat \<Rightarrow> nat \<Rightarrow> nat \<Rightarrow> bool" where
  "isSNIExtension extType extLen offset stop \<longleftrightarrow> extType = 0 \<and> 5 < extLen \<and> offset + extLen \<le> stop"

definition sniFromExtension :: "byte list \<Rightarrow> nat \<Rightarrow> nat \<Rightarrow> nat \<Rightarrow> nat \<Rightarrow> string go" where
  "sniFromExtension data offset stop extType extLen =
     (if \<not> isSNIExtension extType extLen offset stop then Inr []
      else sniFromServerNameList data offset stop extLen)"

function sniFromExtensions :: "byte list \<Rightarrow> nat \<Rightarrow> nat \<Rightarrow> string go" where
  "sniFromExtensions data offset stop =
     (if offset + 4 \<le> stop then
        go_bind (read16 data offset) (\<lambda>extType.
        go_bind (read16 data (offset + 2)) (\<lambda>extLen.
        go_bind (sniFromExtension data (offset + 4) stop extType extLen) (\<lambda>name.
          (if name \<noteq> [] then Inr name
           else sniFromExtensions data (offset + 4 + extLen) stop))))
      else Inr [])"
  by pat_completeness auto
termination
  by (relation "measure (\<lambda>(data, off, stop). stop - off)") auto

declare sniFromExtensions.simps [simp del]

section \<open>The fixed part of the ClientHello\<close>

text \<open>\<open>None\<close> is \<^verbatim>\<open>ok = false\<close>: the data is truncated.\<close>

definition skipSessionAndCipher :: "byte list \<Rightarrow> nat \<Rightarrow> nat option go" where
  "skipSessionAndCipher data offset =
     (if length data < offset + 1 then Inr None
      else go_bind (go_index data offset) (\<lambda>sessionIDLen.
        (let offset1 = offset + (1 + unat sessionIDLen) in
         if length data < offset1 + 2 then Inr None
         else go_bind (read16 data offset1) (\<lambda>cipherSuiteLen.
           Inr (Some (offset1 + (2 + cipherSuiteLen)))))))"

definition skipClientHelloVariable :: "byte list \<Rightarrow> nat \<Rightarrow> nat option go" where
  "skipClientHelloVariable data offset0 =
     go_bind (skipSessionAndCipher data offset0) (\<lambda>r. case r of None \<Rightarrow> Inr None
      | Some offset \<Rightarrow>
          (if length data < offset + 1 then Inr None
           else go_bind (go_index data offset) (\<lambda>compressionLen.
             Inr (Some (offset + (1 + unat compressionLen))))))"

definition skipClientHelloVersionRandom :: "byte list \<Rightarrow> nat \<Rightarrow> nat option" where
  "skipClientHelloVersionRandom data offset =
     (if length data < offset + 34 then None else Some (offset + 34))"

definition skipClientHelloBody :: "byte list \<Rightarrow> nat \<Rightarrow> nat option go" where
  "skipClientHelloBody data offset0 =
     (case skipClientHelloVersionRandom data offset0 of None \<Rightarrow> Inr None
      | Some offset \<Rightarrow> skipClientHelloVariable data offset)"

definition skipClientHelloFixed :: "byte list \<Rightarrow> nat \<Rightarrow> (nat \<times> nat) option go" where
  "skipClientHelloFixed data offset0 =
     go_bind (skipClientHelloBody data offset0) (\<lambda>r. case r of None \<Rightarrow> Inr None
      | Some offset \<Rightarrow>
          (if length data < offset + 2 then Inr None
           else go_bind (read16 data offset) (\<lambda>extensionsLen.
             Inr (Some (offset + 2, extensionsLen)))))"

text \<open>A \<^verbatim>\<open>*ClientHello\<close> is the server name it carries; nil is \<open>None\<close>.\<close>

definition helloFromSNI :: "byte list \<Rightarrow> nat \<Rightarrow> nat \<Rightarrow> string option go" where
  "helloFromSNI data offset extensionsLen =
     (let stop = (if length data < offset + extensionsLen then length data else offset + extensionsLen)
      in go_bind (sniFromExtensions data offset stop) (\<lambda>sni.
           Inr (if sni \<noteq> [] then Some sni else None)))"

definition isHandshakeType :: "byte list \<Rightarrow> bool" where
  "isHandshakeType data \<longleftrightarrow> 2 \<le> length data \<and> data ! 0 = 1"

definition parseClientHello :: "byte list \<Rightarrow> string option go" where
  "parseClientHello data =
     (if \<not> isHandshakeType data then Inr None
      else go_bind (skipClientHelloFixed data 4) (\<lambda>r. case r of None \<Rightarrow> Inr None
        | Some (offset, extensionsLen) \<Rightarrow> helloFromSNI data offset extensionsLen))"

section \<open>Peeking the record\<close>

text \<open>
  A \<^verbatim>\<open>bufio.Reader\<close>: its buffer size and the bytes that the connection delivers before it
  ends or fails. \<^verbatim>\<open>Peek(n)\<close> fails if \<open>n\<close> exceeds the buffer or the bytes do not arrive.
\<close>

record bufio =
  br_size :: nat
  br_data :: "byte list"

definition bufio_peek :: "bufio \<Rightarrow> nat \<Rightarrow> byte list option" where
  "bufio_peek r n = (if br_size r < n \<or> length (br_data r) < n then None else Some (take n (br_data r)))"

datatype sni_error = PeekHeader | NotHandshake byte | InvalidLength | PeekRecord

definition tlsRecordHeader :: "byte list \<Rightarrow> (sni_error + nat) go" where
  "tlsRecordHeader header =
     go_bind (go_index header 0) (\<lambda>b0.
       (if b0 \<noteq> 0x16 then Inr (Inl (NotHandshake b0))
        else go_bind (read16 header 3) (\<lambda>recordLen.
          Inr (if recordLen \<le> 0 then Inl InvalidLength else Inr recordLen))))"

definition peekRecordBody :: "bufio \<Rightarrow> nat \<Rightarrow> sni_error + byte list" where
  "peekRecordBody r recordLen =
     (case bufio_peek r (5 + recordLen) of None \<Rightarrow> Inl PeekRecord | Some data \<Rightarrow> Inr data)"

definition peekTLSRecord :: "bufio \<Rightarrow> (sni_error + byte list) go" where
  "peekTLSRecord r =
     (case bufio_peek r 5 of None \<Rightarrow> Inr (Inl PeekHeader)
      | Some header \<Rightarrow>
          go_bind (tlsRecordHeader header) (\<lambda>h. case h of
            Inl e \<Rightarrow> Inr (Inl e)
          | Inr recordLen \<Rightarrow> Inr (peekRecordBody r recordLen)))"

definition SNIPeeker_Peek :: "bufio \<Rightarrow> (sni_error + string) go" where
  "SNIPeeker_Peek r =
     go_bind (peekTLSRecord r) (\<lambda>d. case d of Inl e \<Rightarrow> Inr (Inl e)
      | Inr data \<Rightarrow>
          go_bind (go_slice data 5 (length data)) (\<lambda>payload.
          go_bind (parseClientHello payload) (\<lambda>hello.
          Inr (Inr (case hello of None \<Rightarrow> [] | Some name \<Rightarrow> name)))))"

section \<open>No input panics the parser\<close>

text \<open>The length that the header of a record announces, and the bytes of the record behind its header.\<close>

definition record_length :: "byte list \<Rightarrow> nat" where
  "record_length data = be16 (data ! 3) (data ! 4)"

definition record_payload :: "byte list \<Rightarrow> byte list" where
  "record_payload data = take (record_length data) (drop 5 data)"

text \<open>A result is no name or the text of a non-empty slice of the input.\<close>

definition name_from :: "byte list \<Rightarrow> string \<Rightarrow> bool" where
  "name_from data s \<longleftrightarrow> s = [] \<or>
     (\<exists>off n. 0 < n \<and> off + n \<le> length data \<and> s = bytes_string (take n (drop off data)))"

lemma sni_names_total:
  "nameEnd \<le> length data \<Longrightarrow> \<exists>s. sni_names data nameOffset nameEnd = Inr s \<and> name_from data s"
proof (induction data nameOffset nameEnd rule: sni_names.induct)
  case (1 data off "stop")
  show ?case
  proof (cases "off + 3 \<le> stop")
    case True
    let ?n = "be16 (data ! (off + 1)) (data ! (off + 2))"
    have r: "go_index data off = Inr (data ! off)" "read16 data (off + 1) = Inr ?n"
      using True "1.prems" by simp_all
    show ?thesis
    proof (cases "isDNSEntry (data ! off) ?n (off + 3) stop")
      case dns: True
      then have "0 < ?n" "off + 3 + ?n \<le> length data"
        using "1.prems" by (auto simp: isDNSEntry_def)
      then show ?thesis
        using True r dns by (subst sni_names.simps) (auto simp: name_from_def)
    next
      case False
      then show ?thesis
        using True r "1.IH" [OF True] "1.prems" by (subst sni_names.simps) auto
    qed
  next
    case False
    then show ?thesis by (subst sni_names.simps) (simp add: name_from_def)
  qed
qed

lemma sniFromExtension_total:
  assumes "stop \<le> length data"
  shows "\<exists>s. sniFromExtension data offset stop extType extLen = Inr s \<and> name_from data s"
proof (cases "isSNIExtension extType extLen offset stop")
  case True
  then have "offset + 1 < length data" "offset + extLen \<le> length data"
    using assms by (auto simp: isSNIExtension_def)
  moreover define e where
    "e = clampServerNameListEnd (offset + 2 + be16 (data ! offset) (data ! (offset + 1))) offset extLen"
  ultimately have "e \<le> length data" "sniFromExtension data offset stop extType extLen = sni_names data (offset + 2) e"
    using True by (auto simp: sniFromExtension_def sniFromServerNameList_def clampServerNameListEnd_def Let_def)
  then show ?thesis using sni_names_total by metis
next
  case False
  then show ?thesis by (simp add: sniFromExtension_def name_from_def)
qed

lemma sniFromExtensions_total:
  "stop \<le> length data \<Longrightarrow> \<exists>s. sniFromExtensions data offset stop = Inr s \<and> name_from data s"
proof (induction data offset "stop" rule: sniFromExtensions.induct)
  case (1 data off "stop")
  show ?case
  proof (cases "off + 4 \<le> stop")
    case True
    let ?t = "be16 (data ! off) (data ! (off + 1))" and ?n = "be16 (data ! (off + 2)) (data ! (off + 3))"
    have r: "read16 data off = Inr ?t" "read16 data (off + 2) = Inr ?n"
      using True "1.prems" by (simp_all add: numeral_3_eq_3)
    obtain s where s: "sniFromExtension data (off + 4) stop ?t ?n = Inr s" "name_from data s"
      using sniFromExtension_total [OF "1.prems"] by blast
    show ?thesis
      using True r s "1.IH" [OF True] "1.prems" by (subst sniFromExtensions.simps) auto
  next
    case False
    then show ?thesis by (subst sniFromExtensions.simps) (simp add: name_from_def)
  qed
qed

lemma skipClientHelloFixed_total:
  "\<exists>r. skipClientHelloFixed data offset = Inr r
     \<and> (\<forall>off n. r = Some (off, n) \<longrightarrow> off \<le> length data)"
  by (auto simp: skipClientHelloFixed_def skipClientHelloBody_def skipClientHelloVersionRandom_def
      skipClientHelloVariable_def skipSessionAndCipher_def Let_def)

lemma parseClientHello_total:
  "\<exists>r. parseClientHello data = Inr r
     \<and> (\<forall>name. r = Some name \<longrightarrow> name \<noteq> [] \<and> name_from data name)"
proof (cases "isHandshakeType data")
  case True
  obtain r where r: "skipClientHelloFixed data 4 = Inr r"
    using skipClientHelloFixed_total by blast
  have "\<exists>s. helloFromSNI data off n = Inr s \<and> (\<forall>name. s = Some name \<longrightarrow> name \<noteq> [] \<and> name_from data name)"
    for off n
  proof -
    let ?stop = "if length data < off + n then length data else off + n"
    have "?stop \<le> length data" by simp
    from sniFromExtensions_total [OF this, of off] obtain s
      where s: "sniFromExtensions data off ?stop = Inr s" "name_from data s" by blast
    then have "helloFromSNI data off n = Inr (if s \<noteq> [] then Some s else None)"
      by (simp only: helloFromSNI_def Let_def go_bind_simps)
    then show ?thesis using s(2) by auto
  qed
  then show ?thesis
    using True r by (cases r) (auto simp: parseClientHello_def)
qed (simp add: parseClientHello_def)

section \<open>Well-formed ClientHellos are understood\<close>

text \<open>The encoding of RFC 5246 and RFC 6066, as far as the parser reads it.\<close>

definition enc16 :: "nat \<Rightarrow> byte list" where
  "enc16 n = [of_nat (n div 256), of_nat (n mod 256)]"

definition enc_ext :: "nat \<Rightarrow> byte list \<Rightarrow> byte list" where
  "enc_ext t body = enc16 t @ enc16 (length body) @ body"

definition enc_server_name :: "byte list \<Rightarrow> byte list" where
  "enc_server_name name = enc16 (3 + length name) @ [0] @ enc16 (length name) @ name"

record hello_parts =
  hp_length :: "byte list"
  hp_version_random :: "byte list"
  hp_session :: "byte list"
  hp_ciphers :: "byte list"
  hp_compression :: "byte list"
  hp_before :: "(nat \<times> byte list) list"
  hp_name :: "byte list"
  hp_after :: "byte list"

definition enc_extensions :: "hello_parts \<Rightarrow> byte list" where
  "enc_extensions h = concat (map (\<lambda>(t, b). enc_ext t b) (hp_before h))
     @ enc_ext 0 (enc_server_name (hp_name h)) @ hp_after h"

definition enc_hello :: "hello_parts \<Rightarrow> byte list" where
  "enc_hello h = 1 # hp_length h @ hp_version_random h
     @ of_nat (length (hp_session h)) # hp_session h
     @ enc16 (length (hp_ciphers h)) @ hp_ciphers h
     @ of_nat (length (hp_compression h)) # hp_compression h
     @ enc16 (length (enc_extensions h)) @ enc_extensions h"

definition wf_hello :: "hello_parts \<Rightarrow> bool" where
  "wf_hello h \<longleftrightarrow> length (hp_length h) = 3 \<and> length (hp_version_random h) = 34
     \<and> length (hp_session h) < 2 ^ 8 \<and> length (hp_ciphers h) < 2 ^ 16
     \<and> length (hp_compression h) < 2 ^ 8 \<and> length (enc_extensions h) < 2 ^ 16
     \<and> list_all (\<lambda>(t, b). 0 < t \<and> t < 2 ^ 16) (hp_before h) \<and> hp_name h \<noteq> []"

lemma length_enc16 [simp]: "length (enc16 n) = 2"
  by (simp add: enc16_def)

lemma length_enc_ext [simp]: "length (enc_ext t b) = 4 + length b"
  by (simp add: enc_ext_def)

lemma length_enc_server_name [simp]: "length (enc_server_name n) = 5 + length n"
  by (simp add: enc_server_name_def)

lemma unat_of_nat_byte [simp]: "n < 256 \<Longrightarrow> unat (of_nat n :: byte) = n"
  by (simp add: unat_of_nat)

lemma be16_enc: "n < 2 ^ 16 \<Longrightarrow> be16 (of_nat (n div 256)) (of_nat (n mod 256)) = n"
  unfolding be16_arith by (subst unat_of_nat_byte, simp)+ simp

lemma go_index_at: "off = length p \<Longrightarrow> go_index (p @ x # q) off = Inr x"
  by simp

lemma read16_at: "off = length p \<Longrightarrow> n < 2 ^ 16 \<Longrightarrow> read16 (p @ enc16 n @ q) off = Inr n"
  using be16_enc [of n] by (simp add: read16_def enc16_def nth_append)

lemma ext_header_at:
  assumes "t < 2 ^ 16" "length b < 2 ^ 16"
  shows "read16 (p @ enc_ext t b @ q) (length p) = Inr t"
    and "read16 (p @ enc_ext t b @ q) (length p + 2) = Inr (length b)"
  using assms read16_at [of "length p" p t "enc16 (length b) @ b @ q"]
    read16_at [of "length p + 2" "p @ enc16 t" "length b" "b @ q"]
  by (simp_all add: enc_ext_def)

text \<open>An extension of another type is skipped.\<close>

lemma sniFromExtensions_skip:
  assumes "0 < t" "t < 2 ^ 16" "length b < 2 ^ 16" "length p + 4 + length b \<le> e"
  shows "sniFromExtensions (p @ enc_ext t b @ q) (length p) e
    = sniFromExtensions (p @ enc_ext t b @ q) (length p + 4 + length b) e"
  using assms ext_header_at [OF assms(2,3), of p q]
  by (subst sniFromExtensions.simps) (simp add: sniFromExtension_def isSNIExtension_def)

lemma sniFromExtensions_skips:
  assumes "list_all (\<lambda>(t, b). 0 < t \<and> t < 2 ^ 16 \<and> length b < 2 ^ 16) xs"
    "length p + length (concat (map (\<lambda>(t, b). enc_ext t b) xs)) \<le> e"
  shows "sniFromExtensions (p @ concat (map (\<lambda>(t, b). enc_ext t b) xs) @ q) (length p) e
    = sniFromExtensions (p @ concat (map (\<lambda>(t, b). enc_ext t b) xs) @ q)
        (length p + length (concat (map (\<lambda>(t, b). enc_ext t b) xs))) e"
  using assms
proof (induction xs arbitrary: p)
  case Nil
  then show ?case by simp
next
  case (Cons x xs)
  obtain t b where x: "x = (t, b)" by (cases x)
  show ?case
    using Cons.prems Cons.IH [of "p @ enc_ext t b"]
      sniFromExtensions_skip [of t b p e "concat (map (\<lambda>(t, b). enc_ext t b) xs) @ q"]
    by (simp add: x add.assoc)
qed

lemma sni_names_hit:
  assumes "name \<noteq> []" "length name < 2 ^ 16" "off = length p" "e = off + 3 + length name"
  shows "sni_names (p @ [0] @ enc16 (length name) @ name @ q) off e = Inr (bytes_string name)"
  using assms go_index_at [of off p 0 "enc16 (length name) @ name @ q"]
    read16_at [of "Suc off" "p @ [0]" "length name" "name @ q"]
  by (subst sni_names.simps) (simp add: isDNSEntry_def)

lemma sniFromExtensions_hit:
  assumes "name \<noteq> []" "5 + length name < 2 ^ 16" "length p + 9 + length name \<le> e"
  shows "sniFromExtensions (p @ enc_ext 0 (enc_server_name name) @ q) (length p) e
    = Inr (bytes_string name)"
proof -
  let ?d = "p @ enc_ext 0 (enc_server_name name) @ q" and ?o = "length p + 4"
  have hdr: "read16 ?d (length p) = Inr 0" "read16 ?d (length p + 2) = Inr (5 + length name)"
    using ext_header_at [of 0 "enc_server_name name" p q] assms(2) by simp_all
  have d1: "?d = (p @ enc16 0 @ enc16 (5 + length name)) @ enc16 (3 + length name)
      @ [0] @ enc16 (length name) @ name @ q"
    and d2: "?d = (p @ enc16 0 @ enc16 (5 + length name) @ enc16 (3 + length name))
      @ [0] @ enc16 (length name) @ name @ q"
    unfolding enc_ext_def length_enc_server_name by (simp_all add: enc_server_name_def)
  have "read16 ?d ?o = Inr (3 + length name)"
    unfolding d1 by (rule read16_at) (use assms(2) in simp_all)
  moreover have "sni_names ?d (?o + 2) (?o + 2 + 3 + length name) = Inr (bytes_string name)"
    unfolding d2 by (rule sni_names_hit) (use assms in simp_all)
  ultimately have "sniFromExtension ?d ?o e 0 (5 + length name) = Inr (bytes_string name)"
    using assms(1,3) by (simp add: sniFromExtension_def isSNIExtension_def sniFromServerNameList_def
        clampServerNameListEnd_def add.commute add.left_commute)
  then show ?thesis
    using hdr assms by (subst sniFromExtensions.simps) (simp add: bytes_string_def)
qed

lemma skipClientHelloFixed_enc:
  assumes "length p = 4" "length vr = 34" "length sid < 2 ^ 8" "length cs < 2 ^ 16"
    "length cm < 2 ^ 8" "length ex < 2 ^ 16"
  defines "hdr \<equiv> p @ vr @ of_nat (length sid) # sid @ enc16 (length cs) @ cs
                 @ of_nat (length cm) # cm @ enc16 (length ex)"
  shows "skipClientHelloFixed (hdr @ ex) 4 = Inr (Some (length hdr, length ex))"
proof -
  let ?d = "hdr @ ex"
  let ?a = "p @ vr" let ?b = "?a @ of_nat (length sid) # sid"
  let ?c = "?b @ enc16 (length cs) @ cs" let ?e = "?c @ of_nat (length cm) # cm"
  have d: "?d = ?a @ of_nat (length sid) # sid @ enc16 (length cs) @ cs @ of_nat (length cm) # cm @ enc16 (length ex) @ ex"
    "?d = ?b @ enc16 (length cs) @ cs @ of_nat (length cm) # cm @ enc16 (length ex) @ ex"
    "?d = ?c @ of_nat (length cm) # cm @ enc16 (length ex) @ ex"
    "?d = ?e @ enc16 (length ex) @ ex"
    by (simp_all add: hdr_def)
  have r1: "go_index ?d 38 = Inr (of_nat (length sid))"
    unfolding d(1) by (rule go_index_at) (use assms in simp)
  have r2: "read16 ?d (39 + length sid) = Inr (length cs)"
    unfolding d(2) by (rule read16_at) (use assms in simp_all)
  have r3: "go_index ?d (41 + length sid + length cs) = Inr (of_nat (length cm))"
    unfolding d(3) by (rule go_index_at) (use assms in simp)
  have r4: "read16 ?d (42 + length sid + length cs + length cm) = Inr (length ex)"
    unfolding d(4) by (rule read16_at) (use assms in simp_all)
  have len: "length ?d = 44 + length sid + length cs + length cm + length ex"
    "length hdr = 44 + length sid + length cs + length cm"
    using assms(1,2) by (simp_all add: hdr_def)
  have "skipSessionAndCipher ?d 38 = Inr (Some (41 + length sid + length cs))"
    using r1 r2 len assms(3) by (simp add: skipSessionAndCipher_def Let_def)
  then have "skipClientHelloBody ?d 4 = Inr (Some (42 + length sid + length cs + length cm))"
    using r3 len assms(5)
    by (simp add: skipClientHelloBody_def skipClientHelloVersionRandom_def skipClientHelloVariable_def)
  then show ?thesis
    using r4 len by (simp add: skipClientHelloFixed_def)
qed

lemma length_enc_ext_le:
  "(t, b) \<in> set xs \<Longrightarrow> length (enc_ext t b) \<le> length (concat (map (\<lambda>(t, b). enc_ext t b) xs))"
  by (induction xs) auto

lemma enc_extensions_bounds:
  assumes "wf_hello h"
  shows "list_all (\<lambda>(t, b). 0 < t \<and> t < 2 ^ 16 \<and> length b < 2 ^ 16) (hp_before h)"
    and "5 + length (hp_name h) < 2 ^ 16"
proof -
  have len: "length (enc_extensions h) < 2 ^ 16" using assms by (simp add: wf_hello_def)
  show "5 + length (hp_name h) < 2 ^ 16" using len by (simp add: enc_extensions_def)
  have "length b < 2 ^ 16" if "(t, b) \<in> set (hp_before h)" for t b
    using length_enc_ext_le [OF that] len by (simp add: enc_extensions_def)
  then show "list_all (\<lambda>(t, b). 0 < t \<and> t < 2 ^ 16 \<and> length b < 2 ^ 16) (hp_before h)"
    using assms by (auto simp: wf_hello_def list_all_iff)
qed

lemma parseClientHello_enc:
  assumes wf: "wf_hello h"
  shows "parseClientHello (enc_hello h) = Inr (Some (bytes_string (hp_name h)))"
proof -
  define hdr where "hdr = (1 # hp_length h) @ hp_version_random h
     @ of_nat (length (hp_session h)) # hp_session h
     @ enc16 (length (hp_ciphers h)) @ hp_ciphers h
     @ of_nat (length (hp_compression h)) # hp_compression h @ enc16 (length (enc_extensions h))"
  let ?ex = "enc_extensions h" and ?bf = "concat (map (\<lambda>(t, b). enc_ext t b) (hp_before h))"
  let ?sn = "enc_ext 0 (enc_server_name (hp_name h)) @ hp_after h"
  have d: "enc_hello h = hdr @ ?ex" by (simp add: enc_hello_def hdr_def)
  have ex: "?ex = ?bf @ ?sn" by (simp add: enc_extensions_def)
  have fixed: "skipClientHelloFixed (enc_hello h) 4 = Inr (Some (length hdr, length ?ex))"
    unfolding d unfolding hdr_def using wf
    by (intro skipClientHelloFixed_enc) (simp_all add: wf_hello_def)
  have "sniFromExtensions (hdr @ ?bf @ ?sn) (length hdr) (length hdr + length ?ex)
      = sniFromExtensions (hdr @ ?bf @ ?sn) (length hdr + length ?bf) (length hdr + length ?ex)"
    by (rule sniFromExtensions_skips [OF enc_extensions_bounds(1) [OF wf]]) (simp add: ex)
  also have "\<dots> = Inr (bytes_string (hp_name h))"
    using sniFromExtensions_hit [of "hp_name h" "hdr @ ?bf" "length hdr + length ?ex" "hp_after h"]
      wf enc_extensions_bounds(2) [OF wf] by (simp add: wf_hello_def ex)
  finally have "helloFromSNI (enc_hello h) (length hdr) (length ?ex) = Inr (Some (bytes_string (hp_name h)))"
    using wf unfolding d helloFromSNI_def by (simp add: ex wf_hello_def bytes_string_def)
  moreover have "isHandshakeType (enc_hello h)"
    by (simp add: isHandshakeType_def enc_hello_def)
  ultimately show ?thesis
    using fixed by (simp add: parseClientHello_def)
qed

definition enc_record :: "byte \<Rightarrow> byte \<Rightarrow> hello_parts \<Rightarrow> byte list" where
  "enc_record v1 v2 h = [0x16, v1, v2] @ enc16 (length (enc_hello h)) @ enc_hello h"

lemma bufio_peek_prefix:
  "br_data br = p @ q \<Longrightarrow> length p \<le> br_size br \<Longrightarrow> bufio_peek br (length p) = Some p"
  by (simp add: bufio_peek_def)

lemma peekTLSRecord_enc:
  assumes "br_data br = enc_record v1 v2 h @ rest" "length (enc_hello h) < 2 ^ 16"
    "length (enc_record v1 v2 h) \<le> br_size br"
  shows "peekTLSRecord br = Inr (Inr (enc_record v1 v2 h))"
proof -
  let ?n = "length (enc_hello h)"
  define header where "header = [0x16, v1, v2] @ enc16 ?n"
  have data: "br_data br = header @ enc_hello h @ rest" and len: "length header = 5"
    using assms(1) by (simp_all add: header_def enc_record_def)
  have whole: "length (enc_record v1 v2 h) = 5 + ?n" by (simp add: enc_record_def)
  have "bufio_peek br 5 = Some header"
    using bufio_peek_prefix [OF data] len assms(3) whole by simp
  moreover have "bufio_peek br (5 + ?n) = Some (enc_record v1 v2 h)"
    using bufio_peek_prefix [OF assms(1,3)] by (simp only: whole)
  moreover have "tlsRecordHeader header = Inr (Inr ?n)"
  proof -
    have "read16 header 3 = Inr ?n"
      using read16_at [of 3 "[0x16, v1, v2]" ?n "[]"] assms(2) by (simp add: header_def)
    moreover have "?n > 0" by (simp add: enc_hello_def)
    ultimately show ?thesis by (simp add: tlsRecordHeader_def) (simp add: header_def)
  qed
  ultimately show ?thesis by (simp add: peekTLSRecord_def peekRecordBody_def)
qed

lemma SNIPeeker_Peek_total:
  "\<exists>r. SNIPeeker_Peek br = Inr r
     \<and> (\<forall>name. r = Inr name \<longrightarrow> 5 + record_length (br_data br) \<le> length (br_data br) \<and> name_from (record_payload (br_data br)) name)"
proof (cases "bufio_peek br 5")
  case None
  then show ?thesis by (simp add: SNIPeeker_Peek_def peekTLSRecord_def)
next
  case (Some header)
  then have header: "header = take 5 (br_data br)" "length header = 5"
    by (auto simp: bufio_peek_def split: if_splits)
  have "tlsRecordHeader header = Inr (if br_data br ! 0 \<noteq> 0x16 then Inl (NotHandshake (br_data br ! 0))
      else if record_length (br_data br) = 0 then Inl InvalidLength else Inr (record_length (br_data br)))"
    using header by (simp add: tlsRecordHeader_def record_length_def)
  then obtain h where h: "tlsRecordHeader header = Inr h" "\<And>n. h = Inr n \<Longrightarrow> n = record_length (br_data br)"
    by (auto split: if_splits)
  show ?thesis
  proof (cases "\<exists>data. peekTLSRecord br = Inr (Inr data)")
    case True
    then obtain data where d: "peekTLSRecord br = Inr (Inr data)" "data = take (5 + record_length (br_data br)) (br_data br)"
        "5 + record_length (br_data br) \<le> length (br_data br)"
      using Some h by (auto simp: peekTLSRecord_def peekRecordBody_def bufio_peek_def
          split: sum.splits option.splits if_splits)
    then have p: "drop 5 data = record_payload (br_data br)" by (simp add: record_payload_def drop_take)
    obtain r where r: "parseClientHello (drop 5 data) = Inr r"
        "\<And>name. r = Some name \<Longrightarrow> name_from (drop 5 data) name"
      using parseClientHello_total by blast
    moreover have "SNIPeeker_Peek br = Inr (Inr (case r of None \<Rightarrow> [] | Some name \<Rightarrow> name))"
      using d r(1) by (simp add: SNIPeeker_Peek_def)
    moreover have "name_from (record_payload (br_data br)) []" by (simp add: name_from_def)
    ultimately show ?thesis using d(3) p by (cases r) auto
  next
    case False
    then show ?thesis
      using Some h by (auto simp: SNIPeeker_Peek_def peekTLSRecord_def split: sum.splits)
  qed
qed

lemma SNIPeeker_Peek_encoded:
  assumes "wf_hello h" "length (enc_hello h) < 2 ^ 16"
    "br_data br = enc_record v1 v2 h @ rest" "length (enc_record v1 v2 h) \<le> br_size br"
  shows "SNIPeeker_Peek br = Inr (Inr (bytes_string (hp_name h)))"
proof -
  have "go_slice (enc_record v1 v2 h) 5 (length (enc_record v1 v2 h)) = Inr (enc_hello h)"
    by (simp add: enc_record_def enc16_def)
  then show ?thesis
    using peekTLSRecord_enc [OF assms(3,2,4)] parseClientHello_enc [OF assms(1)]
    by (simp add: SNIPeeker_Peek_def)
qed

definition demo_hello :: hello_parts where
  "demo_hello = \<lparr>hp_length = [0, 0, 60], hp_version_random = replicate 34 3, hp_session = [9],
     hp_ciphers = [0x13, 0x01], hp_compression = [0], hp_before = [(10, [0, 2, 0, 29])],
     hp_name = [97, 46, 98], hp_after = [0, 16, 0, 0]\<rparr>"

section \<open>Properties\<close>

text \<open>
  \<^bold>\<open>C10\<close>. Whatever bytes a client sends, peeking its server name never panics: every index and
  slice is in range, the loops terminate, and the result is a described error or a name. A
  name is only returned if the whole record has arrived, of the length in its header, and it
  is either empty (no usable server name) or the text of a slice of that record; bytes that
  follow the record are never taken for a name.
\<close>

theorem SNIPeeker_Peek_safe:
  "\<exists>r. SNIPeeker_Peek br = Inr r
     \<and> (\<forall>name. r = Inr name \<longrightarrow> 5 + record_length (br_data br) \<le> length (br_data br) \<and> name_from (record_payload (br_data br)) name)"
  by (rule SNIPeeker_Peek_total)

theorem SNIPeeker_Peek_safe_witness:
  "\<exists>r. SNIPeeker_Peek \<lparr>br_size = 4096, br_data = [0x16, 3, 1, 0, 6, 1, 0, 0, 2, 255, 255, 7, 7]\<rparr> = Inr r
     \<and> (\<forall>name. r = Inr name \<longrightarrow> name_from [1, 0, 0, 2, 255, 255] name)"
proof -
  have "record_payload [0x16, 3, 1, 0, 6, 1, 0, 0, 2, 255, 255, 7, 7] = [1, 0, 0, 2, 255, 255]"
    by (simp add: record_payload_def record_length_def be16_arith)
  then show ?thesis
    using SNIPeeker_Peek_safe [of "\<lparr>br_size = 4096, br_data = [0x16, 3, 1, 0, 6, 1, 0, 0, 2, 255, 255, 7, 7]\<rparr>"] by auto
qed

text \<open>
  \<^bold>\<open>C24\<close>. Encoding and peeking are inverse: the TLS record of any well-formed ClientHello (any
  session id, cipher suites, compression methods, extensions before and bytes after the
  server name extension) that fits the reader's buffer yields exactly the server name it
  carries, whatever follows the record on the connection.
\<close>

theorem SNIPeeker_Peek_enc:
  assumes "wf_hello h" "length (enc_hello h) < 2 ^ 16"
    "br_data br = enc_record v1 v2 h @ rest" "length (enc_record v1 v2 h) \<le> br_size br"
  shows "SNIPeeker_Peek br = Inr (Inr (bytes_string (hp_name h)))"
  using assms by (rule SNIPeeker_Peek_encoded)

theorem SNIPeeker_Peek_enc_witness:
  "SNIPeeker_Peek \<lparr>br_size = 4096, br_data = enc_record 3 1 demo_hello @ [7]\<rparr> = Inr (Inr ''a.b'')"
proof -
  have "SNIPeeker_Peek \<lparr>br_size = 4096, br_data = enc_record 3 1 demo_hello @ [7]\<rparr>
      = Inr (Inr (bytes_string (hp_name demo_hello)))"
    by (rule SNIPeeker_Peek_enc [of _ _ 3 1 "[7]"])
      (simp_all add: wf_hello_def demo_hello_def enc_record_def enc_hello_def enc_extensions_def)
  moreover have "bytes_string (hp_name demo_hello) = ''a.b''"
    by (simp add: demo_hello_def bytes_string_def char_of_eq_iff)
  ultimately show ?thesis by simp
qed

end
