(* ===== verification/Mitm_Certs.thy ===== *)
theory Mitm_Certs
  imports Output_Writers
begin

text \<open>
  \<^verbatim>\<open>internal/proxy/mitm*.go\<close>: the certificate authority, its files, and the cache of host
  certificates. Key generation, certificate encoding and PEM are functions of the standard
  library on data the program never inspects; they are the components of \<open>crypto\<close>, with the
  random source as explicit state. The files live in the file system of \<open>Output_Writers\<close>.
  Concurrent use of the cache is a step relation whose steps are the critical sections.
\<close>

section \<open>Certificates\<close>

datatype key_usage = DigitalSignature | CertSign | CRLSign
datatype ext_key_usage = ServerAuth

record cert_template =
  ct_SerialNumber :: int
  ct_CommonName :: string
  ct_Organization :: "string list"
  ct_NotBefore :: go_time
  ct_NotAfter :: go_time
  ct_KeyUsage :: "key_usage list"
  ct_ExtKeyUsage :: "ext_key_usage list"
  ct_BasicConstraintsValid :: bool
  ct_IsCA :: bool
  ct_MaxPathLen :: int
  ct_IPAddresses :: "string list"
  ct_DNSNames :: "string list"

record x509_cert =
  xc_Raw :: string
  xc_Template :: cert_template

record 'key tls_cert =
  tc_Certificate :: "string list"
  tc_PrivateKey :: 'key

text \<open>The library: a failing operation returns its error message.\<close>

record ('key, 'r) crypto =
  GenerateKey :: "'r \<Rightarrow> (string + 'key) \<times> 'r"
  RandInt :: "int \<Rightarrow> 'r \<Rightarrow> (string + int) \<times> 'r"
  CreateCertificate :: "cert_template \<Rightarrow> cert_template \<Rightarrow> 'key \<Rightarrow> 'key \<Rightarrow> 'r \<Rightarrow> (string + string) \<times> 'r"
  ParseCertificate :: "string \<Rightarrow> string + x509_cert"
  MarshalECPrivateKey :: "'key \<Rightarrow> string + string"
  PemEncode :: "string \<Rightarrow> string \<Rightarrow> string + string"
  X509KeyPair :: "string \<Rightarrow> string \<Rightarrow> string + 'key tls_cert"
  ParseIP :: "string \<Rightarrow> string option"

definition hours :: "int \<Rightarrow> int" where
  "hours n = n * 3600000000000"

section \<open>The certificate authority\<close>

record 'key CA =
  ca_Cert :: x509_cert
  ca_Key :: 'key
  ca_TLS :: "'key tls_cert"
  ca_certPool :: "x509_cert list"

definition caCertificateTemplate ::
  "('key, 'r) crypto \<Rightarrow> go_time \<Rightarrow> go_time \<Rightarrow> 'r \<Rightarrow> (string + cert_template) \<times> 'r" where
  "caCertificateTemplate cr now1 now2 r =
     (case RandInt cr (2 ^ 128) r of
        (Inl err, r') \<Rightarrow> (Inl (''generate serial: '' @ err), r')
      | (Inr serial, r') \<Rightarrow>
          (Inr \<lparr> ct_SerialNumber = serial, ct_CommonName = ''goper MITM CA'', ct_Organization = [''goper''],
                 ct_NotBefore = now1 + hours (- 24), ct_NotAfter = now2 + hours (10 * 365 * 24),
                 ct_KeyUsage = [CertSign, CRLSign], ct_ExtKeyUsage = [], ct_BasicConstraintsValid = True,
                 ct_IsCA = True, ct_MaxPathLen = 0, ct_IPAddresses = [], ct_DNSNames = [] \<rparr>, r'))"

definition createCertificate ::
  "('key, 'r) crypto \<Rightarrow> 'key \<Rightarrow> cert_template \<Rightarrow> 'r \<Rightarrow> (string + x509_cert \<times> string) \<times> 'r" where
  "createCertificate cr key template r =
     (case CreateCertificate cr template template key key r of
        (Inl err, r') \<Rightarrow> (Inl (''create CA cert: '' @ err), r')
      | (Inr certDER, r') \<Rightarrow>
          (case ParseCertificate cr certDER of
             Inl err \<Rightarrow> (Inl (''parse CA cert: '' @ err), r')
           | Inr cert \<Rightarrow> (Inr (cert, certDER), r')))"

definition caCertificate ::
  "('key, 'r) crypto \<Rightarrow> go_time \<Rightarrow> go_time \<Rightarrow> 'key \<Rightarrow> 'r \<Rightarrow> (string + x509_cert \<times> string) \<times> 'r" where
  "caCertificate cr now1 now2 key r =
     (case caCertificateTemplate cr now1 now2 r of
        (Inl err, r') \<Rightarrow> (Inl err, r')
      | (Inr template, r') \<Rightarrow> createCertificate cr key template r')"

definition GenerateCA ::
  "('key, 'r) crypto \<Rightarrow> go_time \<Rightarrow> go_time \<Rightarrow> 'r \<Rightarrow> (string + 'key CA) \<times> 'r" where
  "GenerateCA cr now1 now2 r =
     (case GenerateKey cr r of
        (Inl err, r1) \<Rightarrow> (Inl (''generate CA key: '' @ err), r1)
      | (Inr key, r1) \<Rightarrow>
          (case caCertificate cr now1 now2 key r1 of
             (Inl err, r2) \<Rightarrow> (Inl err, r2)
           | (Inr (cert, certDER), r2) \<Rightarrow>
               (Inr \<lparr> ca_Cert = cert, ca_Key = key,
                      ca_TLS = \<lparr>tc_Certificate = [certDER], tc_PrivateKey = key\<rparr>,
                      ca_certPool = [cert] \<rparr>, r2)))"

section \<open>Persistence\<close>

text \<open>\<^verbatim>\<open>pem.Encode\<close> into a buffer.\<close>

definition pemEncode :: "('key, 'r) crypto \<Rightarrow> string \<Rightarrow> string \<Rightarrow> string + string" where
  "pemEncode cr derBytes blockType =
     (case PemEncode cr blockType derBytes of Inl err \<Rightarrow> Inl err | Inr buf \<Rightarrow> Inr buf)"

lemma pemEncode_eq [simp]: "pemEncode cr derBytes blockType = PemEncode cr blockType derBytes"
  by (simp add: pemEncode_def split: sum.split)

definition encodeCAKeyPEM :: "('key, 'r) crypto \<Rightarrow> 'key CA \<Rightarrow> string + string" where
  "encodeCAKeyPEM cr ca =
     (case MarshalECPrivateKey cr (ca_Key ca) of
        Inl err \<Rightarrow> Inl (''marshal CA key: '' @ err)
      | Inr keyBytes \<Rightarrow> pemEncode cr keyBytes ''EC PRIVATE KEY'')"

definition encodeCAFiles :: "('key, 'r) crypto \<Rightarrow> 'key CA \<Rightarrow> string + string \<times> string" where
  "encodeCAFiles cr ca =
     (case pemEncode cr (xc_Raw (ca_Cert ca)) ''CERTIFICATE'' of
        Inl err \<Rightarrow> Inl err
      | Inr certPEM \<Rightarrow>
          (case encodeCAKeyPEM cr ca of Inl err \<Rightarrow> Inl err | Inr keyPEM \<Rightarrow> Inr (certPEM, keyPEM)))"

definition writeCAFiles :: "string \<Rightarrow> string \<Rightarrow> string \<Rightarrow> string \<Rightarrow> os_state \<Rightarrow> go_error \<times> os_state" where
  "writeCAFiles certPath keyPath certPEM keyPEM st =
     (case os_WriteFile certPath certPEM 0x1A4 st of
        (Some err, st1) \<Rightarrow> (Some (''write CA cert: '' @ err), st1)
      | (None, st1) \<Rightarrow>
          (case os_WriteFile keyPath keyPEM 0x180 st1 of
             (Some err, st2) \<Rightarrow> (Some (''write CA key: '' @ err), st2)
           | (None, st2) \<Rightarrow> (None, st2)))"

definition persistCA ::
  "('key, 'r) crypto \<Rightarrow> 'key CA \<Rightarrow> string \<Rightarrow> string \<Rightarrow> string \<Rightarrow> os_state \<Rightarrow> go_error \<times> os_state" where
  "persistCA cr ca dir certPath keyPath st =
     (case os_MkdirAll dir 0x1C0 st of
        (Some err, st1) \<Rightarrow> (Some (''create CA dir: '' @ err), st1)
      | (None, st1) \<Rightarrow>
          (case encodeCAFiles cr ca of
             Inl err \<Rightarrow> (Some err, st1)
           | Inr (certPEM, keyPEM) \<Rightarrow> writeCAFiles certPath keyPath certPEM keyPEM st1))"

definition createAndPersistCA ::
  "('key, 'r) crypto \<Rightarrow> go_time \<Rightarrow> go_time \<Rightarrow> string \<Rightarrow> string \<Rightarrow> string \<Rightarrow> 'r \<Rightarrow> os_state
     \<Rightarrow> (string + 'key CA) \<times> 'r \<times> os_state" where
  "createAndPersistCA cr now1 now2 dir certPath keyPath r st =
     (case GenerateCA cr now1 now2 r of
        (Inl err, r') \<Rightarrow> (Inl err, r', st)
      | (Inr ca, r') \<Rightarrow>
          (case persistCA cr ca dir certPath keyPath st of
             (Some err, st') \<Rightarrow> (Inl err, r', st')
           | (None, st') \<Rightarrow> (Inr ca, r', st')))"

text \<open>\<^verbatim>\<open>tlsCert.Certificate[0]\<close> is an index expression.\<close>

definition parseCAPair :: "('key, 'r) crypto \<Rightarrow> 'key tls_cert \<Rightarrow> (string + 'key CA) go" where
  "parseCAPair cr tlsCert =
     go_bind (go_index (tc_Certificate tlsCert) 0) (\<lambda>der.
     Inr (case ParseCertificate cr der of
            Inl err \<Rightarrow> Inl (''parse CA cert: '' @ err)
          | Inr cert \<Rightarrow> Inr \<lparr> ca_Cert = cert, ca_Key = tc_PrivateKey tlsCert, ca_TLS = tlsCert, ca_certPool = [cert] \<rparr>))"

definition readCAPairFiles :: "string \<Rightarrow> string \<Rightarrow> os_state \<Rightarrow> string + string \<times> string" where
  "readCAPairFiles certPath keyPath st =
     (case os_ReadFile certPath st of
        Inl err \<Rightarrow> Inl (''read CA cert: '' @ err)
      | Inr certPEM \<Rightarrow>
          (case os_ReadFile keyPath st of
             Inl err \<Rightarrow> Inl (''read CA key: '' @ err)
           | Inr keyPEM \<Rightarrow> Inr (certPEM, keyPEM)))"

definition loadCA :: "('key, 'r) crypto \<Rightarrow> string \<Rightarrow> string \<Rightarrow> os_state \<Rightarrow> (string + 'key CA) go" where
  "loadCA cr certPath keyPath st =
     (case readCAPairFiles certPath keyPath st of
        Inl err \<Rightarrow> Inr (Inl err)
      | Inr (certPEM, keyPEM) \<Rightarrow>
          (case X509KeyPair cr certPEM keyPEM of
             Inl err \<Rightarrow> Inr (Inl (''parse CA key pair: '' @ err))
           | Inr tlsCert \<Rightarrow> parseCAPair cr tlsCert))"

definition LoadOrCreateCA ::
  "('key, 'r) crypto \<Rightarrow> go_time \<Rightarrow> go_time \<Rightarrow> string \<Rightarrow> 'r \<Rightarrow> os_state
     \<Rightarrow> ((string + 'key CA) \<times> 'r \<times> os_state) go" where
  "LoadOrCreateCA cr now1 now2 dir r st =
     (let certPath = path_Join [dir, ''ca-cert.pem'']; keyPath = path_Join [dir, ''ca-key.pem''] in
      if os_Stat_ok certPath st
      then go_bind (loadCA cr certPath keyPath st) (\<lambda>res. Inr (res, r, st))
      else Inr (createAndPersistCA cr now1 now2 dir certPath keyPath r st))"

section \<open>Host certificates\<close>

definition hostCertificateTemplate ::
  "('key, 'r) crypto \<Rightarrow> go_time \<Rightarrow> go_time \<Rightarrow> string \<Rightarrow> 'r \<Rightarrow> (string + cert_template) \<times> 'r" where
  "hostCertificateTemplate cr now1 now2 host r =
     (case RandInt cr (2 ^ 128) r of
        (Inl err, r') \<Rightarrow> (Inl (''generate serial: '' @ err), r')
      | (Inr serial, r') \<Rightarrow>
          let template = \<lparr> ct_SerialNumber = serial, ct_CommonName = host, ct_Organization = [''goper''],
                 ct_NotBefore = now1 + hours (- 24), ct_NotAfter = now2 + hours (365 * 24),
                 ct_KeyUsage = [DigitalSignature], ct_ExtKeyUsage = [ServerAuth], ct_BasicConstraintsValid = False,
                 ct_IsCA = False, ct_MaxPathLen = 0, ct_IPAddresses = [], ct_DNSNames = [] \<rparr>
          in (Inr (case ParseIP cr host of
                     Some ip \<Rightarrow> template\<lparr>ct_IPAddresses := [ip]\<rparr>
                   | None \<Rightarrow> template\<lparr>ct_DNSNames := [host]\<rparr>), r'))"

definition signHostCert ::
  "('key, 'r) crypto \<Rightarrow> 'key CA \<Rightarrow> go_time \<Rightarrow> go_time \<Rightarrow> string \<Rightarrow> 'key \<Rightarrow> 'r \<Rightarrow> (string + 'key tls_cert) \<times> 'r" where
  "signHostCert cr ca now1 now2 host key r =
     (case hostCertificateTemplate cr now1 now2 host r of
        (Inl err, r1) \<Rightarrow> (Inl err, r1)
      | (Inr template, r1) \<Rightarrow>
          (case CreateCertificate cr template (xc_Template (ca_Cert ca)) key (ca_Key ca) r1 of
             (Inl err, r2) \<Rightarrow> (Inl (''create host cert: '' @ err), r2)
           | (Inr certDER, r2) \<Rightarrow>
               (Inr \<lparr>tc_Certificate = [certDER, xc_Raw (ca_Cert ca)], tc_PrivateKey = key\<rparr>, r2)))"

definition generateCert ::
  "('key, 'r) crypto \<Rightarrow> 'key CA \<Rightarrow> go_time \<Rightarrow> go_time \<Rightarrow> string \<Rightarrow> 'r \<Rightarrow> (string + 'key tls_cert) \<times> 'r" where
  "generateCert cr ca now1 now2 host r =
     (case GenerateKey cr r of
        (Inl err, r1) \<Rightarrow> (Inl (''generate host key: '' @ err), r1)
      | (Inr key, r1) \<Rightarrow> signHostCert cr ca now1 now2 host key r1)"

type_synonym 'key cert_map = "string \<rightharpoonup> 'key tls_cert"

definition certOrGenerate ::
  "('key, 'r) crypto \<Rightarrow> 'key CA \<Rightarrow> go_time \<Rightarrow> go_time \<Rightarrow> string \<Rightarrow> 'key cert_map \<Rightarrow> 'r
     \<Rightarrow> (string + 'key tls_cert) \<times> 'key cert_map \<times> 'r" where
  "certOrGenerate cr ca now1 now2 host certs r =
     (case certs host of
        Some cert \<Rightarrow> (Inr cert, certs, r)
      | None \<Rightarrow>
          (case generateCert cr ca now1 now2 host r of
             (Inl err, r') \<Rightarrow> (Inl err, certs, r')
           | (Inr cert, r') \<Rightarrow> (Inr cert, certs(host \<mapsto> cert), r')))"

record client_hello =
  ch_ServerName :: string
  ch_LocalAddr :: "string option"

definition localAddr :: "client_hello \<Rightarrow> string" where
  "localAddr hello = (case ch_LocalAddr hello of Some a \<Rightarrow> a | None \<Rightarrow> [])"

definition hostForHello :: "client_hello \<Rightarrow> string" where
  "hostForHello hello =
     (let host = (if ch_ServerName hello = [] then localAddr hello else ch_ServerName hello)
      in if host = [] then ''localhost'' else host)"

text \<open>\<^verbatim>\<open>GetCertificate\<close> run alone: the lookup under the read lock, then the rest under the write lock.\<close>

definition GetCertificate ::
  "('key, 'r) crypto \<Rightarrow> 'key CA \<Rightarrow> go_time \<Rightarrow> go_time \<Rightarrow> client_hello \<Rightarrow> 'key cert_map \<Rightarrow> 'r
     \<Rightarrow> (string + 'key tls_cert) \<times> 'key cert_map \<times> 'r" where
  "GetCertificate cr ca now1 now2 hello certs r =
     (let host = hostForHello hello in
      case certs host of
        Some cert \<Rightarrow> (Inr cert, certs, r)
      | None \<Rightarrow> certOrGenerate cr ca now1 now2 host certs r)"

definition GetCertForHost ::
  "('key, 'r) crypto \<Rightarrow> 'key CA \<Rightarrow> go_time \<Rightarrow> go_time \<Rightarrow> string \<Rightarrow> 'key cert_map \<Rightarrow> 'r
     \<Rightarrow> (string + 'key tls_cert) \<times> 'key cert_map \<times> 'r" where
  "GetCertForHost cr ca now1 now2 host = GetCertificate cr ca now1 now2 \<lparr>ch_ServerName = host, ch_LocalAddr = None\<rparr>"

section \<open>Concurrent use of the cache\<close>

text \<open>
  Any number of handshakes use the cache at once. A caller first looks the host up under
  the read lock; if that misses it later enters the write lock, where it looks again before
  it generates. Between the two anything may happen.
\<close>

datatype 'key caller = Idle | Waiting string | Got string "'key tls_cert" | GotError string string

record ('key, 'r) cache_sys =
  cs_certs :: "'key cert_map"
  cs_rand :: 'r
  cs_callers :: "nat \<Rightarrow> 'key caller"

inductive cache_step :: "('key, 'r) crypto \<Rightarrow> 'key CA \<Rightarrow> ('key, 'r) cache_sys \<Rightarrow> ('key, 'r) cache_sys \<Rightarrow> bool"
  for cr ca where
  hit: "cs_callers s i = Idle \<Longrightarrow> cs_certs s (hostForHello hello) = Some c \<Longrightarrow>
    cache_step cr ca s (s\<lparr>cs_callers := (cs_callers s)(i := Got (hostForHello hello) c)\<rparr>)"
| miss: "cs_callers s i = Idle \<Longrightarrow> cs_certs s (hostForHello hello) = None \<Longrightarrow>
    cache_step cr ca s (s\<lparr>cs_callers := (cs_callers s)(i := Waiting (hostForHello hello))\<rparr>)"
| fill: "cs_callers s i = Waiting host \<Longrightarrow>
    certOrGenerate cr ca now1 now2 host (cs_certs s) (cs_rand s) = (Inr c, certs', r') \<Longrightarrow>
    cache_step cr ca s \<lparr>cs_certs = certs', cs_rand = r', cs_callers = (cs_callers s)(i := Got host c)\<rparr>"
| fail: "cs_callers s i = Waiting host \<Longrightarrow>
    certOrGenerate cr ca now1 now2 host (cs_certs s) (cs_rand s) = (Inl err, certs', r') \<Longrightarrow>
    cache_step cr ca s \<lparr>cs_certs = certs', cs_rand = r', cs_callers = (cs_callers s)(i := GotError host err)\<rparr>"

inductive_cases cache_stepE: "cache_step cr ca s s'"

definition new_cache :: "'r \<Rightarrow> ('key, 'r) cache_sys" where
  "new_cache r = \<lparr>cs_certs = Map.empty, cs_rand = r, cs_callers = (\<lambda>_. Idle)\<rparr>"

inductive cache_reachable :: "('key, 'r) crypto \<Rightarrow> 'key CA \<Rightarrow> ('key, 'r) cache_sys \<Rightarrow> bool" for cr ca where
  start: "cache_reachable cr ca (new_cache r)"
| step: "cache_reachable cr ca s \<Longrightarrow> cache_step cr ca s s' \<Longrightarrow> cache_reachable cr ca s'"

text \<open>A leaf certificate that the CA has signed for exactly this host.\<close>

definition names_host :: "('key, 'r) crypto \<Rightarrow> string \<Rightarrow> cert_template \<Rightarrow> bool" where
  "names_host cr host t \<longleftrightarrow> ct_CommonName t = host \<and> \<not> ct_IsCA t \<and> ct_ExtKeyUsage t = [ServerAuth]
     \<and> (case ParseIP cr host of Some ip \<Rightarrow> ct_IPAddresses t = [ip] \<and> ct_DNSNames t = []
        | None \<Rightarrow> ct_DNSNames t = [host] \<and> ct_IPAddresses t = [])"

definition issued_for :: "('key, 'r) crypto \<Rightarrow> 'key CA \<Rightarrow> string \<Rightarrow> 'key tls_cert \<Rightarrow> bool" where
  "issued_for cr ca host c \<longleftrightarrow> (\<exists>t r r' der.
     CreateCertificate cr t (xc_Template (ca_Cert ca)) (tc_PrivateKey c) (ca_Key ca) r = (Inr der, r')
     \<and> names_host cr host t \<and> tc_Certificate c = [der, xc_Raw (ca_Cert ca)])"

lemma generateCert_issued:
  assumes "generateCert cr ca now1 now2 host r = (Inr c, r')"
  shows "issued_for cr ca host c"
proof -
  obtain key r1 where k: "signHostCert cr ca now1 now2 host key r1 = (Inr c, r')"
    using assms by (auto simp: generateCert_def split: prod.splits sum.splits)
  obtain t r2 where t: "hostCertificateTemplate cr now1 now2 host r1 = (Inr t, r2)"
    using k by (auto simp: signHostCert_def split: prod.splits sum.splits)
  then obtain der r3 where d: "CreateCertificate cr t (xc_Template (ca_Cert ca)) key (ca_Key ca) r2 = (Inr der, r3)"
      "c = \<lparr>tc_Certificate = [der, xc_Raw (ca_Cert ca)], tc_PrivateKey = key\<rparr>"
    using k by (auto simp: signHostCert_def split: prod.splits sum.splits)
  have "names_host cr host t"
    using t by (auto simp: hostCertificateTemplate_def names_host_def Let_def split: prod.splits sum.splits option.splits)
  with d show ?thesis unfolding issued_for_def by auto
qed

lemma certOrGenerate_ok:
  assumes "certOrGenerate cr ca now1 now2 host certs r = (res, certs', r')"
  shows "certs \<subseteq>\<^sub>m certs'" and "res = Inr c \<Longrightarrow> certs' host = Some c"
    and "\<And>h c. certs' h = Some c \<Longrightarrow> certs h = Some c \<or> (h = host \<and> issued_for cr ca h c)"
  using assms generateCert_issued [of cr ca now1 now2 host r]
  by (auto simp: certOrGenerate_def map_le_def split: option.splits prod.splits sum.splits if_splits)

definition cache_inv :: "('key, 'r) crypto \<Rightarrow> 'key CA \<Rightarrow> ('key, 'r) cache_sys \<Rightarrow> bool" where
  "cache_inv cr ca s \<longleftrightarrow>
     (\<forall>i host c. cs_callers s i = Got host c \<longrightarrow> cs_certs s host = Some c)
     \<and> (\<forall>host c. cs_certs s host = Some c \<longrightarrow> issued_for cr ca host c)"

lemma cache_step_inv:
  assumes "cache_inv cr ca s" "cache_step cr ca s s'"
  shows "cache_inv cr ca s'"
  using assms(2)
proof (cases rule: cache_step.cases)
  case (fill i host now1 now2 c certs' r')
  have "cs_certs s h = Some c' \<Longrightarrow> certs' h = Some c'" for h c'
    using certOrGenerate_ok(1) [OF fill(3)] by (auto simp: map_le_def dom_def)
  moreover have "issued_for cr ca h c'" if "certs' h = Some c'" for h c'
    using certOrGenerate_ok(3) [OF fill(3) that] assms(1) unfolding cache_inv_def by metis
  ultimately show ?thesis
    using assms(1) fill certOrGenerate_ok(2) [OF fill(3)] unfolding cache_inv_def by (auto split: if_splits)
next
  case (fail i host now1 now2 err certs' r')
  have "cs_certs s h = Some c' \<Longrightarrow> certs' h = Some c'" for h c'
    using certOrGenerate_ok(1) [OF fail(3)] by (auto simp: map_le_def dom_def)
  moreover have "issued_for cr ca h c'" if "certs' h = Some c'" for h c'
    using certOrGenerate_ok(3) [OF fail(3) that] assms(1) unfolding cache_inv_def by metis
  ultimately show ?thesis
    using assms(1) fail unfolding cache_inv_def by (auto split: if_splits)
qed (use assms(1) in \<open>auto simp: cache_inv_def\<close>)

lemma cache_reachable_inv: "cache_reachable cr ca s \<Longrightarrow> cache_inv cr ca s"
proof (induction rule: cache_reachable.induct)
  case (start r)
  then show ?case by (simp add: cache_inv_def new_cache_def)
next
  case (step s s')
  then show ?case using cache_step_inv by blast
qed

section \<open>Files of the CA\<close>

lemma path_norm_file:
  assumes "plain_segment f"
  shows "path_norm (path_Join [dir, f]) = (is_rooted dir, path_segments dir @ [f])"
    and "parent_key (path_norm (path_Join [dir, f])) = path_norm dir"
    and "path_norm (path_Join [dir, f]) \<notin> set (ancestors (path_norm dir))"
proof -
  show n: "path_norm (path_Join [dir, f]) = (is_rooted dir, path_segments dir @ [f])"
    by (rule path_norm_Join_child [OF assms])
  show "parent_key (path_norm (path_Join [dir, f])) = path_norm dir"
    unfolding n by (simp add: parent_key_def path_norm_def)
  show "path_norm (path_Join [dir, f]) \<notin> set (ancestors (path_norm dir))"
    unfolding n using ancestors_length [of "(is_rooted dir, path_segments dir @ [f])" "path_norm dir"]
    by (auto simp: path_norm_def)
qed

lemma plain_ca_files: "plain_segment ''ca-cert.pem''" "plain_segment ''ca-key.pem''"
  by (simp_all add: plain_segment_def)

lemma ca_paths_differ: "path_norm (path_Join [dir, ''ca-cert.pem'']) \<noteq> path_norm (path_Join [dir, ''ca-key.pem''])"
  by (simp add: path_norm_file(1) [OF plain_ca_files(1)] path_norm_file(1) [OF plain_ca_files(2)])

lemma os_MkdirAll_ok:
  assumes "os_MkdirAll path perm st = (None, st')"
  shows "os_files st' = os_files st" "os_modes st' = os_modes st" "os_deny st' = os_deny st" "os_umask st' = os_umask st"
    and "dir_exists st' (path_norm path)"
    and "k \<notin> set (ancestors (path_norm path)) \<Longrightarrow> dir_exists st' k = dir_exists st k"
  using assms self_in_ancestors [of "path_norm path"]
  by (auto simp: os_MkdirAll_def dir_exists_def Let_def split: option.splits if_splits)

lemma os_WriteFile_ok:
  assumes "os_WriteFile path data perm st = (None, st')"
  shows "os_files st' = (os_files st)(path_norm path \<mapsto> data)"
    and "os_modes st' = created_mode st (path_norm path) perm"
    and "os_deny st' = os_deny st" "os_umask st' = os_umask st" "os_dirs st' = os_dirs st"
  using assms by (auto simp: os_WriteFile_def Let_def split: option.splits if_splits)

text \<open>
  What the documentation of \<^verbatim>\<open>crypto/x509\<close>, \<^verbatim>\<open>crypto/tls\<close> and \<^verbatim>\<open>encoding/pem\<close> promises: a parsed
  certificate keeps its encoding, and the PEM files of a self-signed certificate and its
  key load as that pair.
\<close>

definition codec_ok :: "('key, 'r) crypto \<Rightarrow> bool" where
  "codec_ok cr \<longleftrightarrow>
     (\<forall>der c. ParseCertificate cr der = Inr c \<longrightarrow> xc_Raw c = der)
     \<and> (\<forall>t key r r' der cp kb kp. CreateCertificate cr t t key key r = (Inr der, r') \<longrightarrow>
          PemEncode cr ''CERTIFICATE'' der = Inr cp \<longrightarrow> MarshalECPrivateKey cr key = Inr kb \<longrightarrow>
          PemEncode cr ''EC PRIVATE KEY'' kb = Inr kp \<longrightarrow>
          X509KeyPair cr cp kp = Inr \<lparr>tc_Certificate = [der], tc_PrivateKey = key\<rparr>)"

lemma GenerateCA_shape:
  assumes "GenerateCA cr now1 now2 r = (Inr ca, r')"
  shows "\<exists>t key der cert r1 r2. CreateCertificate cr t t key key r1 = (Inr der, r2)
    \<and> ParseCertificate cr der = Inr cert \<and> ct_IsCA t
    \<and> ca = \<lparr>ca_Cert = cert, ca_Key = key, ca_TLS = \<lparr>tc_Certificate = [der], tc_PrivateKey = key\<rparr>, ca_certPool = [cert]\<rparr>"
proof -
  obtain key r1 cert der where k: "caCertificate cr now1 now2 key r1 = (Inr (cert, der), r')"
    and ca: "ca = \<lparr>ca_Cert = cert, ca_Key = key, ca_TLS = \<lparr>tc_Certificate = [der], tc_PrivateKey = key\<rparr>, ca_certPool = [cert]\<rparr>"
    using assms by (auto simp: GenerateCA_def split: prod.splits sum.splits)
  obtain t r2 where t: "caCertificateTemplate cr now1 now2 r1 = (Inr t, r2)" "createCertificate cr key t r2 = (Inr (cert, der), r')"
    using k by (auto simp: caCertificate_def split: prod.splits sum.splits)
  have "ct_IsCA t" using t(1) by (auto simp: caCertificateTemplate_def split: prod.splits sum.splits)
  moreover have "CreateCertificate cr t t key key r2 = (Inr der, r')" "ParseCertificate cr der = Inr cert"
    using t(2) by (auto simp: createCertificate_def split: prod.splits sum.splits)
  ultimately show ?thesis using ca by blast
qed

lemma persistCA_ok:
  assumes "persistCA cr ca dir certPath keyPath st = (None, st')"
    and "path_norm certPath \<noteq> path_norm keyPath"
  shows "\<exists>cp kp. encodeCAFiles cr ca = Inr (cp, kp)
    \<and> os_files st' (path_norm certPath) = Some cp \<and> os_files st' (path_norm keyPath) = Some kp
    \<and> os_deny st' = os_deny st
    \<and> (os_files st (path_norm keyPath) = None \<longrightarrow>
         os_modes st' (path_norm keyPath) = Some (0x180 AND NOT (os_umask st)))"
proof -
  obtain s1 cp kp where s1: "os_MkdirAll dir 0x1C0 st = (None, s1)" "encodeCAFiles cr ca = Inr (cp, kp)"
      "writeCAFiles certPath keyPath cp kp s1 = (None, st')"
    using assms(1) by (auto simp: persistCA_def split: prod.splits option.splits sum.splits)
  obtain s2 where s2: "os_WriteFile certPath cp 0x1A4 s1 = (None, s2)" "os_WriteFile keyPath kp 0x180 s2 = (None, st')"
    using s1(3) by (auto simp: writeCAFiles_def split: prod.splits option.splits)
  show ?thesis
    using s1(2) os_MkdirAll_ok [OF s1(1)] os_WriteFile_ok [OF s2(1)] os_WriteFile_ok [OF s2(2)] assms(2)
    by (auto simp: created_mode_def)
qed

text \<open>A library for the witnesses: keys are numbers, encodings are readable text.\<close>

definition demo_crypto :: "(nat, nat) crypto" where
  "demo_crypto = \<lparr> GenerateKey = (\<lambda>r. (Inr r, Suc r)), RandInt = (\<lambda>n r. (Inr (int r), Suc r)),
     CreateCertificate = (\<lambda>t p pub priv r. (Inr (ct_CommonName t @ ''#'' @ nat_dec r), Suc r)),
     ParseCertificate = (\<lambda>der. Inr \<lparr>xc_Raw = der, xc_Template = \<lparr> ct_SerialNumber = 0, ct_CommonName = [],
       ct_Organization = [], ct_NotBefore = 0, ct_NotAfter = 0, ct_KeyUsage = [], ct_ExtKeyUsage = [],
       ct_BasicConstraintsValid = True, ct_IsCA = True, ct_MaxPathLen = 0, ct_IPAddresses = [], ct_DNSNames = [] \<rparr>\<rparr>),
     MarshalECPrivateKey = (\<lambda>k. Inr (nat_dec k)), PemEncode = (\<lambda>ty b. Inr (ty @ '':'' @ b)),
     X509KeyPair = (\<lambda>c k. Inr \<lparr>tc_Certificate = [drop 12 c], tc_PrivateKey = dec_val (drop 15 k)\<rparr>),
     ParseIP = (\<lambda>s. if s \<noteq> [] \<and> list_all (\<lambda>c. is_digit_byte c \<or> c = CHR ''.'') s then Some s else None) \<rparr>"

definition demo_ca :: "nat CA" where
  "demo_ca = projr (fst (GenerateCA demo_crypto 5 6 0))"

lemma demo_codec: "codec_ok demo_crypto"
  by (simp add: codec_ok_def demo_crypto_def)

section \<open>Properties\<close>

text \<open>
  \<^bold>\<open>C27\<close>. One certificate per host, under every interleaving: whatever the order in which concurrent
  handshakes look up, miss and fill the cache, any two that obtain a certificate for the
  same host obtain the same one, it is the one in the cache, and it was signed by the CA for
  exactly that host (an IP address SAN if the host is an address, a DNS name otherwise) and
  is not a CA certificate.
\<close>

theorem one_certificate_per_host:
  assumes "cache_reachable cr ca s" "cs_callers s i = Got host c" "cs_callers s j = Got host c'"
  shows "c = c' \<and> cs_certs s host = Some c \<and> issued_for cr ca host c"
  using cache_reachable_inv [OF assms(1)] assms(2,3) unfolding cache_inv_def by (metis option.inject)

theorem one_certificate_per_host_witness:
  "\<exists>s c. cache_reachable demo_crypto demo_ca s \<and> cs_callers s 1 = Got ''a.b'' c
     \<and> cs_callers s 2 = Got ''a.b'' c \<and> issued_for demo_crypto demo_ca ''a.b'' c"
proof -
  let ?h = "\<lparr>ch_ServerName = ''a.b'', ch_LocalAddr = None\<rparr>" and ?st = "cache_step demo_crypto demo_ca"
  define s0 where "s0 = (new_cache 7 :: (nat, nat) cache_sys)"
  define s1 where "s1 = s0\<lparr>cs_callers := (cs_callers s0)(1 := Waiting (hostForHello ?h))\<rparr>"
  define s2 where "s2 = s1\<lparr>cs_callers := (cs_callers s1)(2 := Waiting (hostForHello ?h))\<rparr>"
  have h: "hostForHello ?h = ''a.b''" by (simp add: hostForHello_def)
  have r2: "cache_reachable demo_crypto demo_ca s2"
  proof -
    have "?st s0 s1" unfolding s1_def by (rule miss) (simp_all add: s0_def new_cache_def)
    moreover have "?st s1 s2" unfolding s2_def by (rule miss) (simp_all add: s1_def s0_def new_cache_def)
    ultimately show ?thesis using start [of demo_crypto demo_ca 7] step unfolding s0_def by metis
  qed
  obtain c certs' r' where g: "certOrGenerate demo_crypto demo_ca 1 2 ''a.b'' (cs_certs s2) (cs_rand s2) = (Inr c, certs', r')"
    by (simp add: certOrGenerate_def generateCert_def signHostCert_def hostCertificateTemplate_def demo_crypto_def
        s2_def s1_def s0_def new_cache_def Let_def)
  define s3 where "s3 = \<lparr>cs_certs = certs', cs_rand = r', cs_callers = (cs_callers s2)(1 := Got ''a.b'' c)\<rparr>"
  have "?st s2 s3" unfolding s3_def by (rule fill [OF _ g]) (simp add: s2_def s1_def h)
  with r2 have r3: "cache_reachable demo_crypto demo_ca s3" by (rule step)
  have certs': "certs' ''a.b'' = Some c" using certOrGenerate_ok(2) [OF g] by simp
  define s4 where "s4 = \<lparr>cs_certs = certs', cs_rand = r', cs_callers = (cs_callers s3)(2 := Got ''a.b'' c)\<rparr>"
  have "?st s3 s4" unfolding s4_def
  proof (rule fill)
    show "cs_callers s3 2 = Waiting ''a.b''" by (simp add: s3_def s2_def h)
    show "certOrGenerate demo_crypto demo_ca 1 2 ''a.b'' (cs_certs s3) (cs_rand s3) = (Inr c, certs', r')"
      using certs' by (simp add: certOrGenerate_def s3_def)
  qed
  with r3 have r4: "cache_reachable demo_crypto demo_ca s4" by (rule step)
  moreover have "cs_callers s4 1 = Got ''a.b'' c" "cs_callers s4 2 = Got ''a.b'' c"
    by (simp_all add: s4_def s3_def)
  ultimately show ?thesis using one_certificate_per_host [OF r4, of 1 "''a.b''" c 2 c] by blast
qed

lemma parseCAPair_TLS: "parseCAPair cr tls = Inr (Inr ca) \<Longrightarrow> ca_TLS ca = tls"
  unfolding parseCAPair_def
  by (cases "go_index (tc_Certificate tls) 0"; cases "ParseCertificate cr (projr (go_index (tc_Certificate tls) 0))") auto

lemma createAndPersistCA_files:
  assumes "codec_ok cr" "createAndPersistCA cr now1 now2 dir c k r st = (Inr ca, r', st')" "path_norm c \<noteq> path_norm k"
  shows "\<exists>cp kp. os_files st' (path_norm c) = Some cp \<and> os_files st' (path_norm k) = Some kp
    \<and> X509KeyPair cr cp kp = Inr (ca_TLS ca) \<and> parseCAPair cr (ca_TLS ca) = Inr (Inr ca)
    \<and> os_deny st' = os_deny st
    \<and> (os_files st (path_norm k) = None \<longrightarrow> os_modes st' (path_norm k) = Some (0x180 AND NOT (os_umask st)))"
proof -
  have created: "GenerateCA cr now1 now2 r = (Inr ca, r')" "persistCA cr ca dir c k st = (None, st')"
    using assms(2) by (auto simp: createAndPersistCA_def split: prod.splits sum.splits option.splits)
  obtain cp kp where f: "encodeCAFiles cr ca = Inr (cp, kp)" "os_files st' (path_norm c) = Some cp"
      "os_files st' (path_norm k) = Some kp" "os_deny st' = os_deny st"
      "os_files st (path_norm k) = None \<longrightarrow> os_modes st' (path_norm k) = Some (0x180 AND NOT (os_umask st))"
    using persistCA_ok [OF created(2) assms(3)] by (elim exE conjE) (rule that)
  obtain t key der cert r1 r3 where g: "CreateCertificate cr t t key key r1 = (Inr der, r3)"
      "ParseCertificate cr der = Inr cert"
      "ca = \<lparr>ca_Cert = cert, ca_Key = key, ca_TLS = \<lparr>tc_Certificate = [der], tc_PrivateKey = key\<rparr>, ca_certPool = [cert]\<rparr>"
    using GenerateCA_shape [OF created(1)] by blast
  have "xc_Raw cert = der" using assms(1) g(2) by (simp add: codec_ok_def)
  then obtain kb where "PemEncode cr ''CERTIFICATE'' der = Inr cp" "MarshalECPrivateKey cr key = Inr kb"
      "PemEncode cr ''EC PRIVATE KEY'' kb = Inr kp"
    using f(1) g(3) by (auto simp: encodeCAFiles_def encodeCAKeyPEM_def split: sum.splits)
  then have "X509KeyPair cr cp kp = Inr \<lparr>tc_Certificate = [der], tc_PrivateKey = key\<rparr>"
    using assms(1) g(1) unfolding codec_ok_def by blast
  then show ?thesis using f(2-5) g(2,3) by (simp add: parseCAPair_def)
qed

lemma key_mode_private: "(0x180 AND NOT u) AND 0x3F = (0 :: file_mode)"
proof -
  have "(0x180 :: file_mode) AND 0x3F = 0" by simp
  then show ?thesis by (metis and.assoc and.commute and_zero_eq)
qed

lemma demo_not_stat:
  "\<not> os_Stat_ok (path_Join [''/ca'', ''ca-cert.pem'']) demo_os" "\<not> os_Stat_ok (path_Join [''/ca'', ''ca-key.pem'']) demo_os"
  by (simp_all add: os_Stat_ok_def demo_os_def dir_exists_def path_norm_file(1) plain_ca_files)

lemma demo_CA_created: "\<exists>ca r' st'. LoadOrCreateCA demo_crypto t1 t2 ''/ca'' 0 demo_os = Inr (Inr ca, r', st')"
proof -
  let ?c = "path_Join [''/ca'', ''ca-cert.pem'']" and ?k = "path_Join [''/ca'', ''ca-key.pem'']"
  note ns = demo_not_stat
  obtain s1 where s1: "os_MkdirAll ''/ca'' 0x1C0 demo_os = (None, s1)"
    by (simp add: os_MkdirAll_def demo_os_def Let_def list_ex_iff)
  note m = os_MkdirAll_ok [OF s1]
  have "\<not> dir_exists s1 (path_norm ?c)" "\<not> dir_exists s1 (path_norm ?k)"
    using ns m(6) [OF path_norm_file(3) [OF plain_ca_files(1)]] m(6) [OF path_norm_file(3) [OF plain_ca_files(2)]]
    by (simp_all add: os_Stat_ok_def)
  moreover have "dir_exists s1 (parent_key (path_norm ?c))" "dir_exists s1 (parent_key (path_norm ?k))"
    using m(5) by (simp_all add: path_norm_file(2) plain_ca_files)
  ultimately have "\<exists>st'. writeCAFiles ?c ?k cp kp s1 = (None, st')" for cp kp
    using m(3) by (simp add: writeCAFiles_def os_WriteFile_def demo_os_def dir_exists_def Let_def)
  moreover obtain ca r' where g: "GenerateCA demo_crypto t1 t2 0 = (Inr ca, r')"
    by (simp add: GenerateCA_def caCertificate_def caCertificateTemplate_def createCertificate_def demo_crypto_def)
  moreover obtain cp kp where "encodeCAFiles demo_crypto ca = Inr (cp, kp)"
    by (simp add: encodeCAFiles_def encodeCAKeyPEM_def demo_crypto_def)
  ultimately obtain st' where "persistCA demo_crypto ca ''/ca'' ?c ?k demo_os = (None, st')"
    using s1 by (auto simp: persistCA_def)
  then show ?thesis
    using ns(1) g by (simp add: LoadOrCreateCA_def createAndPersistCA_def)
qed

text \<open>
  \<^bold>\<open>C28\<close>. The CA survives restarts: once a start has created and saved a CA where there was neither a
  certificate nor a key file, and as long as the operating system refuses no read (as it
  would to a process that is not root if the umask takes the owner's permission to read
  away), the next start loads exactly the same CA (certificate, key and TLS pair) from the
  files, at any time and without generating anything, and leaves the files as they are for
  the start after it; and the key file so created is readable by nobody but its owner,
  whatever the umask is.
\<close>

theorem CA_survives_restart:
  assumes "codec_ok cr" "LoadOrCreateCA cr now1 now2 dir r st = Inr (Inr ca, r', st')"
    and "\<not> os_Stat_ok (path_Join [dir, ''ca-cert.pem'']) st" "\<not> os_Stat_ok (path_Join [dir, ''ca-key.pem'']) st"
    and "os_deny st OpRead = (\<lambda>_. None)"
  shows "LoadOrCreateCA cr t1 t2 dir r2 st' = Inr (Inr ca, r2, st')
    \<and> (\<exists>m. os_modes st' (path_norm (path_Join [dir, ''ca-key.pem''])) = Some m \<and> m AND 0x3F = 0)"
proof -
  let ?c = "path_Join [dir, ''ca-cert.pem'']" and ?k = "path_Join [dir, ''ca-key.pem'']"
  have "createAndPersistCA cr now1 now2 dir ?c ?k r st = (Inr ca, r', st')"
    using assms(2,3) by (simp add: LoadOrCreateCA_def Let_def)
  from createAndPersistCA_files [OF assms(1) this ca_paths_differ] obtain cp kp where
    f: "os_files st' (path_norm ?c) = Some cp" "os_files st' (path_norm ?k) = Some kp" "X509KeyPair cr cp kp = Inr (ca_TLS ca)"
      "parseCAPair cr (ca_TLS ca) = Inr (Inr ca)" "os_deny st' = os_deny st"
      "os_files st (path_norm ?k) = None \<longrightarrow> os_modes st' (path_norm ?k) = Some (0x180 AND NOT (os_umask st))"
    by (elim exE conjE) (rule that)
  then have "LoadOrCreateCA cr t1 t2 dir r2 st' = Inr (Inr ca, r2, st')"
    using assms(5) by (simp add: LoadOrCreateCA_def os_Stat_ok_def loadCA_def readCAPairFiles_def os_ReadFile_def Let_def)
  then show ?thesis using f(6) assms(4) key_mode_private by (auto simp: os_Stat_ok_def)
qed

theorem CA_survives_restart_witness:
  "\<exists>ca r' st'. LoadOrCreateCA demo_crypto 5 6 ''/ca'' 0 demo_os = Inr (Inr ca, r', st')
     \<and> LoadOrCreateCA demo_crypto 100 101 ''/ca'' 42 st' = Inr (Inr ca, 42, st')"
proof -
  obtain ca r' st' where l: "LoadOrCreateCA demo_crypto 5 6 ''/ca'' 0 demo_os = Inr (Inr ca, r', st')"
    using demo_CA_created by blast
  moreover have "os_deny demo_os OpRead = (\<lambda>_. None)" by (simp add: demo_os_def)
  ultimately show ?thesis using CA_survives_restart [OF demo_codec l demo_not_stat] by blast
qed

text \<open>
  \<^bold>\<open>C40\<close>. A failed first start is not repaired by the next one: the certificate is written before the
  key, so if the key file cannot be created the error is reported but the certificate stays
  behind, and every later start fails to load the missing key instead of creating a new CA,
  even when the cause of the failure is gone.
\<close>

theorem CA_half_written_never_loads:
  assumes "GenerateCA cr now1 now2 r = (Inr ca, r')" "encodeCAFiles cr ca = Inr (cp, kp)"
    and "\<not> os_Stat_ok (path_Join [dir, ''ca-cert.pem'']) st" "\<not> os_Stat_ok (path_Join [dir, ''ca-key.pem'']) st"
    and "dir_free st (path_norm dir)"
    and "os_deny st = (\<lambda>op k. if op = OpOpen \<and> k = path_norm (path_Join [dir, ''ca-key.pem'']) then Some e else None)"
  shows "\<exists>st'. LoadOrCreateCA cr now1 now2 dir r st = Inr (Inl (''write CA key: '' @ e), r', st')
    \<and> (\<forall>t1 t2 r2. LoadOrCreateCA cr t1 t2 dir r2 (st'\<lparr>os_deny := \<lambda>_ _. None\<rparr>)
         = Inr (Inl ''read CA key: no such file or directory'', r2, st'\<lparr>os_deny := \<lambda>_ _. None\<rparr>))"
proof -
  let ?c = "path_Join [dir, ''ca-cert.pem'']" and ?k = "path_Join [dir, ''ca-key.pem'']"
  obtain s1 where s1: "os_MkdirAll dir 0x1C0 st = (None, s1)"
    using assms(5,6) by (simp add: os_MkdirAll_def dir_free_def list_all_iff list_ex_iff Let_def)
  note m = os_MkdirAll_ok [OF s1]
  have nd: "\<not> dir_exists s1 (path_norm ?c)" "\<not> dir_exists s1 (path_norm ?k)"
    using assms(3,4) m(6) [OF path_norm_file(3) [OF plain_ca_files(1)]] m(6) [OF path_norm_file(3) [OF plain_ca_files(2)]]
    by (simp_all add: os_Stat_ok_def)
  have pd: "dir_exists s1 (parent_key (path_norm ?c))" "dir_exists s1 (parent_key (path_norm ?k))"
    using m(5) by (simp_all add: path_norm_file(2) plain_ca_files)
  define s2 where "s2 = s1\<lparr>os_files := (os_files s1)(path_norm ?c \<mapsto> cp), os_modes := created_mode s1 (path_norm ?c) 0x1A4\<rparr>"
  have w1: "os_WriteFile ?c cp 0x1A4 s1 = (None, s2)"
    using nd(1) pd(1) m(3) assms(6) ca_paths_differ [of dir] by (simp add: os_WriteFile_def s2_def Let_def)
  have w2: "os_WriteFile ?k kp 0x180 s2 = (Some e, s2)"
    using nd(2) pd(2) m(3) assms(6) by (simp add: os_WriteFile_def s2_def dir_exists_def Let_def)
  have "persistCA cr ca dir ?c ?k st = (Some (''write CA key: '' @ e), s2)"
    using s1 assms(2) w1 w2 by (simp add: persistCA_def writeCAFiles_def)
  then have "LoadOrCreateCA cr now1 now2 dir r st = Inr (Inl (''write CA key: '' @ e), r', s2)"
    using assms(1,3) by (simp add: LoadOrCreateCA_def createAndPersistCA_def)
  moreover have "os_files s2 (path_norm ?c) = Some cp" "os_files s2 (path_norm ?k) = None"
    using ca_paths_differ [of dir] m(1) assms(4) by (simp_all add: s2_def os_Stat_ok_def)
  ultimately show ?thesis
    by (simp add: LoadOrCreateCA_def os_Stat_ok_def loadCA_def readCAPairFiles_def os_ReadFile_def Let_def)
qed

theorem CA_half_written_never_loads_witness:
  "\<exists>st'. LoadOrCreateCA demo_crypto 5 6 ''/ca'' 0
        (demo_os\<lparr>os_deny := (\<lambda>op k. if op = OpOpen \<and> k = path_norm (path_Join [''/ca'', ''ca-key.pem'']) then Some ''quota'' else None)\<rparr>)
      = Inr (Inl (''write CA key: '' @ ''quota''), snd (GenerateCA demo_crypto 5 6 0), st')
    \<and> (\<forall>t1 t2 r2. LoadOrCreateCA demo_crypto t1 t2 ''/ca'' r2 (st'\<lparr>os_deny := \<lambda>_ _. None\<rparr>)
         = Inr (Inl ''read CA key: no such file or directory'', r2, st'\<lparr>os_deny := \<lambda>_ _. None\<rparr>))"
proof -
  obtain ca r' where g: "GenerateCA demo_crypto 5 6 0 = (Inr ca, r')"
    by (simp add: GenerateCA_def caCertificate_def caCertificateTemplate_def createCertificate_def demo_crypto_def)
  obtain cp kp where f: "encodeCAFiles demo_crypto ca = Inr (cp, kp)"
    by (simp add: encodeCAFiles_def encodeCAKeyPEM_def demo_crypto_def)
  let ?st = "demo_os\<lparr>os_deny := (\<lambda>op k. if op = OpOpen \<and> k = path_norm (path_Join [''/ca'', ''ca-key.pem'']) then Some ''quota'' else None)\<rparr>"
  have "\<not> os_Stat_ok (path_Join [''/ca'', ''ca-cert.pem'']) ?st" "\<not> os_Stat_ok (path_Join [''/ca'', ''ca-key.pem'']) ?st"
    "dir_free ?st (path_norm ''/ca'')"
    by (simp_all add: os_Stat_ok_def demo_os_def dir_exists_def path_norm_file(1) plain_ca_files dir_free_def list_all_iff)
  from CA_half_written_never_loads [OF g f this, of "''quota''"] show ?thesis using g by simp
qed

end
