(* ===== verification/Httpx.thy ===== *)
theory Httpx
  imports Go_Strings
begin

text \<open>
  \<^verbatim>\<open>internal/httpx\<close>: the settings with which every server of goper serves, and what Go's
  \<^verbatim>\<open>http.Server\<close> does with the read deadline of a connection under such settings. The listener
  and \<^verbatim>\<open>http.Server.Serve\<close> itself are parameters.
\<close>

section \<open>The server\<close>

record 'h http_server =
  hs_Handler :: 'h
  hs_ReadHeaderTimeout :: int
  hs_ReadTimeout :: int
  hs_WriteTimeout :: int
  hs_IdleTimeout :: int

definition seconds :: "int \<Rightarrow> int" where
  "seconds n = n * 1000000000"

text \<open>
  \<^verbatim>\<open>Serve\<close> is what \<^verbatim>\<open>srv.Serve\<close> does: for a listener the error it returns, if it does (\<open>None\<close>: it
  is still serving).
\<close>

definition httpx_Serve :: "('h http_server \<Rightarrow> 'l \<Rightarrow> 'r) \<Rightarrow> 'h \<Rightarrow> 'l \<Rightarrow> int \<Rightarrow> 'r" where
  "httpx_Serve serve handler l readTimeout =
     serve \<lparr>hs_Handler = handler, hs_ReadHeaderTimeout = seconds 10, hs_ReadTimeout = readTimeout,
            hs_WriteTimeout = 0, hs_IdleTimeout = seconds 120\<rparr> l"

definition httpx_Listen :: "(string \<Rightarrow> string \<Rightarrow> string + 'l) \<Rightarrow> int \<Rightarrow> string + 'l" where
  "httpx_Listen net_Listen port =
     (let addr = '':'' @ itoa port in
      case net_Listen ''tcp'' addr of
        Inl err \<Rightarrow> Inl (''listen '' @ addr @ '': '' @ err)
      | Inr ln \<Rightarrow> Inr ln)"

section \<open>One connection of a server\<close>

text \<open>
  What happens to a connection. The first group is done by goper's handler of a redirected
  connection, the second by \<^verbatim>\<open>http.Server\<close>: reading a request up to its header, handling it
  (with its body), and waiting for the next one.
\<close>

datatype conn_action = SetReadDeadline "go_time option" | PeekFirst | PeekSNI
  | Handshake string | ServeInner string string | CloseConn
  | ReadHeader | HandleRequest | AwaitRequest

text \<open>
  The life of a connection in \<^verbatim>\<open>conn.serve\<close> of \<^verbatim>\<open>net/http\<close>: for each request that is answered and after which
  the connection stays open, the times at which its header is begun and at which the
  connection becomes idle; then the end: the next header cannot be read, the connection is
  not kept alive after a reply, no next request comes in time, or the handler takes the
  connection over (a hijack, which clears its deadline). Every end closes the connection;
  after a hijack it is the new owner who does. The deadlines in the past by which the server
  interrupts its own background read are left out; they are cleared at once.
\<close>

datatype session_end = EndHeader go_time | EndReply go_time | EndIdle go_time go_time | EndHijack go_time

type_synonym session = "(go_time \<times> go_time) list \<times> session_end"

definition deadline_in :: "go_time \<Rightarrow> int \<Rightarrow> go_time option" where
  "deadline_in t d = (if 0 < d then Some (t + d) else None)"

definition read_request :: "'h http_server \<Rightarrow> go_time \<Rightarrow> conn_action list" where
  "read_request srv t = [SetReadDeadline (deadline_in t (hs_ReadHeaderTimeout srv)), ReadHeader,
     SetReadDeadline (deadline_in t (hs_ReadTimeout srv)), HandleRequest]"

definition await_request :: "'h http_server \<Rightarrow> go_time \<Rightarrow> conn_action list" where
  "await_request srv t = [SetReadDeadline (deadline_in t (hs_IdleTimeout srv)), AwaitRequest]"

fun http_session :: "'h http_server \<Rightarrow> session \<Rightarrow> conn_action list" where
  "http_session srv ([], EndHeader t) = [SetReadDeadline (deadline_in t (hs_ReadHeaderTimeout srv)), ReadHeader, CloseConn]"
| "http_session srv ([], EndReply t) = read_request srv t @ [CloseConn]"
| "http_session srv ([], EndIdle t t2) = read_request srv t @ await_request srv t2 @ [CloseConn]"
| "http_session srv ([], EndHijack t) = read_request srv t @ [SetReadDeadline None, CloseConn]"
| "http_session srv ((t, t2) # rs, e) =
     read_request srv t @ await_request srv t2 @ SetReadDeadline None # http_session srv (rs, e)"

text \<open>
  Which reads of a connection are guarded, starting with the deadline \<open>d\<close>: the peek of the
  first byte by the peek timeout \<open>p\<close>, headers and the wait for a request by the server's, and
  none of the others.
\<close>

fun guarded :: "go_time option \<Rightarrow> go_time option \<Rightarrow> conn_action list \<Rightarrow> bool" where
  "guarded p d [] \<longleftrightarrow> True"
| "guarded p d (SetReadDeadline d' # acts) \<longleftrightarrow> guarded p d' acts"
| "guarded p d (PeekFirst # acts) \<longleftrightarrow> d = p \<and> guarded p d acts"
| "guarded p d (ReadHeader # acts) \<longleftrightarrow> (\<exists>t. d = Some (t + seconds 10)) \<and> guarded p d acts"
| "guarded p d (AwaitRequest # acts) \<longleftrightarrow> (\<exists>t. d = Some (t + seconds 120)) \<and> guarded p d acts"
| "guarded p d (PeekSNI # acts) \<longleftrightarrow> d = None \<and> guarded p d acts"
| "guarded p d (Handshake h # acts) \<longleftrightarrow> d = None \<and> guarded p d acts"
| "guarded p d (HandleRequest # acts) \<longleftrightarrow> d = None \<and> guarded p d acts"
| "guarded p d (ServeInner scheme h # acts) \<longleftrightarrow> guarded p d acts"
| "guarded p d (CloseConn # acts) \<longleftrightarrow> guarded p d acts"

lemma http_session_closes: "\<exists>pre. http_session srv s = pre @ [CloseConn] \<and> CloseConn \<notin> set pre
    \<and> PeekFirst \<notin> set pre \<and> PeekSNI \<notin> set pre \<and> (\<forall>sc h. ServeInner sc h \<notin> set pre)"
proof (induction srv s rule: http_session.induct)
  case (5 srv t t2 rs e)
  then obtain pre where "http_session srv (rs, e) = pre @ [CloseConn]" "CloseConn \<notin> set pre"
    "PeekFirst \<notin> set pre" "PeekSNI \<notin> set pre" "\<forall>sc h. ServeInner sc h \<notin> set pre" by blast
  then show ?case
    by (intro exI [of _ "read_request srv t @ await_request srv t2 @ SetReadDeadline None # pre"])
      (simp add: read_request_def await_request_def)
qed (simp_all add: read_request_def await_request_def)

lemma httpx_session_guarded:
  "guarded p d (httpx_Serve http_session h s 0 @ [CloseConn])"
proof -
  have "guarded p d (http_session srv s @ [CloseConn])"
    if "hs_ReadHeaderTimeout srv = seconds 10" "hs_ReadTimeout srv = 0" "hs_IdleTimeout srv = seconds 120" for srv :: "'a http_server"
    using that
    by (induction srv s arbitrary: d rule: http_session.induct)
      (auto simp: read_request_def await_request_def deadline_in_def seconds_def)
  then show ?thesis by (simp add: httpx_Serve_def)
qed

end
