(* ===== verification/Transparent_Loop.thy ===== *)
theory Transparent_Loop
  imports Tls_Sni Mitm_Certs Httpx
begin

text \<open>
  \<^verbatim>\<open>internal/proxy/transparent_loop.go\<close> and \<^verbatim>\<open>transparent.go\<close>: accepting redirected connections,
  telling TLS from HTTP by the first byte, choosing the host, and serving one connection
  through \<^verbatim>\<open>http.Server\<close>. What a connection handler does to its connection is a list of
  actions, those of \<^verbatim>\<open>http.Server\<close> (\<open>Httpx\<close>) included, so that its order (deadlines, peeks, close)
  can be stated. The TLS handshake, the socket option and the times of the requests are
  outcomes that come with the connection.
\<close>

section \<open>The original destination\<close>

record original_dst =
  od_IP :: string
  od_Port :: int

text \<open>\<^verbatim>\<open>RawSockaddrInet4\<close>: the port in network byte order and the four address bytes.\<close>

record sockaddr_in =
  sa_Port :: "byte \<times> byte"
  sa_Addr :: "byte list"

definition ip_String :: "byte list \<Rightarrow> string" where
  "ip_String addr = join ''.'' (map (\<lambda>b. nat_dec (unat b)) addr)"

record tconn =
  tn_tcp :: bool
  tn_file :: go_error
  tn_sockopt :: "string + sockaddr_in"
  tn_deadline_err :: bool
  tn_bytes :: "byte list"
  tn_handshake :: "string \<Rightarrow> go_error"
  tn_session :: session

definition GetOriginalDst :: "tconn \<Rightarrow> string + original_dst" where
  "GetOriginalDst conn =
     (if \<not> tn_tcp conn then Inl ''not a TCP connection''
      else (case tn_file conn of
              Some err \<Rightarrow> Inl (''get file descriptor: '' @ err)
            | None \<Rightarrow>
                (case tn_sockopt conn of
                   Inl errno \<Rightarrow> Inl (''SO_ORIGINAL_DST: '' @ errno)
                 | Inr addr \<Rightarrow>
                     Inr \<lparr>od_IP = ip_String (sa_Addr addr), od_Port = int (be16 (fst (sa_Port addr)) (snd (sa_Port addr)))\<rparr>)))"

type_synonym resolver = "tconn \<Rightarrow> string + original_dst"

definition LinuxResolver_Resolve :: resolver where
  "LinuxResolver_Resolve conn = GetOriginalDst conn"

text \<open>\<^verbatim>\<open>defaultResolver\<close>, of which the build selects the one for Linux or the one for other systems.\<close>

definition defaultResolver_linux :: "resolver option" where
  "defaultResolver_linux = Some LinuxResolver_Resolve"

definition defaultResolver_other :: "resolver option" where
  "defaultResolver_other = None"

definition defaultResolver :: "bool \<Rightarrow> resolver option" where
  "defaultResolver linux = (if linux then defaultResolver_linux else defaultResolver_other)"

section \<open>Listening\<close>

text \<open>What \<^verbatim>\<open>Accept\<close> returns next: a connection, a timeout, or another error.\<close>

datatype 'c accept_result = Conn 'c | TimeoutError string | FatalError string

definition acceptRetryable :: "'c accept_result \<Rightarrow> bool" where
  "acceptRetryable r \<longleftrightarrow> (case r of TimeoutError _ \<Rightarrow> True | _ \<Rightarrow> False)"

definition acceptContinue :: "'c accept_result \<Rightarrow> bool" where
  "acceptContinue r \<longleftrightarrow> (case r of Conn _ \<Rightarrow> False | _ \<Rightarrow> acceptRetryable r)"

text \<open>The loop of \<^verbatim>\<open>acceptOnce\<close> over the coming results; \<open>None\<close>: still waiting when they run out.\<close>

fun acceptOnce :: "'c accept_result list \<Rightarrow> ((string + 'c) \<times> 'c accept_result list) option" where
  "acceptOnce [] = None"
| "acceptOnce (r # rs) =
     (if acceptContinue r then acceptOnce rs
      else Some (case r of Conn c \<Rightarrow> Inr c | TimeoutError e \<Rightarrow> Inl e | FatalError e \<Rightarrow> Inl e, rs))"

lemma acceptOnce_shorter: "acceptOnce rs = Some (r, rest) \<Longrightarrow> length rest < length rs"
  by (induction rs) (auto split: if_splits)

text \<open>\<^verbatim>\<open>acceptLoop\<close>: the connections handed to goroutines, and the error it returns (if it does).\<close>

function acceptLoop :: "'c accept_result list \<Rightarrow> 'c list \<times> go_error" where
  "acceptLoop rs =
     (case acceptOnce rs of
        None \<Rightarrow> ([], None)
      | Some (Inl err, _) \<Rightarrow> ([], Some err)
      | Some (Inr c, rest) \<Rightarrow> (case acceptLoop rest of (cs, e) \<Rightarrow> (c # cs, e)))"
  by pat_completeness auto
termination
  by (relation "measure length") (auto dest: acceptOnce_shorter)

declare acceptLoop.simps [simp del]

section \<open>One connection\<close>

definition peekTimeout :: int where
  "peekTimeout = 10000000000"

definition initResolver :: "bool \<Rightarrow> resolver option \<Rightarrow> resolver option" where
  "initResolver linux r = (case r of Some f \<Rightarrow> Some f | None \<Rightarrow> defaultResolver linux)"

definition initTransparent :: "bool \<Rightarrow> resolver option \<Rightarrow> resolver option" where
  "initTransparent linux r = initResolver linux r"

definition setPeekDeadline :: "go_time \<Rightarrow> tconn \<Rightarrow> bool \<times> conn_action list" where
  "setPeekDeadline now conn = (\<not> tn_deadline_err conn, [SetReadDeadline (Some (now + peekTimeout))])"

definition peekAndBuffer :: "go_time \<Rightarrow> tconn \<Rightarrow> (byte \<times> bufio) option \<times> conn_action list" where
  "peekAndBuffer now conn =
     (case setPeekDeadline now conn of (ok, acts) \<Rightarrow>
        if \<not> ok then (None, acts)
        else
          let br = \<lparr>br_size = 65536, br_data = tn_bytes conn\<rparr> in
          (case bufio_peek br 1 of
             None \<Rightarrow> (None, acts @ [PeekFirst])
           | Some firstBytes \<Rightarrow> (Some (firstBytes ! 0, br), acts @ [PeekFirst, SetReadDeadline None])))"

definition http_fallback :: "resolver \<Rightarrow> tconn \<Rightarrow> string" where
  "http_fallback res conn =
     (case res conn of Inl _ \<Rightarrow> [] | Inr orig \<Rightarrow> JoinHostPort (od_IP orig) (itoa (od_Port orig)))"

text \<open>
  \<^verbatim>\<open>serveInner\<close> on the connection: \<^verbatim>\<open>httpx.Serve\<close> without a read timeout. It returns when the
  connection has been closed, by the server or by the one who hijacked it (\<open>single_listener\<close>
  below).
\<close>

definition serveInner_actions :: "tconn \<Rightarrow> string \<Rightarrow> string \<Rightarrow> conn_action list" where
  "serveInner_actions conn scheme fallback =
     ServeInner scheme fallback # httpx_Serve http_session () (tn_session conn) 0"

definition handleHTTPTransparent :: "resolver \<Rightarrow> tconn \<Rightarrow> conn_action list" where
  "handleHTTPTransparent res conn = serveInner_actions conn ''http'' (http_fallback res conn)"

definition fallbackHost :: "resolver \<Rightarrow> tconn \<Rightarrow> string \<Rightarrow> string" where
  "fallbackHost res conn serverName =
     (if serverName \<noteq> [] then serverName
      else (case res conn of Inl _ \<Rightarrow> [] | Inr orig \<Rightarrow> od_IP orig))"

definition handleTLSTransparent :: "resolver \<Rightarrow> bufio \<Rightarrow> tconn \<Rightarrow> conn_action list go" where
  "handleTLSTransparent res br conn =
     go_bind (SNIPeeker_Peek br) (\<lambda>hello.
     Inr (case hello of
            Inl err \<Rightarrow> [PeekSNI]
          | Inr serverName \<Rightarrow>
              let host = fallbackHost res conn serverName in
              (case tn_handshake conn host of
                 Some err \<Rightarrow> [PeekSNI, Handshake host]
               | None \<Rightarrow> PeekSNI # Handshake host # serveInner_actions conn ''https'' host)))"

definition dispatchTransparent :: "resolver \<Rightarrow> byte \<Rightarrow> bufio \<Rightarrow> tconn \<Rightarrow> conn_action list go" where
  "dispatchTransparent res first br conn =
     (if first = 0x16 then handleTLSTransparent res br conn else Inr (handleHTTPTransparent res conn))"

text \<open>The deferred close runs on every way out.\<close>

definition handleTransparentConn :: "bool \<Rightarrow> resolver option \<Rightarrow> go_time \<Rightarrow> tconn \<Rightarrow> conn_action list go" where
  "handleTransparentConn linux r now conn =
     (case initTransparent linux r of
        None \<Rightarrow> Inr [CloseConn]
      | Some res \<Rightarrow>
          (case peekAndBuffer now conn of
             (None, acts) \<Rightarrow> Inr (acts @ [CloseConn])
           | (Some (first, br), acts) \<Rightarrow>
               go_bind (dispatchTransparent res first br conn) (\<lambda>rest. Inr (acts @ rest @ [CloseConn]))))"

definition runTransparent :: "bool \<Rightarrow> resolver option \<Rightarrow> tconn accept_result list \<Rightarrow> tconn list \<times> go_error" where
  "runTransparent linux r rs =
     (case initTransparent linux r of
        None \<Rightarrow> ([], Some ''transparent mode requires a platform original-destination resolver (linux)'')
      | Some _ \<Rightarrow> acceptLoop rs)"

section \<open>Certificates and requests of the inner connection\<close>

text \<open>The \<^verbatim>\<open>GetCertificate\<close> callback of \<^verbatim>\<open>tlsConfigFor\<close>.\<close>

definition tlsConfigFor ::
  "('key, 'r) crypto \<Rightarrow> 'key CA \<Rightarrow> go_time \<Rightarrow> go_time \<Rightarrow> string \<Rightarrow> client_hello \<Rightarrow> 'key cert_map \<Rightarrow> 'r
     \<Rightarrow> (string + 'key tls_cert) \<times> 'key cert_map \<times> 'r" where
  "tlsConfigFor cr ca now1 now2 fallback clientHello certs r =
     (let host = (if ch_ServerName clientHello = [] then fallback else ch_ServerName clientHello)
      in GetCertificate cr ca now1 now2 (clientHello\<lparr>ch_ServerName := host\<rparr>) certs r)"

text \<open>\<^verbatim>\<open>URL.IsAbs\<close> tests for a scheme.\<close>

definition isAbsolute :: "http_request \<Rightarrow> bool" where
  "isAbsolute r \<longleftrightarrow> rq_Method r = ''CONNECT'' \<or> u_Scheme (rq_URL r) \<noteq> []"

definition rewriteTransparentURL :: "http_request \<Rightarrow> string \<Rightarrow> string \<Rightarrow> http_request" where
  "rewriteTransparentURL r scheme fallback =
     (if isAbsolute r then r
      else
        let u1 = (rq_URL r)\<lparr>u_Scheme := scheme, u_Host := rq_Host r\<rparr>;
            u2 = (if u_Host u1 = [] then u1\<lparr>u_Host := fallback\<rparr> else u1)
        in r\<lparr>rq_URL := u2\<rparr>)"

text \<open>
  \<^verbatim>\<open>bufferedConn.Read\<close> reads from the shared \<^verbatim>\<open>bufio.Reader\<close>, which delivers at most as many bytes
  as are wanted and available.
\<close>

definition bufferedConn_Read :: "nat \<Rightarrow> nat \<Rightarrow> bufio \<Rightarrow> byte list \<times> bufio" where
  "bufferedConn_Read len_p avail br =
     (let k = min len_p avail in (take k (br_data br), br\<lparr>br_data := drop k (br_data br)\<rparr>))"

fun buffered_reads :: "(nat \<times> nat) list \<Rightarrow> bufio \<Rightarrow> byte list" where
  "buffered_reads [] br = []"
| "buffered_reads ((n, a) # rs) br = (case bufferedConn_Read n a br of (bs, br') \<Rightarrow> bs @ buffered_reads rs br')"

text \<open>
  \<^verbatim>\<open>serveInner\<close>: the requests that \<^verbatim>\<open>http.Server\<close> reads from the inner connection go to the proxy
  (a parameter, a function on its state) with their URLs rewritten.
\<close>

definition serveInner :: "('w \<Rightarrow> http_request \<Rightarrow> 'w) \<Rightarrow> string \<Rightarrow> string \<Rightarrow> http_request list \<Rightarrow> 'w \<Rightarrow> 'w" where
  "serveInner proxy_ServeHTTP scheme fallback reqs w =
     foldl (\<lambda>w r. proxy_ServeHTTP w (rewriteTransparentURL r scheme fallback)) w reqs"

section \<open>The listener of a single connection\<close>

text \<open>\<^verbatim>\<open>singleConnListener\<close> with its channel \<^verbatim>\<open>closed\<close> and its \<^verbatim>\<open>sync.Once\<close>, and the \<^verbatim>\<open>closeNotifyConn\<close>.\<close>

text \<open>
  An \<^verbatim>\<open>Accept\<close> that finds the connection served waits on the channel \<^verbatim>\<open>closed\<close>; \<open>sl_waiting\<close>
  counts the calls that do.
\<close>

record single_listener =
  sl_served :: bool
  sl_closed :: bool
  sl_once :: bool
  sl_conn_once :: bool
  sl_waiting :: nat

datatype accept_out = Accepted | ErrClosed

text \<open>A call up to its return or to the receive from \<^verbatim>\<open>closed\<close> (\<open>None\<close>).\<close>

definition sl_Accept :: "single_listener \<Rightarrow> accept_out option \<times> single_listener" where
  "sl_Accept l =
     (if \<not> sl_served l then (Some Accepted, l\<lparr>sl_served := True\<rparr>)
      else (None, l\<lparr>sl_waiting := Suc (sl_waiting l)\<rparr>))"

text \<open>The receive of a waiting call: it is not possible before the channel is closed.\<close>

definition sl_Accept_return :: "single_listener \<Rightarrow> (accept_out \<times> single_listener) option" where
  "sl_Accept_return l =
     (if sl_closed l \<and> 0 < sl_waiting l then Some (ErrClosed, l\<lparr>sl_waiting := sl_waiting l - 1\<rparr>) else None)"

definition sl_Close :: "single_listener \<Rightarrow> single_listener go" where
  "sl_Close l =
     (if sl_once l then Inr l
      else if sl_closed l then Inl CloseOfClosed
      else Inr (l\<lparr>sl_once := True, sl_closed := True\<rparr>))"

definition conn_Close :: "single_listener \<Rightarrow> single_listener go" where
  "conn_Close l = (if sl_conn_once l then Inr l else sl_Close (l\<lparr>sl_conn_once := True\<rparr>))"

definition serveInner_listener :: single_listener where
  "serveInner_listener = \<lparr>sl_served = False, sl_closed = False, sl_once = False, sl_conn_once = False, sl_waiting = 0\<rparr>"

text \<open>
  What the goroutines of \<^verbatim>\<open>http.Server\<close> and of the handler do with it, in any order, up to the first
  panic: call \<^verbatim>\<open>Accept\<close>, return from one, close the connection or the listener. \<open>sg_returned\<close>
  lists what the calls have returned.
\<close>

record serving =
  sg_listener :: single_listener
  sg_returned :: "accept_out list"
  sg_panic :: "go_panic option"

definition serveInner_start :: serving where
  "serveInner_start = \<lparr>sg_listener = serveInner_listener, sg_returned = [], sg_panic = None\<rparr>"

datatype serve_event = CallAccept | ReturnAccept | DoConnClose | DoListenerClose

fun close_result :: "serving \<Rightarrow> single_listener go \<Rightarrow> serving" where
  "close_result g (Inl p) = g\<lparr>sg_panic := Some p\<rparr>"
| "close_result g (Inr l) = g\<lparr>sg_listener := l\<rparr>"

inductive serve_step :: "serving \<Rightarrow> serve_event \<Rightarrow> serving \<Rightarrow> bool" where
  accept_conn: "sg_panic g = None \<Longrightarrow> sl_Accept (sg_listener g) = (Some x, l) \<Longrightarrow>
    serve_step g CallAccept (g\<lparr>sg_listener := l, sg_returned := sg_returned g @ [x]\<rparr>)"
| accept_wait: "sg_panic g = None \<Longrightarrow> sl_Accept (sg_listener g) = (None, l) \<Longrightarrow>
    serve_step g CallAccept (g\<lparr>sg_listener := l\<rparr>)"
| accept_return: "sg_panic g = None \<Longrightarrow> sl_Accept_return (sg_listener g) = Some (x, l) \<Longrightarrow>
    serve_step g ReturnAccept (g\<lparr>sg_listener := l, sg_returned := sg_returned g @ [x]\<rparr>)"
| conn_close: "sg_panic g = None \<Longrightarrow> serve_step g DoConnClose (close_result g (conn_Close (sg_listener g)))"
| listener_close: "sg_panic g = None \<Longrightarrow> serve_step g DoListenerClose (close_result g (sl_Close (sg_listener g)))"

inductive serve_run :: "serving \<Rightarrow> serve_event list \<Rightarrow> serving \<Rightarrow> bool" for g where
  serve_nil: "serve_run g [] g"
| serve_snoc: "serve_run g evs g' \<Longrightarrow> serve_step g' e g'' \<Longrightarrow> serve_run g (evs @ [e]) g''"

inductive_cases serve_stepE [elim]: "serve_step g e g'"

section \<open>Facts about the loop and the listener\<close>



lemma peekAndBuffer_cases:
  "(\<exists>acts. peekAndBuffer now conn = (None, acts) \<and> CloseConn \<notin> set acts \<and> (\<forall>sc h. ServeInner sc h \<notin> set acts)
      \<and> guarded (Some (now + peekTimeout)) None (acts @ [CloseConn]))
   \<or> peekAndBuffer now conn = (Some (tn_bytes conn ! 0, \<lparr>br_size = 65536, br_data = tn_bytes conn\<rparr>),
        [SetReadDeadline (Some (now + peekTimeout)), PeekFirst, SetReadDeadline None])"
  by (auto simp: peekAndBuffer_def setPeekDeadline_def bufio_peek_def Let_def)

lemma peekAndBuffer_ok:
  "\<not> tn_deadline_err conn \<Longrightarrow> tn_bytes conn \<noteq> [] \<Longrightarrow>
     peekAndBuffer now conn = (Some (tn_bytes conn ! 0, \<lparr>br_size = 65536, br_data = tn_bytes conn\<rparr>),
        [SetReadDeadline (Some (now + peekTimeout)), PeekFirst, SetReadDeadline None])"
  by (cases "tn_bytes conn") (simp_all add: peekAndBuffer_def setPeekDeadline_def bufio_peek_def Let_def)

text \<open>What was peeked is not lost: the inner connection reads the client's bytes from the first one on.\<close>

lemma buffered_reads_take: "buffered_reads rs br = take (sum_list (map (\<lambda>(n, a). min n a) rs)) (br_data br)"
  by (induction rs arbitrary: br) (auto simp: bufferedConn_Read_def Let_def take_add)

lemma peeked_bytes_kept:
  "peekAndBuffer now conn = (Some (first, br), acts) \<Longrightarrow> prefix (buffered_reads rs br) (tn_bytes conn)"
  using peekAndBuffer_cases [of now conn] by (auto simp: buffered_reads_take take_is_prefix)

definition listener_inv :: "single_listener \<Rightarrow> bool" where
  "listener_inv l \<longleftrightarrow> sl_closed l = sl_once l \<and> (sl_conn_once l \<longrightarrow> sl_closed l)"

text \<open>What is true of the listener and the calls after every run.\<close>

definition serving_inv :: "serve_event list \<Rightarrow> serving \<Rightarrow> bool" where
  "serving_inv evs g \<longleftrightarrow> sg_panic g = None \<and> listener_inv (sg_listener g)
     \<and> (sl_served (sg_listener g) \<longleftrightarrow> CallAccept \<in> set evs)
     \<and> (sl_closed (sg_listener g) \<longleftrightarrow> DoConnClose \<in> set evs \<or> DoListenerClose \<in> set evs)
     \<and> length (sg_returned g) + sl_waiting (sg_listener g) = length (filter (\<lambda>e. e = CallAccept) evs)
     \<and> (\<exists>n. sg_returned g = (if CallAccept \<in> set evs then Accepted # replicate n ErrClosed else [])
          \<and> (\<not> sl_closed (sg_listener g) \<longrightarrow> n = 0))"

lemma serving_inv_start: "serving_inv [] serveInner_start"
  by (simp add: serving_inv_def serveInner_start_def serveInner_listener_def listener_inv_def)

lemma close_ok:
  assumes "listener_inv l"
  shows "\<exists>l'. sl_Close l = Inr l' \<and> listener_inv l' \<and> sl_closed l' \<and> sl_served l' = sl_served l \<and> sl_waiting l' = sl_waiting l"
    and "\<exists>l'. conn_Close l = Inr l' \<and> listener_inv l' \<and> sl_closed l' \<and> sl_served l' = sl_served l \<and> sl_waiting l' = sl_waiting l"
  using assms by (auto simp: listener_inv_def sl_Close_def conn_Close_def)

lemma serving_inv_step:
  assumes "serving_inv evs g" "serve_step g e g'"
  shows "serving_inv (evs @ [e]) g'"
proof -
  obtain n where inv: "sg_panic g = None" "listener_inv (sg_listener g)"
    "sl_served (sg_listener g) \<longleftrightarrow> CallAccept \<in> set evs"
    "sl_closed (sg_listener g) \<longleftrightarrow> DoConnClose \<in> set evs \<or> DoListenerClose \<in> set evs"
    "length (sg_returned g) + sl_waiting (sg_listener g) = length (filter (\<lambda>e. e = CallAccept) evs)"
    "sg_returned g = (if CallAccept \<in> set evs then Accepted # replicate n ErrClosed else [])"
    "\<not> sl_closed (sg_listener g) \<longrightarrow> n = 0"
    using assms(1) unfolding serving_inv_def by blast
  from assms(2) show ?thesis
  proof cases
    case (accept_conn x l)
    then have "x = Accepted" "\<not> sl_served (sg_listener g)" "l = (sg_listener g)\<lparr>sl_served := True\<rparr>"
      by (auto simp: sl_Accept_def split: if_splits)
    moreover from this have "listener_inv l" using inv(2) by (auto simp: listener_inv_def)
    ultimately show ?thesis
      using inv accept_conn unfolding serving_inv_def by (intro conjI exI [of _ 0]) simp_all
  next
    case (accept_wait l)
    then have "sl_served (sg_listener g)" "l = (sg_listener g)\<lparr>sl_waiting := Suc (sl_waiting (sg_listener g))\<rparr>"
      by (auto simp: sl_Accept_def split: if_splits)
    moreover from this have "listener_inv l" using inv(2) by (auto simp: listener_inv_def)
    ultimately show ?thesis
      using inv accept_wait unfolding serving_inv_def by (intro conjI exI [of _ n]) simp_all
  next
    case (accept_return x l)
    then have l: "sl_closed (sg_listener g)" "0 < sl_waiting (sg_listener g)" "x = ErrClosed"
      "l = (sg_listener g)\<lparr>sl_waiting := sl_waiting (sg_listener g) - 1\<rparr>"
      by (auto simp: sl_Accept_return_def split: if_splits)
    moreover have "CallAccept \<in> set evs"
    proof (rule ccontr)
      assume "CallAccept \<notin> set evs"
      then have "filter (\<lambda>e. e = CallAccept) evs = []" by (auto simp: filter_empty_conv)
      then show False using inv(5) l(2) by simp
    qed
    moreover from l have "listener_inv l" using inv(2) by (auto simp: listener_inv_def)
    ultimately show ?thesis
      using inv accept_return unfolding serving_inv_def
      by (intro conjI exI [of _ "Suc n"]) (simp_all add: replicate_append_same)
  next
    case conn_close
    obtain l where "conn_Close (sg_listener g) = Inr l" "listener_inv l" "sl_closed l" "sl_served l = sl_served (sg_listener g)"
      "sl_waiting l = sl_waiting (sg_listener g)"
      using close_ok(2) [OF inv(2)] by blast
    then show ?thesis
      using inv conn_close unfolding serving_inv_def by (intro conjI exI [of _ n]) simp_all
  next
    case listener_close
    obtain l where "sl_Close (sg_listener g) = Inr l" "listener_inv l" "sl_closed l" "sl_served l = sl_served (sg_listener g)"
      "sl_waiting l = sl_waiting (sg_listener g)"
      using close_ok(1) [OF inv(2)] by blast
    then show ?thesis
      using inv listener_close unfolding serving_inv_def by (intro conjI exI [of _ n]) simp_all
  qed
qed

lemma serve_run_inv: "serve_run serveInner_start evs g \<Longrightarrow> serving_inv evs g"
  by (induction rule: serve_run.induct) (auto intro: serving_inv_start serving_inv_step)

text \<open>After a close all waiting calls can return, one after the other.\<close>

lemma waiting_released:
  assumes "sg_panic g = None" "sl_closed (sg_listener g)" "n \<le> sl_waiting (sg_listener g)"
  shows "\<exists>g'. serve_run g (replicate n ReturnAccept) g' \<and> sg_panic g' = None \<and> sl_closed (sg_listener g')
     \<and> sl_waiting (sg_listener g') = sl_waiting (sg_listener g) - n \<and> sg_returned g' = sg_returned g @ replicate n ErrClosed"
  using assms(3)
proof (induction n)
  case 0
  then show ?case using serve_nil assms(1,2) by (intro exI [of _ g]) simp
next
  case (Suc n)
  then obtain g' where g': "serve_run g (replicate n ReturnAccept) g'" "sg_panic g' = None" "sl_closed (sg_listener g')"
    "sl_waiting (sg_listener g') = sl_waiting (sg_listener g) - n" "sg_returned g' = sg_returned g @ replicate n ErrClosed"
    by auto
  let ?l = "(sg_listener g')\<lparr>sl_waiting := sl_waiting (sg_listener g') - 1\<rparr>"
  have "serve_step g' ReturnAccept (g'\<lparr>sg_listener := ?l, sg_returned := sg_returned g' @ [ErrClosed]\<rparr>)"
    by (rule accept_return) (use g'(2-4) Suc.prems in \<open>simp_all add: sl_Accept_return_def\<close>)
  from serve_snoc [OF g'(1) this] show ?case
    using g' Suc.prems
    by (intro exI [of _ "g'\<lparr>sg_listener := ?l, sg_returned := sg_returned g' @ [ErrClosed]\<rparr>"])
      (simp add: replicate_append_same)
qed

section \<open>Properties\<close>

definition demo_conn :: tconn where
  "demo_conn = \<lparr>tn_tcp = True, tn_file = None, tn_sockopt = Inr \<lparr>sa_Port = (1, 0xBB), sa_Addr = [10, 0, 0, 1]\<rparr>,
     tn_deadline_err = False, tn_bytes = enc_record 3 1 demo_hello, tn_handshake = (\<lambda>_. None),
     tn_session = ([(1, 2)], EndIdle 3 4)\<rparr>"



lemma tls_trace:
  fixes name :: string
  assumes "wf_hello h" "length (enc_record v1 v2 h) \<le> 65536" "length (enc_hello h) < 2 ^ 16"
    and "tn_bytes conn = enc_record v1 v2 h @ trail" "\<not> tn_deadline_err conn"
    and "tn_handshake conn (bytes_string (hp_name h)) = None"
  defines "name \<equiv> bytes_string (hp_name h)"
  shows "handleTransparentConn True None now conn = Inr ([SetReadDeadline (Some (now + peekTimeout)), PeekFirst,
           SetReadDeadline None, PeekSNI, Handshake name] @ serveInner_actions conn ''https'' name @ [CloseConn])"
proof -
  have ne: "name \<noteq> []" using assms(1) by (simp add: name_def wf_hello_def bytes_string_def)
  have first: "tn_bytes conn ! 0 = 0x16" "tn_bytes conn \<noteq> []"
    using assms(4) by (simp_all add: enc_record_def)
  have "SNIPeeker_Peek \<lparr>br_size = 65536, br_data = tn_bytes conn\<rparr> = Inr (Inr name)"
    unfolding name_def by (rule SNIPeeker_Peek_encoded [OF assms(1,3)]) (use assms(2,4) in simp_all)
  then show ?thesis
    using peekAndBuffer_ok [OF assms(5) first(2), of now] first(1) ne assms(6)
    by (simp add: handleTransparentConn_def initTransparent_def initResolver_def defaultResolver_def defaultResolver_linux_def
        dispatchTransparent_def handleTLSTransparent_def fallbackHost_def name_def Let_def)
qed

lemma serveInner_rewrites:
  assumes "list_all (\<lambda>q. u_Scheme (rq_URL q) = [] \<and> rq_Method q \<noteq> ''CONNECT'') reqs"
  shows "serveInner proxy scheme name reqs w
      = foldl proxy w (map (\<lambda>q. q\<lparr>rq_URL := (rq_URL q)\<lparr>u_Scheme := scheme,
           u_Host := (if rq_Host q = [] then name else rq_Host q)\<rparr>\<rparr>) reqs)"
  using assms unfolding serveInner_def
  by (induction reqs arbitrary: w) (simp_all add: rewriteTransparentURL_def isAbsolute_def Let_def)

text \<open>
  A redirected TLS connection is proxied for the host it names: when a client sends a
  well-formed ClientHello with a server name and its handshake succeeds, the connection is
  served as https for exactly that name, the certificate presented is the one of that name
  in the cache (generated for it on first use), and every request read from the connection
  whose URL is not absolute reaches the proxy as an https request to its Host header, or to
  that name if it has none.
\<close>

theorem transparent_tls_routes_by_name:
  fixes name :: string
  assumes "wf_hello h" "length (enc_record v1 v2 h) \<le> 65536" "length (enc_hello h) < 2 ^ 16"
    and "tn_bytes conn = enc_record v1 v2 h @ trail" "\<not> tn_deadline_err conn"
    and "tn_handshake conn (bytes_string (hp_name h)) = None"
  defines "name \<equiv> bytes_string (hp_name h)"
  shows "handleTransparentConn True None now conn = Inr ([SetReadDeadline (Some (now + peekTimeout)), PeekFirst,
           SetReadDeadline None, PeekSNI, Handshake name] @ serveInner_actions conn ''https'' name @ [CloseConn])
    \<and> tlsConfigFor cr ca n1 n2 name \<lparr>ch_ServerName = sni, ch_LocalAddr = la\<rparr> certs rnd
        = certOrGenerate cr ca n1 n2 (if sni = [] then name else sni) certs rnd
    \<and> (list_all (\<lambda>q. u_Scheme (rq_URL q) = [] \<and> rq_Method q \<noteq> ''CONNECT'') reqs \<longrightarrow>
         serveInner proxy ''https'' name reqs w
           = foldl proxy w (map (\<lambda>q. q\<lparr>rq_URL := (rq_URL q)\<lparr>u_Scheme := ''https'',
                u_Host := (if rq_Host q = [] then name else rq_Host q)\<rparr>\<rparr>) reqs))"
proof -
  have "name \<noteq> []" using assms(1) by (simp add: name_def wf_hello_def bytes_string_def)
  then have "tlsConfigFor cr ca n1 n2 name \<lparr>ch_ServerName = sni, ch_LocalAddr = la\<rparr> certs rnd
        = certOrGenerate cr ca n1 n2 (if sni = [] then name else sni) certs rnd"
    by (auto simp: tlsConfigFor_def GetCertificate_def hostForHello_def certOrGenerate_def Let_def split: option.splits)
  then show ?thesis
    using tls_trace [OF assms(1-6)] unfolding name_def by (intro conjI impI serveInner_rewrites) auto
qed

lemma demo_conn_hello:
  "bytes_string (hp_name demo_hello) = ''a.b''" "wf_hello demo_hello" "length (enc_record 3 1 demo_hello) \<le> 65536"
  "length (enc_hello demo_hello) < 2 ^ 16" "tn_bytes demo_conn = enc_record 3 1 demo_hello @ []"
  "\<not> tn_deadline_err demo_conn" "tn_handshake demo_conn (bytes_string (hp_name demo_hello)) = None"
  by (simp_all add: wf_hello_def demo_hello_def demo_conn_def bytes_string_def char_of_eq_iff
      enc_record_def enc_hello_def enc_extensions_def)

theorem transparent_tls_routes_by_name_witness:
  "handleTransparentConn True None 0 demo_conn = Inr ([SetReadDeadline (Some (0 + peekTimeout)), PeekFirst,
     SetReadDeadline None, PeekSNI, Handshake ''a.b''] @ serveInner_actions demo_conn ''https'' ''a.b'' @ [CloseConn])
   \<and> serveInner (\<lambda>w q. w @ [u_Host (rq_URL q)]) ''https'' ''a.b''
       [\<lparr>rq_Method = ''GET'', rq_URL = \<lparr>u_Scheme = [], u_Host = [], u_Path = ''/'', u_RawQuery = []\<rparr>, rq_Host = [],
         rq_Header = Map.empty, rq_Body = None\<rparr>] [] = [''a.b'']"
proof -
  let ?req = "\<lparr>rq_Method = ''GET'', rq_URL = \<lparr>u_Scheme = [], u_Host = [], u_Path = ''/'', u_RawQuery = []\<rparr>, rq_Host = [],
         rq_Header = Map.empty, rq_Body = None\<rparr>"
  from transparent_tls_routes_by_name [OF demo_conn_hello(2-7), of 0 demo_crypto demo_ca 0 0 "[]" None Map.empty 0 "[?req]" "\<lambda>w q. w @ [u_Host (rq_URL q)]" "[]"]
  show ?thesis by (simp add: demo_conn_hello(1))
qed

text \<open>
  \<^bold>\<open>C26\<close>. The listener of an inner connection can neither hang its server nor panic, whatever the
  order in which \<^verbatim>\<open>Accept\<close> is called and the connection and the listener are closed: no
  channel is closed twice; each call has returned or is waiting; the first call has returned
  the connection and no other call anything but the error of a closed listener. While
  neither the connection nor the listener is closed, the calls after the first one stay
  blocked, so that serving goes on; once one of them is closed, every call that waits can
  return, and when all have, each call that was ever made has returned.
\<close>

theorem single_listener_terminates:
  assumes "serve_run serveInner_start evs g"
  shows "sg_panic g = None
    \<and> length (sg_returned g) + sl_waiting (sg_listener g) = length (filter (\<lambda>e. e = CallAccept) evs)
    \<and> (\<exists>n. sg_returned g = (if CallAccept \<in> set evs then Accepted # replicate n ErrClosed else []))
    \<and> (if DoConnClose \<in> set evs \<or> DoListenerClose \<in> set evs
        then \<exists>g'. serve_run g (replicate (sl_waiting (sg_listener g)) ReturnAccept) g' \<and> sl_waiting (sg_listener g') = 0
          \<and> sg_returned g' = sg_returned g @ replicate (sl_waiting (sg_listener g)) ErrClosed
        else sg_returned g = (if CallAccept \<in> set evs then [Accepted] else []) \<and> (\<forall>g'. \<not> serve_step g ReturnAccept g'))"
proof -
  have i: "serving_inv evs g" using assms by (rule serve_run_inv)
  have "\<exists>g'. serve_run g (replicate (sl_waiting (sg_listener g)) ReturnAccept) g' \<and> sl_waiting (sg_listener g') = 0
      \<and> sg_returned g' = sg_returned g @ replicate (sl_waiting (sg_listener g)) ErrClosed"
    if "sl_closed (sg_listener g)"
    using waiting_released [of g "sl_waiting (sg_listener g)"] i that by (auto simp: serving_inv_def)
  moreover have "sg_returned g = (if CallAccept \<in> set evs then [Accepted] else []) \<and> (\<forall>g'. \<not> serve_step g ReturnAccept g')"
    if "\<not> sl_closed (sg_listener g)"
    using i that by (auto simp: serving_inv_def sl_Accept_return_def)
  moreover have "sl_closed (sg_listener g) \<longleftrightarrow> DoConnClose \<in> set evs \<or> DoListenerClose \<in> set evs"
    "sg_panic g = None" "length (sg_returned g) + sl_waiting (sg_listener g) = length (filter (\<lambda>e. e = CallAccept) evs)"
    "\<exists>n. sg_returned g = (if CallAccept \<in> set evs then Accepted # replicate n ErrClosed else [])"
    using i unfolding serving_inv_def by blast+
  ultimately show ?thesis by (cases "sl_closed (sg_listener g)") (simp_all only: simp_thms if_True if_False)
qed

text \<open>The server's loop calls \<^verbatim>\<open>Accept\<close> a second time before the connection is closed.\<close>

lemma demo_serving:
  "\<exists>g. serve_run serveInner_start [CallAccept, CallAccept, DoConnClose] g
    \<and> sg_returned g = [Accepted] \<and> sl_waiting (sg_listener g) = 1"
proof -
  let ?l = "serveInner_listener\<lparr>sl_served := True\<rparr>"
  let ?g1 = "serveInner_start\<lparr>sg_listener := ?l, sg_returned := [Accepted]\<rparr>"
  let ?g2 = "?g1\<lparr>sg_listener := ?l\<lparr>sl_waiting := 1\<rparr>\<rparr>"
  let ?g3 = "close_result ?g2 (conn_Close (sg_listener ?g2))"
  have "serve_run serveInner_start ([] @ [CallAccept]) ?g1"
    using accept_conn [of serveInner_start Accepted ?l] serve_nil
    by (intro serve_snoc) (auto simp: sl_Accept_def serveInner_start_def serveInner_listener_def)
  moreover have "serve_step ?g1 CallAccept ?g2"
    using accept_wait [of ?g1 "?l\<lparr>sl_waiting := 1\<rparr>"]
    by (simp add: sl_Accept_def serveInner_start_def serveInner_listener_def)
  moreover have "serve_step ?g2 DoConnClose ?g3"
    by (rule conn_close) (simp add: serveInner_start_def)
  ultimately have "serve_run serveInner_start ((([] @ [CallAccept]) @ [CallAccept]) @ [DoConnClose]) ?g3"
    by (rule serve_snoc [OF serve_snoc])
  then show ?thesis
    by (intro exI [of _ ?g3]) (simp add: conn_Close_def sl_Close_def serveInner_listener_def)
qed

theorem single_listener_terminates_witness:
  "\<exists>g g'. serve_run serveInner_start [CallAccept, CallAccept, DoConnClose] g \<and> sg_panic g = None \<and> sl_waiting (sg_listener g) = 1
    \<and> serve_run g [ReturnAccept] g' \<and> sg_returned g' = [Accepted, ErrClosed]"
proof -
  obtain g where g: "serve_run serveInner_start [CallAccept, CallAccept, DoConnClose] g"
    "sg_returned g = [Accepted]" "sl_waiting (sg_listener g) = 1"
    using demo_serving by blast
  from single_listener_terminates [OF g(1)] g(2,3) have "sg_panic g = None"
    "\<exists>g'. serve_run g [ReturnAccept] g' \<and> sg_returned g' = [Accepted, ErrClosed]" by auto
  then show ?thesis using g by blast
qed

text \<open>
  The accept loop survives timeouts and loses nothing: every connection that arrives before the
  first fatal error is handled, in order, no matter how many timeouts lie between, and that
  error is what the loop returns.
\<close>

theorem acceptLoop_handles_all:
  assumes "list_all (\<lambda>r. \<forall>e. r \<noteq> FatalError e) rs"
  shows "acceptLoop (rs @ FatalError err # trail) = (concat (map (\<lambda>r. case r of Conn c \<Rightarrow> [c] | _ \<Rightarrow> []) rs), Some err)"
  using assms
proof (induction rs)
  case Nil
  then show ?case by (subst acceptLoop.simps) (simp add: acceptContinue_def acceptRetryable_def)
next
  case (Cons r rs)
  show ?case
  proof (cases r)
    case (TimeoutError e)
    then have "acceptLoop ((r # rs) @ FatalError err # trail) = acceptLoop (rs @ FatalError err # trail)"
      by (subst (1 2) acceptLoop.simps) (simp add: acceptContinue_def acceptRetryable_def)
    then show ?thesis using Cons TimeoutError by simp
  next
    case (Conn c)
    then show ?thesis
      using Cons by (subst acceptLoop.simps) (simp add: acceptContinue_def)
  qed (use Cons.prems in simp)
qed

theorem acceptLoop_handles_all_witness:
  "acceptLoop ([Conn (1 :: nat), TimeoutError ''t'', Conn 2] @ FatalError ''closed'' # []) = ([1, 2], Some ''closed'')"
  using acceptLoop_handles_all [of "[Conn (1 :: nat), TimeoutError ''t'', Conn 2]" "''closed''" "[]"] by simp

end
