(* ===== verification/Http_Servers.thy ===== *)
theory Http_Servers
  imports Api_Handlers Transparent_Loop
begin

text \<open>
  \<^verbatim>\<open>internal/api/api.go\<close> and the \<^verbatim>\<open>Run\<close> methods of both servers: listening, the routes of the
  API and its middleware. The router \<^verbatim>\<open>chi\<close> is a parameter; what the API relies on is the locale \<open>router\<close> (a literal pattern matches
  its path and goes before a pattern with a parameter, a parameter matches one non-empty
  path segment), which an interpretation on a segment-wise matcher shows to be satisfiable.
  \<^verbatim>\<open>net.Listen\<close> and \<^verbatim>\<open>http.Server.Serve\<close> are parameters too.
\<close>

section \<open>Serving\<close>

text \<open>
  The proxy's \<^verbatim>\<open>Run\<close>: \<open>accepts\<close> are the results of \<^verbatim>\<open>Accept\<close> in transparent mode, whose loop
  returns only with an error.
\<close>

definition proxy_RunWithListener ::
  "('h http_server \<Rightarrow> 'l \<Rightarrow> go_error option) \<Rightarrow> bool \<Rightarrow> resolver option \<Rightarrow> config \<Rightarrow> 'h
     \<Rightarrow> ('l \<Rightarrow> tconn accept_result list) \<Rightarrow> 'l \<Rightarrow> go_error option" where
  "proxy_RunWithListener serve linux r cfg proxy accepts l =
     (if cf_Transparent cfg
      then (case runTransparent linux r (accepts l) of (_, Some err) \<Rightarrow> Some (Some err) | (_, None) \<Rightarrow> None)
      else httpx_Serve serve proxy l 0)"

definition proxy_Run ::
  "(string \<Rightarrow> string \<Rightarrow> string + 'l) \<Rightarrow> ('h http_server \<Rightarrow> 'l \<Rightarrow> go_error option) \<Rightarrow> bool \<Rightarrow> resolver option \<Rightarrow> config
     \<Rightarrow> 'h \<Rightarrow> ('l \<Rightarrow> tconn accept_result list) \<Rightarrow> go_error option" where
  "proxy_Run net_Listen serve linux r cfg proxy accepts =
     (case httpx_Listen net_Listen (cf_Port cfg) of
        Inl err \<Rightarrow> Some (Some err)
      | Inr ln \<Rightarrow> proxy_RunWithListener serve linux r cfg proxy accepts ln)"

definition api_RunWithListener :: "('h http_server \<Rightarrow> 'l \<Rightarrow> go_error option) \<Rightarrow> 'h \<Rightarrow> 'l \<Rightarrow> go_error option" where
  "api_RunWithListener serve router l = httpx_Serve serve router l (seconds 15)"

definition api_Run ::
  "(string \<Rightarrow> string \<Rightarrow> string + 'l) \<Rightarrow> ('h http_server \<Rightarrow> 'l \<Rightarrow> go_error option) \<Rightarrow> 'h \<Rightarrow> int \<Rightarrow> go_error option" where
  "api_Run net_Listen serve router port =
     (case httpx_Listen net_Listen port of
        Inl err \<Rightarrow> Some (Some err)
      | Inr ln \<Rightarrow> api_RunWithListener serve router ln)"

section \<open>The routes of the API\<close>

datatype endpoint = EpList | EpStream | EpGet | EpReplay | EpClear | EpStats | EpCA | EpUI

definition routes :: "(string \<times> string \<times> endpoint) list" where
  "routes =
     [(''GET'', ''/api/requests'', EpList),
      (''GET'', ''/api/requests/stream'', EpStream),
      (''GET'', ''/api/requests/{id}'', EpGet),
      (''POST'', ''/api/requests/{id}/replay'', EpReplay),
      (''DELETE'', ''/api/requests'', EpClear),
      (''GET'', ''/api/stats'', EpStats),
      (''GET'', ''/api/ca.pem'', EpCA),
      (''GET'', ''/'', EpUI),
      (''GET'', ''/ui'', EpUI),
      (''GET'', ''/index.html'', EpUI)]"

text \<open>
  The server: its handler's data, the library's routing (the endpoint and the value of the
  parameter), its answers where no route matches (404, or 405 for
  another method of a known path) and what \<^verbatim>\<open>Recoverer\<close> answers to a panic.
\<close>

record api_server =
  as_env :: api_env
  as_caPEM :: "string option"
  as_indexHTML :: string
  as_route :: "string \<Rightarrow> string \<Rightarrow> (endpoint \<times> string) option"
  as_NotFound :: "string \<Rightarrow> string \<Rightarrow> api_response"
  as_Recover :: "go_panic \<Rightarrow> api_response"

definition api_NewServer ::
  "api_env \<Rightarrow> string \<Rightarrow> ((string \<times> string \<times> endpoint) list \<Rightarrow> string \<Rightarrow> string \<Rightarrow> (endpoint \<times> string) option)
     \<Rightarrow> (string \<Rightarrow> string \<Rightarrow> api_response) \<Rightarrow> (go_panic \<Rightarrow> api_response) \<Rightarrow> string option \<Rightarrow> api_server" where
  "api_NewServer ae html chi not_found recover caPEM =
     \<lparr>as_env = ae, as_caPEM = caPEM, as_indexHTML = html, as_route = chi routes, as_NotFound = not_found,
      as_Recover = recover\<rparr>"

text \<open>A request, with what a stream sees while it is open.\<close>

record api_request =
  aq_Method :: string
  aq_Path :: string
  aq_Query :: url_values
  aq_start :: go_time
  aq_now :: go_time
  aq_flush :: bool
  aq_events :: "sse_event list"
  aq_others :: "store \<Rightarrow> store"
  aq_conn :: sse_conn

definition endpoint_serve ::
  "api_server \<Rightarrow> api_request \<Rightarrow> endpoint \<Rightarrow> string \<Rightarrow> store \<Rightarrow> (api_response + str_map \<times> sse_conn) go \<times> store" where
  "endpoint_serve s q ep i st =
     (let plain = (\<lambda>r. (go_bind r (\<lambda>x. Inr (Inl x)), st)) in
      case ep of
        EpList \<Rightarrow> plain (ListRequests (as_env s) st (aq_Query q))
      | EpGet \<Rightarrow> plain (GetRequest st i)
      | EpReplay \<Rightarrow> plain (ReplayRequest (as_env s) (aq_start q) (aq_now q) st i)
      | EpClear \<Rightarrow> (case ClearRequests st of (r, st') \<Rightarrow> (Inr (Inl r), st'))
      | EpStats \<Rightarrow> plain (Inr (GetStats st (aq_now q)))
      | EpCA \<Rightarrow> plain (Inr (GetCA (as_caPEM s)))
      | EpUI \<Rightarrow> plain (Inr (serveUI (as_indexHTML s)))
      | EpStream \<Rightarrow>
          (case StreamRequests (as_env s) (aq_flush q) (aq_Query q) (aq_events q) (aq_others q) st (aq_conn q) of
             Inl p \<Rightarrow> (Inl p, st)
           | Inr (out, st') \<Rightarrow> (Inr out, st')))"

text \<open>The middleware stack: \<^verbatim>\<open>slogMiddleware\<close> (which only logs), \<^verbatim>\<open>Recoverer\<close>, \<^verbatim>\<open>corsMiddleware\<close>, the routes.\<close>

definition api_serve ::
  "api_server \<Rightarrow> api_request \<Rightarrow> store \<Rightarrow> (api_response + str_map \<times> sse_conn) \<times> store" where
  "api_serve s q st =
     (let routed = (case as_route s (aq_Method q) (aq_Path q) of
          None \<Rightarrow> (Inr (Inl (as_NotFound s (aq_Method q) (aq_Path q))), st)
        | Some (ep, i) \<Rightarrow> endpoint_serve s q ep i st) in
      case corsMiddleware (aq_Method q) routed st of
        (Inl p, st') \<Rightarrow> (Inl (as_Recover s p), st')
      | (Inr out, st') \<Rightarrow> (out, st'))"

section \<open>What the API relies on of its router\<close>

definition path_param :: "string \<Rightarrow> bool" where
  "path_param i \<longleftrightarrow> i \<noteq> [] \<and> CHR ''/'' \<notin> set i"

locale router =
  fixes chi :: "(string \<times> string \<times> endpoint) list \<Rightarrow> string \<Rightarrow> string \<Rightarrow> (endpoint \<times> string) option"
  assumes literal: "(m, p, ep) \<in> set routes \<Longrightarrow> CHR ''{'' \<notin> set p \<Longrightarrow> chi routes m p = Some (ep, [])"
    and item: "path_param i \<Longrightarrow> i \<noteq> ''stream'' \<Longrightarrow> chi routes ''GET'' (''/api/requests/'' @ i) = Some (EpGet, i)"
    and replay_item: "path_param i \<Longrightarrow> chi routes ''POST'' (''/api/requests/'' @ i @ ''/replay'') = Some (EpReplay, i)"
begin

lemma serve_item:
  assumes "path_param i" "i \<noteq> ''stream''" "aq_Method q = ''GET''" "aq_Path q = ''/api/requests/'' @ i"
    and "GetRequest st i = Inr r"
  shows "api_serve (api_NewServer ae html chi nf rc pem) q st = (Inl (r\<lparr>ar_Header := cors_headers ++ ar_Header r\<rparr>), st)"
  using item [OF assms(1,2)] assms(3-5)
  by (simp add: api_serve_def api_NewServer_def endpoint_serve_def corsMiddleware_def Let_def)

lemma serve_clear:
  assumes "aq_Method q = ''DELETE''" "aq_Path q = ''/api/requests''"
  shows "snd (api_serve (api_NewServer ae html chi nf rc pem) q st) = snd (ClearRequests st)"
proof -
  have "chi routes ''DELETE'' ''/api/requests'' = Some (EpClear, [])"
    by (rule literal) (simp_all add: routes_def)
  then show ?thesis
    using assms by (simp add: api_serve_def api_NewServer_def endpoint_serve_def corsMiddleware_def ClearRequests_def Let_def)
qed

lemma serve_list:
  assumes "aq_Method q = ''GET''" "aq_Path q = ''/api/requests''" "ListRequests ae st (aq_Query q) = Inr r"
  shows "api_serve (api_NewServer ae html chi nf rc pem) q st = (Inl (r\<lparr>ar_Header := cors_headers ++ ar_Header r\<rparr>), st)"
proof -
  have "chi routes ''GET'' ''/api/requests'' = Some (EpList, [])"
    by (rule literal) (simp_all add: routes_def)
  then show ?thesis
    using assms by (simp add: api_serve_def api_NewServer_def endpoint_serve_def corsMiddleware_def Let_def)
qed

lemma serve_ca:
  assumes "aq_Method q = ''GET''" "aq_Path q = ''/api/ca.pem''"
  shows "api_serve (api_NewServer ae html chi nf rc pem) q st
    = (Inl ((GetCA pem)\<lparr>ar_Header := cors_headers ++ ar_Header (GetCA pem)\<rparr>), st)"
proof -
  have "chi routes ''GET'' ''/api/ca.pem'' = Some (EpCA, [])"
    by (rule literal) (simp_all add: routes_def)
  then show ?thesis
    using assms by (simp add: api_serve_def api_NewServer_def endpoint_serve_def corsMiddleware_def Let_def)
qed

end

text \<open>A matcher segment by segment: a literal pattern first, then the first pattern that fits.\<close>

fun match_segments :: "string list \<Rightarrow> string list \<Rightarrow> string option" where
  "match_segments [] [] = Some []"
| "match_segments (p # ps) (x # xs) =
     (if take 1 p = ''{'' then (if x = [] then None else map_option (\<lambda>_. x) (match_segments ps xs))
      else if p = x then match_segments ps xs else None)"
| "match_segments _ _ = None"

fun first_match :: "(string \<times> string \<times> endpoint) list \<Rightarrow> string \<Rightarrow> string \<Rightarrow> (endpoint \<times> string) option" where
  "first_match [] m path = None"
| "first_match ((m', p, ep) # rs) m path =
     (case (if m' = m then match_segments (split_byte CHR ''/'' p) (split_byte CHR ''/'' path) else None) of
        Some i \<Rightarrow> Some (ep, i) | None \<Rightarrow> first_match rs m path)"

definition segment_router :: "(string \<times> string \<times> endpoint) list \<Rightarrow> string \<Rightarrow> string \<Rightarrow> (endpoint \<times> string) option" where
  "segment_router rs m path =
     (case find (\<lambda>(m', p, ep). m' = m \<and> p = path \<and> CHR ''{'' \<notin> set p) rs of
        Some (_, _, ep) \<Rightarrow> Some (ep, []) | None \<Rightarrow> first_match rs m path)"

lemma split_item: "path_param i \<Longrightarrow> split_byte CHR ''/'' (''/api/requests/'' @ i) = [[], ''api'', ''requests'', i]"
  by (simp add: path_param_def split_byte_absent)

lemma split_replay:
  "path_param i \<Longrightarrow> split_byte CHR ''/'' (''/api/requests/'' @ i @ ''/replay'') = [[], ''api'', ''requests'', i, ''replay'']"
  using split_byte_append [of "CHR ''/''" i "''replay''"] by (simp add: path_param_def split_byte_absent)

lemma find_route:
  "(m, p, ep) \<in> set rs \<Longrightarrow> distinct (map (\<lambda>(m, p, _). (m, p)) rs) \<Longrightarrow> CHR ''{'' \<notin> set p \<Longrightarrow>
     find (\<lambda>(m', p', ep'). m' = m \<and> p' = p \<and> CHR ''{'' \<notin> set p') rs = Some (m, p, ep)"
  by (induction rs) (auto simp: image_iff)

lemma distinct_routes: "distinct (map (\<lambda>(m, p, _). (m, p)) routes)"
  by code_simp

interpretation seg: router segment_router
proof unfold_locales
  fix m p ep
  assume "(m, p, ep) \<in> set routes" "CHR ''{'' \<notin> set p"
  then show "segment_router routes m p = Some (ep, [])"
    using find_route [OF _ distinct_routes] by (simp add: segment_router_def)
next
  fix i :: string
  assume i: "path_param i" "i \<noteq> ''stream''"
  have "find (\<lambda>(m', p, ep). m' = ''GET'' \<and> p = ''/api/requests/'' @ i \<and> CHR ''{'' \<notin> set p) routes = None"
    using i by (auto simp: routes_def find_None_iff path_param_def)
  then show "segment_router routes ''GET'' (''/api/requests/'' @ i) = Some (EpGet, i)"
    using split_item [OF i(1)] i by (simp add: segment_router_def routes_def path_param_def)
next
  fix i :: string
  assume i: "path_param i"
  have "find (\<lambda>(m', p, ep). m' = ''POST'' \<and> p = ''/api/requests/'' @ i @ ''/replay'' \<and> CHR ''{'' \<notin> set p) routes = None"
    using i by (auto simp: routes_def find_None_iff path_param_def)
  then show "segment_router routes ''POST'' (''/api/requests/'' @ i @ ''/replay'') = Some (EpReplay, i)"
    using split_replay [OF i] i by (simp add: segment_router_def routes_def path_param_def)
qed

text \<open>A concrete request, used by the witnesses.\<close>

definition demo_api_request :: "string \<Rightarrow> api_request" where
  "demo_api_request path = \<lparr>aq_Method = ''GET'', aq_Path = path, aq_Query = Map.empty, aq_start = 0, aq_now = 0, aq_flush = True,
     aq_events = [], aq_others = id, aq_conn = \<lparr>cn_out = [], cn_left = None, cn_late = 0\<rparr>\<rparr>"

end
