(* ===== verification/Iptables_Rules.thy ===== *)
theory Iptables_Rules
  imports Go_Strings
begin

text \<open>
  \<^verbatim>\<open>internal/iptables\<close>: the rules that redirect outgoing web traffic to the proxy in
  transparent mode. The interface \<^verbatim>\<open>CommandRunner\<close> is a parameter, a function on the state of
  the kernel; what the manager relies on is the locale \<open>rule_runner\<close> (\<^verbatim>\<open>-C\<close> tests, \<^verbatim>\<open>-A\<close> appends,
  \<^verbatim>\<open>-D\<close> deletes the first matching rule), the documented behaviour of the \<^verbatim>\<open>iptables\<close> command. That
  it can hold is shown by an interpretation on an explicit rule table. A chain is evaluated
  on a packet first match first, so that the effect of the rules can be stated, not only
  their text.
\<close>

section \<open>Runners\<close>

datatype run_error = ExecError string | ExitError string

fun error_text :: "run_error \<Rightarrow> string" where
  "error_text (ExecError s) = s"
| "error_text (ExitError s) = s"

text \<open>\<^verbatim>\<open>Run(name, args...)\<close>: the combined output, the error if any, and the new kernel state.\<close>

type_synonym 'k runner = "string \<Rightarrow> string list \<Rightarrow> 'k \<Rightarrow> (string \<times> run_error option) \<times> 'k"

definition isExecFailure :: "run_error \<Rightarrow> bool" where
  "isExecFailure err \<longleftrightarrow> (case err of ExecError _ \<Rightarrow> True | ExitError _ \<Rightarrow> False)"

section \<open>The manager\<close>

record rule =
  rl_table :: string
  rl_chain :: string
  rl_spec :: "string list"

record manager =
  mg_proxyPort :: int
  mg_rules :: "rule list"

definition NewManager :: "int \<Rightarrow> int \<Rightarrow> manager" where
  "NewManager goperUID proxyPort =
     \<lparr> mg_proxyPort = proxyPort,
       mg_rules =
        [\<lparr> rl_table = ''nat'', rl_chain = ''OUTPUT'',
           rl_spec = [''-m'', ''owner'', ''--uid-owner'', itoa goperUID, ''-j'', ''RETURN''] \<rparr>,
         \<lparr> rl_table = ''nat'', rl_chain = ''OUTPUT'',
           rl_spec = [''-p'', ''tcp'', ''--dport'', ''80'', ''-j'', ''REDIRECT'', ''--to-port'', itoa proxyPort] \<rparr>,
         \<lparr> rl_table = ''nat'', rl_chain = ''OUTPUT'',
           rl_spec = [''-p'', ''tcp'', ''--dport'', ''443'', ''-j'', ''REDIRECT'', ''--to-port'', itoa proxyPort] \<rparr>] \<rparr>"

definition rule_args :: "string \<Rightarrow> rule \<Rightarrow> string list" where
  "rule_args opt r = [''-t'', rl_table r, opt, rl_chain r] @ rl_spec r"

definition ruleExists :: "'k runner \<Rightarrow> rule \<Rightarrow> 'k \<Rightarrow> (string + bool) \<times> 'k" where
  "ruleExists run r k =
     (let args = rule_args ''-C'' r in
      case run ''iptables'' args k of ((out, err), k') \<Rightarrow>
        (case err of
           None \<Rightarrow> (Inr True, k')
         | Some e \<Rightarrow>
             (if isExecFailure e then (Inl (''iptables '' @ join '' '' args @ '': '' @ error_text e), k')
              else (Inr False, k'))))"

definition addRule :: "'k runner \<Rightarrow> rule \<Rightarrow> 'k \<Rightarrow> string option \<times> 'k" where
  "addRule run r k =
     (let args = rule_args ''-A'' r in
      case run ''iptables'' args k of ((out, err), k') \<Rightarrow>
        (case err of
           None \<Rightarrow> (None, k')
         | Some e \<Rightarrow> (Some (''iptables '' @ join '' '' args @ '': '' @ out @ '': '' @ error_text e), k')))"

definition ensureRule :: "'k runner \<Rightarrow> rule \<Rightarrow> 'k \<Rightarrow> string option \<times> 'k" where
  "ensureRule run r k =
     (case ruleExists run r k of
        (Inl err, k') \<Rightarrow> (Some (''check rule existence: '' @ err), k')
      | (Inr True, k') \<Rightarrow> (None, k')
      | (Inr False, k') \<Rightarrow> addRule run r k')"

fun ensureRules :: "'k runner \<Rightarrow> rule list \<Rightarrow> 'k \<Rightarrow> string option \<times> 'k" where
  "ensureRules run [] k = (None, k)"
| "ensureRules run (r # rs) k =
     (case ensureRule run r k of
        (Some err, k') \<Rightarrow> (Some err, k')
      | (None, k') \<Rightarrow> ensureRules run rs k')"

definition Setup :: "'k runner \<Rightarrow> manager \<Rightarrow> 'k \<Rightarrow> string option \<times> 'k" where
  "Setup run m k = ensureRules run (mg_rules m) k"

text \<open>Deletion goes on after a failure, which is only logged.\<close>

fun deleteRules :: "'k runner \<Rightarrow> rule list \<Rightarrow> 'k \<Rightarrow> 'k" where
  "deleteRules run [] k = k"
| "deleteRules run (r # rs) k = deleteRules run rs (snd (run ''iptables'' (rule_args ''-D'' r) k))"

definition Teardown :: "'k runner \<Rightarrow> manager \<Rightarrow> 'k \<Rightarrow> string option \<times> 'k" where
  "Teardown run m k = (None, deleteRules run (mg_rules m) k)"

section \<open>What the manager relies on\<close>

type_synonym rule_table = "string \<Rightarrow> string \<Rightarrow> string list list"

definition set_chain :: "rule_table \<Rightarrow> rule \<Rightarrow> string list list \<Rightarrow> rule_table" where
  "set_chain t r xs = (\<lambda>a b. if a = rl_table r \<and> b = rl_chain r then xs else t a b)"

definition chain_of :: "rule_table \<Rightarrow> rule \<Rightarrow> string list list" where
  "chain_of t r = t (rl_table r) (rl_chain r)"

lemma set_chain_same [simp]: "set_chain t r (chain_of t r) = t"
  by (auto simp: set_chain_def chain_of_def fun_eq_iff)

definition present :: "rule_table \<Rightarrow> rule \<Rightarrow> bool" where
  "present t r \<longleftrightarrow> rl_spec r \<in> set (chain_of t r)"

text \<open>Adding the rules that are missing, in order; removing one copy of each.\<close>

fun add_missing :: "rule list \<Rightarrow> rule_table \<Rightarrow> rule_table" where
  "add_missing [] t = t"
| "add_missing (r # rs) t =
     add_missing rs (if present t r then t else set_chain t r (chain_of t r @ [rl_spec r]))"

fun remove_all :: "rule list \<Rightarrow> rule_table \<Rightarrow> rule_table" where
  "remove_all [] t = t"
| "remove_all (r # rs) t = remove_all rs (set_chain t r (remove1 (rl_spec r) (chain_of t r)))"

locale rule_runner =
  fixes run :: "'k runner" and healthy :: "'k \<Rightarrow> bool" and tab :: "'k \<Rightarrow> rule_table"
  assumes check: "healthy k \<Longrightarrow> \<exists>out err. run ''iptables'' (rule_args ''-C'' r) k = ((out, err), k)
      \<and> (err = None \<longleftrightarrow> present (tab k) r) \<and> (\<forall>e. err = Some e \<longrightarrow> \<not> isExecFailure e)"
    and add: "healthy k \<Longrightarrow> \<exists>out k'. run ''iptables'' (rule_args ''-A'' r) k = ((out, None), k')
      \<and> healthy k' \<and> tab k' = set_chain (tab k) r (chain_of (tab k) r @ [rl_spec r])"
    and del: "healthy k \<Longrightarrow> \<exists>out err k'. run ''iptables'' (rule_args ''-D'' r) k = ((out, err), k')
      \<and> healthy k' \<and> tab k' = set_chain (tab k) r (remove1 (rl_spec r) (chain_of (tab k) r))"
begin

lemma ensureRule_ok:
  assumes "healthy k"
  shows "\<exists>k'. ensureRule run r k = (None, k') \<and> healthy k'
    \<and> tab k' = (if present (tab k) r then tab k else set_chain (tab k) r (chain_of (tab k) r @ [rl_spec r]))"
proof -
  obtain out err where c: "run ''iptables'' (rule_args ''-C'' r) k = ((out, err), k)"
      "err = None \<longleftrightarrow> present (tab k) r" "\<forall>e. err = Some e \<longrightarrow> \<not> isExecFailure e"
    using check [OF assms] by blast
  show ?thesis
  proof (cases err)
    case None
    then show ?thesis using c assms by (simp add: ensureRule_def ruleExists_def)
  next
    case (Some e)
    obtain o2 k' where "run ''iptables'' (rule_args ''-A'' r) k = ((o2, None), k')" "healthy k'"
        "tab k' = set_chain (tab k) r (chain_of (tab k) r @ [rl_spec r])"
      using add [OF assms] by blast
    then show ?thesis using Some c by (simp add: ensureRule_def ruleExists_def addRule_def)
  qed
qed

lemma ensureRules_ok:
  "healthy k \<Longrightarrow> \<exists>k'. ensureRules run rs k = (None, k') \<and> healthy k' \<and> tab k' = add_missing rs (tab k)"
proof (induction rs arbitrary: k)
  case (Cons r rs)
  obtain k1 where "ensureRule run r k = (None, k1)" "healthy k1"
    "tab k1 = (if present (tab k) r then tab k else set_chain (tab k) r (chain_of (tab k) r @ [rl_spec r]))"
    using ensureRule_ok [OF Cons.prems] by blast
  with Cons.IH [of k1] show ?case by auto
qed simp

lemma deleteRules_ok:
  "healthy k \<Longrightarrow> healthy (deleteRules run rs k) \<and> tab (deleteRules run rs k) = remove_all rs (tab k)"
proof (induction rs arbitrary: k)
  case (Cons r rs)
  obtain out err k1 where "run ''iptables'' (rule_args ''-D'' r) k = ((out, err), k1)" "healthy k1"
    "tab k1 = set_chain (tab k) r (remove1 (rl_spec r) (chain_of (tab k) r))"
    using del [OF Cons.prems] by blast
  with Cons.IH [of k1] show ?case by simp
qed simp

end

section \<open>The iptables command\<close>

text \<open>
  The kernel: its rule table, the reason why the binary cannot be run (if so), and the
  specifications that an append refuses.
\<close>

record kernel =
  kn_rules :: rule_table
  kn_exec :: "string option"
  kn_refuse :: "string list \<Rightarrow> string option"

definition kernel_run :: "kernel runner" where
  "kernel_run name args k =
     (case (kn_exec k, args) of
        (Some e, _) \<Rightarrow> (([], Some (ExecError e)), k)
      | (None, t # tbl # opt # ch # spec) \<Rightarrow>
          let rs = kn_rules k tbl ch;
              upd = (\<lambda>xs. k\<lparr>kn_rules := (\<lambda>a b. if a = tbl \<and> b = ch then xs else kn_rules k a b)\<rparr>) in
          if name \<noteq> ''iptables'' \<or> t \<noteq> ''-t'' then (([], Some (ExitError ''exit status 2'')), k)
          else if opt = ''-C''
          then (if spec \<in> set rs then (([], None), k) else (([], Some (ExitError ''exit status 1'')), k))
          else if opt = ''-A''
          then (case kn_refuse k spec of Some e \<Rightarrow> ((e, Some (ExitError ''exit status 1'')), k)
                | None \<Rightarrow> (([], None), upd (rs @ [spec])))
          else if opt = ''-D''
          then (if spec \<in> set rs then (([], None), upd (remove1 spec rs))
                else ((''Bad rule'', Some (ExitError ''exit status 1'')), k))
          else (([], Some (ExitError ''exit status 2'')), k)
      | (None, _) \<Rightarrow> (([], Some (ExitError ''exit status 2'')), k))"

definition kernel_healthy :: "kernel \<Rightarrow> bool" where
  "kernel_healthy k \<longleftrightarrow> kn_exec k = None \<and> kn_refuse k = (\<lambda>_. None)"

lemma kernel_run_rule:
  assumes "kn_exec k = None"
  shows "kernel_run ''iptables'' (rule_args ''-C'' r) k =
      (([], if present (kn_rules k) r then None else Some (ExitError ''exit status 1'')), k)"
    and "kernel_run ''iptables'' (rule_args ''-A'' r) k =
      (case kn_refuse k (rl_spec r) of Some e \<Rightarrow> ((e, Some (ExitError ''exit status 1'')), k)
       | None \<Rightarrow> (([], None), k\<lparr>kn_rules := set_chain (kn_rules k) r (chain_of (kn_rules k) r @ [rl_spec r])\<rparr>))"
    and "kernel_run ''iptables'' (rule_args ''-D'' r) k =
      (if present (kn_rules k) r
       then (([], None), k\<lparr>kn_rules := set_chain (kn_rules k) r (remove1 (rl_spec r) (chain_of (kn_rules k) r))\<rparr>)
       else ((''Bad rule'', Some (ExitError ''exit status 1'')), k))"
  using assms by (simp_all add: kernel_run_def rule_args_def present_def chain_of_def set_chain_def Let_def
      split: option.splits)

interpretation kern: rule_runner kernel_run kernel_healthy kn_rules
proof unfold_locales
  fix k r
  assume "kernel_healthy k"
  then have e: "kn_exec k = None" and f: "kn_refuse k = (\<lambda>_. None)" by (simp_all add: kernel_healthy_def)
  show "\<exists>out err. kernel_run ''iptables'' (rule_args ''-C'' r) k = ((out, err), k)
      \<and> (err = None \<longleftrightarrow> present (kn_rules k) r) \<and> (\<forall>e. err = Some e \<longrightarrow> \<not> isExecFailure e)"
    by (simp add: kernel_run_rule [OF e] isExecFailure_def)
  show "\<exists>out k'. kernel_run ''iptables'' (rule_args ''-A'' r) k = ((out, None), k') \<and> kernel_healthy k'
      \<and> kn_rules k' = set_chain (kn_rules k) r (chain_of (kn_rules k) r @ [rl_spec r])"
    by (simp add: kernel_run_rule [OF e] e f kernel_healthy_def)
  have "remove1 (rl_spec r) (chain_of (kn_rules k) r) = chain_of (kn_rules k) r" if "\<not> present (kn_rules k) r"
    using that by (simp add: present_def remove1_idem)
  then show "\<exists>out err k'. kernel_run ''iptables'' (rule_args ''-D'' r) k = ((out, err), k') \<and> kernel_healthy k'
      \<and> kn_rules k' = set_chain (kn_rules k) r (remove1 (rl_spec r) (chain_of (kn_rules k) r))"
    using e f by (simp add: kernel_run_rule [OF e] kernel_healthy_def)
qed

section \<open>What a chain does to a packet\<close>

record packet =
  pk_uid :: int
  pk_proto :: string
  pk_dport :: int

datatype verdict = Return | Redirect string

text \<open>The verdict of one rule, for the matches and targets that the manager's rules use.\<close>

fun spec_verdict :: "string list \<Rightarrow> packet \<Rightarrow> verdict option" where
  "spec_verdict (a # b # rest) p =
     (if a = ''-m'' \<and> b = ''owner'' then spec_verdict rest p
      else if a = ''--uid-owner'' then (if b = itoa (pk_uid p) then spec_verdict rest p else None)
      else if a = ''-p'' then (if b = pk_proto p then spec_verdict rest p else None)
      else if a = ''--dport'' then (if b = itoa (pk_dport p) then spec_verdict rest p else None)
      else if a = ''-j'' \<and> b = ''RETURN'' then Some Return
      else if a = ''-j'' \<and> b = ''REDIRECT''
      then (case rest of [c, d] \<Rightarrow> if c = ''--to-port'' then Some (Redirect d) else None | _ \<Rightarrow> None)
      else None)"
| "spec_verdict _ p = None"

fun chain_verdict :: "string list list \<Rightarrow> packet \<Rightarrow> verdict option" where
  "chain_verdict [] p = None"
| "chain_verdict (r # rs) p = (case spec_verdict r p of Some v \<Rightarrow> Some v | None \<Rightarrow> chain_verdict rs p)"

lemma chain_verdict_append:
  "chain_verdict (xs @ ys) p = (case chain_verdict xs p of Some v \<Rightarrow> Some v | None \<Rightarrow> chain_verdict ys p)"
  by (induction xs) (auto split: option.splits)

section \<open>The manager's rules\<close>

abbreviation out_chain :: "rule_table \<Rightarrow> string list list" where
  "out_chain t \<equiv> t ''nat'' ''OUTPUT''"

definition goper_specs :: "int \<Rightarrow> int \<Rightarrow> string list list" where
  "goper_specs uid port = map rl_spec (mg_rules (NewManager uid port))"

definition with_out :: "rule_table \<Rightarrow> string list list \<Rightarrow> rule_table" where
  "with_out t xs = (\<lambda>a b. if a = ''nat'' \<and> b = ''OUTPUT'' then xs else t a b)"

lemma with_out_simps [simp]:
  "out_chain (with_out t xs) = xs" "with_out (with_out t xs) ys = with_out t ys"
  "with_out t (out_chain t) = t"
  by (auto simp: with_out_def fun_eq_iff)

definition in_out :: "rule \<Rightarrow> bool" where
  "in_out r \<longleftrightarrow> rl_table r = ''nat'' \<and> rl_chain r = ''OUTPUT''"

lemma in_out_chain: "in_out r \<Longrightarrow> set_chain t r xs = with_out t xs \<and> chain_of t r = out_chain t"
  by (simp add: in_out_def set_chain_def with_out_def chain_of_def)

lemma goper_rules_in_out: "list_all in_out (mg_rules (NewManager uid port))"
  by (simp add: NewManager_def in_out_def)

lemma distinct_goper_specs: "distinct (goper_specs uid port)"
  by (simp add: goper_specs_def NewManager_def)

lemma add_missing_out:
  assumes "list_all in_out rs" "distinct (map rl_spec rs)"
  shows "add_missing rs t = with_out t (out_chain t @ filter (\<lambda>s. s \<notin> set (out_chain t)) (map rl_spec rs))"
  using assms
proof (induction rs arbitrary: t)
  case (Cons r rs)
  have f: "filter (\<lambda>s. s \<noteq> rl_spec r \<and> s \<notin> set (out_chain t)) (map rl_spec rs)
      = filter (\<lambda>s. s \<notin> set (out_chain t)) (map rl_spec rs)"
    using Cons.prems(2) by (intro filter_cong) (auto simp: image_iff)
  show ?case
    using Cons.prems Cons.IH [of t] Cons.IH [of "with_out t (out_chain t @ [rl_spec r])"] f
    by (auto simp: present_def in_out_chain)
qed simp

lemma remove_all_out:
  assumes "list_all in_out rs" "\<forall>r \<in> set rs. rl_spec r \<notin> set xs"
  shows "remove_all rs (with_out t (xs @ map rl_spec rs)) = with_out t xs"
  using assms
proof (induction rs arbitrary: t)
  case (Cons r rs)
  then show ?case by (simp add: in_out_chain remove1_append)
qed simp

context rule_runner
begin

lemma Setup_ok:
  assumes "healthy k"
  shows "\<exists>k'. Setup run (NewManager uid port) k = (None, k') \<and> healthy k'
    \<and> tab k' = with_out (tab k) (out_chain (tab k) @ filter (\<lambda>s. s \<notin> set (out_chain (tab k))) (goper_specs uid port))"
  using ensureRules_ok [OF assms, of "mg_rules (NewManager uid port)"]
    add_missing_out [OF goper_rules_in_out] distinct_goper_specs
  by (auto simp: Setup_def goper_specs_def)

lemma Setup_fresh:
  assumes "healthy k" "set (goper_specs uid port) \<inter> set (out_chain (tab k)) = {}"
  shows "\<exists>k'. Setup run (NewManager uid port) k = (None, k') \<and> healthy k'
    \<and> tab k' = with_out (tab k) (out_chain (tab k) @ goper_specs uid port)"
proof -
  have "filter (\<lambda>s. s \<notin> set (out_chain (tab k))) (goper_specs uid port) = goper_specs uid port"
    using assms(2) by (auto simp: filter_id_conv)
  then show ?thesis using Setup_ok [OF assms(1), of uid port] by simp
qed

lemma Teardown_undoes:
  assumes "healthy k" "tab k = with_out t (out_chain t @ goper_specs uid port)"
    and "set (goper_specs uid port) \<inter> set (out_chain t) = {}"
  shows "\<exists>k'. Teardown run (NewManager uid port) k = (None, k') \<and> healthy k' \<and> tab k' = t"
  using deleteRules_ok [OF assms(1), of "mg_rules (NewManager uid port)"] assms(2,3)
    remove_all_out [OF goper_rules_in_out, of uid port "out_chain t" t]
  by (auto simp: Teardown_def goper_specs_def)

end

lemma itoa_eq_port: "0 \<le> d \<Longrightarrow> ''80'' = itoa d \<longleftrightarrow> d = 80" "0 \<le> d \<Longrightarrow> ''443'' = itoa d \<longleftrightarrow> d = 443"
proof -
  have n: "nat_dec 80 = ''80''" "nat_dec 443 = ''443''"
    by (simp_all add: nat_dec.simps digit_def char_of_eq_iff)
  show "''80'' = itoa d \<longleftrightarrow> d = 80" if "0 \<le> d"
    using nat_dec_inj [of 80 "nat d"] n that by (auto simp: itoa_nonneg)
  show "''443'' = itoa d \<longleftrightarrow> d = 443" if "0 \<le> d"
    using nat_dec_inj [of 443 "nat d"] n that by (auto simp: itoa_nonneg)
qed

lemma itoa_eq_iff: "0 \<le> a \<Longrightarrow> 0 \<le> b \<Longrightarrow> itoa a = itoa b \<longleftrightarrow> a = b"
  by (simp add: itoa_nonneg nat_dec_inj nat_eq_iff)

text \<open>The three rules, on a packet.\<close>

lemma goper_verdict:
  assumes "0 \<le> uid" "0 \<le> pk_uid p" "0 \<le> pk_dport p"
  shows "chain_verdict (goper_specs uid port) p =
    (if pk_uid p = uid then Some Return
     else if pk_proto p = ''tcp'' \<and> (pk_dport p = 80 \<or> pk_dport p = 443) then Some (Redirect (itoa port))
     else None)"
  using assms by (auto simp: goper_specs_def NewManager_def itoa_eq_port itoa_eq_iff)

definition demo_kernel :: kernel where
  "demo_kernel = \<lparr> kn_rules = (\<lambda>_ _. []), kn_exec = None, kn_refuse = (\<lambda>_. None) \<rparr>"

section \<open>Properties\<close>

text \<open>
  \<^bold>\<open>C31\<close>. Transparent mode redirects web traffic and never the proxy's own: after \<^verbatim>\<open>Setup\<close> on a
  chain that holds none of the manager's rules, a packet on which the earlier rules do not
  decide is redirected to the proxy port exactly if it is TCP to port 80 or 443 and was not
  sent by the proxy's own user; the proxy's own packets leave the chain undisturbed, so
  proxied requests cannot loop back into the proxy.
\<close>

theorem Setup_redirects_without_loop:
  assumes "rule_runner run healthy tab" "healthy k" "set (goper_specs uid port) \<inter> set (out_chain (tab k)) = {}"
    and "0 \<le> uid" "0 \<le> pk_uid p" "0 \<le> pk_dport p" "chain_verdict (out_chain (tab k)) p = None"
  shows "\<exists>k'. Setup run (NewManager uid port) k = (None, k') \<and>
    chain_verdict (out_chain (tab k')) p =
      (if pk_uid p = uid then Some Return
       else if pk_proto p = ''tcp'' \<and> (pk_dport p = 80 \<or> pk_dport p = 443) then Some (Redirect (itoa port))
       else None)"
  using rule_runner.Setup_fresh [OF assms(1), OF assms(2,3)] goper_verdict [OF assms(4-6), of port] assms(7)
  by (auto simp: chain_verdict_append)

theorem Setup_redirects_without_loop_witness:
  "\<exists>k'. Setup kernel_run (NewManager 0 8080) demo_kernel = (None, k') \<and>
    chain_verdict (out_chain (kn_rules k')) \<lparr>pk_uid = 1000, pk_proto = ''tcp'', pk_dport = 443\<rparr> = Some (Redirect (itoa 8080))"
  using Setup_redirects_without_loop
      [OF kern.rule_runner_axioms, of demo_kernel 0 8080 "\<lparr>pk_uid = 1000, pk_proto = ''tcp'', pk_dport = 443\<rparr>"]
  by (simp add: demo_kernel_def kernel_healthy_def)

text \<open>
  \<^verbatim>\<open>Setup\<close> is idempotent and \<^verbatim>\<open>Teardown\<close> undoes it: a second \<^verbatim>\<open>Setup\<close> changes nothing, and
  after \<^verbatim>\<open>Setup\<close> on a chain that held none of the manager's rules, \<^verbatim>\<open>Teardown\<close> restores every
  chain of every table exactly.
\<close>

theorem Setup_Teardown_roundtrip:
  assumes "rule_runner run healthy tab" "healthy k" "set (goper_specs uid port) \<inter> set (out_chain (tab k)) = {}"
  shows "\<exists>k' k2 k3. Setup run (NewManager uid port) k = (None, k')
    \<and> Setup run (NewManager uid port) k' = (None, k2) \<and> tab k2 = tab k'
    \<and> Teardown run (NewManager uid port) k2 = (None, k3) \<and> tab k3 = tab k"
proof -
  let ?g = "goper_specs uid port"
  obtain k1 where k1: "Setup run (NewManager uid port) k = (None, k1)" "healthy k1" "tab k1 = with_out (tab k) (out_chain (tab k) @ ?g)"
    using rule_runner.Setup_fresh [OF assms(1), OF assms(2,3)] by blast
  have "filter (\<lambda>s. s \<notin> set (out_chain (tab k1))) ?g = []"
    using k1(3) by (auto simp: filter_empty_conv)
  then obtain k2 where k2: "Setup run (NewManager uid port) k1 = (None, k2)" "healthy k2" "tab k2 = tab k1"
    using rule_runner.Setup_ok [OF assms(1), OF k1(2), of uid port] by auto
  obtain k3 where k3: "Teardown run (NewManager uid port) k2 = (None, k3)" "tab k3 = tab k"
    using rule_runner.Teardown_undoes [OF assms(1), OF k2(2), of "tab k" uid port] assms(3) k2(3) k1(3) by auto
  with k1(1) k2(1,3) show ?thesis by blast
qed

theorem Setup_Teardown_roundtrip_witness:
  "\<exists>k' k2 k3. Setup kernel_run (NewManager 0 8080) demo_kernel = (None, k')
    \<and> Setup kernel_run (NewManager 0 8080) k' = (None, k2) \<and> kn_rules k2 = kn_rules k'
    \<and> Teardown kernel_run (NewManager 0 8080) k2 = (None, k3) \<and> kn_rules k3 = kn_rules demo_kernel"
  by (rule Setup_Teardown_roundtrip [OF kern.rule_runner_axioms]) (simp_all add: demo_kernel_def kernel_healthy_def)

text \<open>
  The order of the rules is only guaranteed on a clean chain: if a redirection of port 80 to
  the proxy is already present (left by a run under another user, or by a failed removal)
  while the exemption of the proxy's user is not, \<^verbatim>\<open>Setup\<close> reports success but appends the
  exemption behind the redirection, and the proxy's own requests to port 80 are sent back
  to the proxy.
\<close>

theorem Setup_stale_redirect_loops:
  assumes "rule_runner run healthy tab" "healthy k" "0 \<le> uid" "pk_uid p = uid" "pk_proto p = ''tcp''" "pk_dport p = 80"
    and "out_chain (tab k) = [goper_specs uid port ! 1]"
  shows "\<exists>k'. Setup run (NewManager uid port) k = (None, k') \<and>
    chain_verdict (out_chain (tab k')) p = Some (Redirect (itoa port))"
proof -
  have "spec_verdict (goper_specs uid port ! 1) p = Some (Redirect (itoa port))"
    using assms(5,6) itoa_eq_port(1) [of 80] by (simp add: goper_specs_def NewManager_def)
  then show ?thesis
    using rule_runner.Setup_ok [OF assms(1), OF assms(2), of uid port] assms(7) by auto
qed

theorem Setup_stale_redirect_loops_witness:
  "\<exists>k'. Setup kernel_run (NewManager 0 8080)
        (demo_kernel\<lparr>kn_rules := with_out (\<lambda>_ _. []) [goper_specs 0 8080 ! 1]\<rparr>) = (None, k') \<and>
    chain_verdict (out_chain (kn_rules k')) \<lparr>pk_uid = 0, pk_proto = ''tcp'', pk_dport = 80\<rparr> = Some (Redirect (itoa 8080))"
  by (rule Setup_stale_redirect_loops [OF kern.rule_runner_axioms]) (simp_all add: demo_kernel_def kernel_healthy_def)

text \<open>
  A missing \<^verbatim>\<open>iptables\<close> binary is not mistaken for a missing rule: if the command cannot be
  executed, \<^verbatim>\<open>Setup\<close> fails with the wrapped error after the first check and changes nothing.
\<close>

theorem Setup_exec_failure:
  assumes "run ''iptables'' (rule_args ''-C'' (hd (mg_rules (NewManager uid port)))) k = ((out, Some (ExecError e)), k')"
  shows "Setup run (NewManager uid port) k =
    (Some (''check rule existence: iptables '' @ join '' '' (rule_args ''-C'' (hd (mg_rules (NewManager uid port))))
       @ '': '' @ e), k')"
  using assms by (simp add: Setup_def NewManager_def ensureRule_def ruleExists_def isExecFailure_def)

theorem Setup_exec_failure_witness:
  "Setup kernel_run (NewManager 0 8080) (demo_kernel\<lparr>kn_exec := Some ''executable file not found''\<rparr>) =
    (Some (''check rule existence: iptables '' @ join '' '' (rule_args ''-C'' (hd (mg_rules (NewManager 0 8080))))
       @ '': '' @ ''executable file not found''), demo_kernel\<lparr>kn_exec := Some ''executable file not found''\<rparr>)"
  by (rule Setup_exec_failure) (simp add: kernel_run_def)

end
