(* ===== verification/Goper_Main.thy ===== *)
theory Goper_Main
  imports Http_Servers Iptables_Rules
begin

text \<open>
  \<^verbatim>\<open>cmd/goper/main.go\<close>, the life of the process around the servers: it creates the proxy
  server, attaches the output, installs the redirection rules, reads the CA certificate,
  serves until a signal arrives or a server fails, and removes the rules. The state is the
  file system, the kernel's rule table and the source of randomness. What the servers
  report back to \<^verbatim>\<open>run\<close> while they serve is a list of events; what they do with a request is
  the subject of the other theories. The parsing of the command line is in \<open>Goper_Config\<close>.
\<close>

text \<open>\<^verbatim>\<open>slog\<close>'s default handler: its format and level.\<close>

datatype log_handler = JSONHandler int | TextHandler int

record ('k, 'r) machine =
  mc_log :: "log_handler option"
  mc_os :: os_state
  mc_kernel :: 'k
  mc_rand :: 'r

text \<open>The process's identity (\<^verbatim>\<open>os.Geteuid\<close>, \<^verbatim>\<open>os.Getuid\<close>), the libraries and the clock.\<close>

record ('k, 'key, 'r) process_env =
  pe_euid :: int
  pe_uid :: int
  pe_std :: std_env
  pe_cli :: cli_env
  pe_crypto :: "('key, 'r) crypto"
  pe_now :: "nat \<Rightarrow> go_time"
  pe_runner :: "'k runner"

definition setupLogging :: "config \<Rightarrow> log_handler" where
  "setupLogging cfg =
     (if cf_LogFormat cfg = ''json'' then JSONHandler (cf_LogLevel cfg) else TextHandler (cf_LogLevel cfg))"

section \<open>Transparent mode\<close>

definition checkTransparentPrivileges :: "int \<Rightarrow> go_error" where
  "checkTransparentPrivileges euid =
     (if euid \<noteq> 0
      then Some (''transparent mode requires running as root with CAP_NET_ADMIN'' @ [CHR 0x0A]
        @ ''hint: rebuild with `docker compose up --build` (cap_add: NET_ADMIN) or run goper as root'')
      else None)"

definition installRules :: "'k runner \<Rightarrow> int \<Rightarrow> manager \<Rightarrow> 'k \<Rightarrow> go_error \<times> 'k" where
  "installRules rn euid iptMgr k =
     (case checkTransparentPrivileges euid of
        Some err \<Rightarrow> (Some err, k)
      | None \<Rightarrow> Setup rn iptMgr k)"

definition setupTransparentIfEnabled :: "'k runner \<Rightarrow> int \<Rightarrow> config \<Rightarrow> manager \<Rightarrow> 'k \<Rightarrow> int \<times> 'k" where
  "setupTransparentIfEnabled rn euid cfg iptMgr k =
     (if \<not> cf_Transparent cfg then (0, k)
      else (case installRules rn euid iptMgr k of
              (Some err, k') \<Rightarrow> (1, k')
            | (None, k') \<Rightarrow> (0, k')))"

text \<open>The error of \<^verbatim>\<open>Teardown\<close> is only logged.\<close>

definition teardownTransparent :: "'k runner \<Rightarrow> manager \<Rightarrow> 'k \<Rightarrow> 'k" where
  "teardownTransparent rn iptMgr k = snd (Teardown rn iptMgr k)"

definition shutdownTransparent :: "'k runner \<Rightarrow> config \<Rightarrow> manager \<Rightarrow> 'k \<Rightarrow> 'k" where
  "shutdownTransparent rn cfg iptMgr k = (if \<not> cf_Transparent cfg then k else teardownTransparent rn iptMgr k)"

section \<open>Outputs and the CA certificate\<close>

definition wireOutputs :: "std_env \<Rightarrow> os_state server \<Rightarrow> config \<Rightarrow> os_state server" where
  "wireOutputs env s cfg =
     (if cf_OutputFormat cfg = ''ndjson''
      then AddOutput s (NewNDJSONBodyWriter env (cf_OutputDir cfg))
      else AddOutput s (NewJSONBodyWriter env (cf_OutputDir cfg)))"

definition setupOutputs :: "std_env \<Rightarrow> os_state server \<Rightarrow> config \<Rightarrow> os_state server" where
  "setupOutputs env s cfg =
     (if cf_NoCapture cfg then s
      else if cf_OutputDir cfg \<noteq> [] then wireOutputs env s cfg else s)"

definition readCAPEM :: "config \<Rightarrow> os_state \<Rightarrow> string option" where
  "readCAPEM cfg st =
     (case os_ReadFile (path_Join [cf_CADir cfg, ''ca-cert.pem'']) st of
        Inr data \<Rightarrow> Some data
      | Inl _ \<Rightarrow> None)"

section \<open>The life of the process\<close>

text \<open>The result of a server's \<^verbatim>\<open>Run\<close>, or a signal.\<close>

datatype main_event = ServerReturned go_error | SignalReceived

text \<open>\<^verbatim>\<open>runServer\<close> exits the process with code 1 if its server returned an error.\<close>

definition runServer :: "go_error \<Rightarrow> int option" where
  "runServer err = (case err of Some _ \<Rightarrow> Some 1 | None \<Rightarrow> None)"

datatype serving_end = StillServing | ProcessExit int | Shutdown

fun await :: "main_event list \<Rightarrow> serving_end" where
  "await [] = StillServing"
| "await (SignalReceived # evs) = Shutdown"
| "await (ServerReturned err # evs) = (case runServer err of Some code \<Rightarrow> ProcessExit code | None \<Rightarrow> await evs)"

datatype run_result = Exited int
  | Serving "os_state server" store "string option"

definition run ::
  "('k, 'key, 'r) process_env \<Rightarrow> config \<Rightarrow> main_event list \<Rightarrow> ('k, 'r) machine \<Rightarrow> (run_result \<times> ('k, 'r) machine) go" where
  "run pe cfg events mc =
     go_bind (LoadOrCreateCA (pe_crypto pe) (pe_now pe 0) (pe_now pe 1) (cf_CADir cfg) (mc_rand mc) (mc_os mc))
     (\<lambda>(loaded, r', os').
     let mc1 = mc\<lparr>mc_log := Some (setupLogging cfg), mc_rand := r', mc_os := os'\<rparr> in
     go_bind (NewServer (pe_cli pe) loaded (pe_now pe 2) cfg) (\<lambda>created.
     case created of
       Inl err \<Rightarrow> Inr (Exited 1, mc1)
     | Inr (s, st, ca) \<Rightarrow>
         let proxyServer = setupOutputs (pe_std pe) s cfg;
             iptMgr = NewManager (pe_uid pe) (cf_Port cfg) in
         (case setupTransparentIfEnabled (pe_runner pe) (pe_euid pe) cfg iptMgr (mc_kernel mc1) of (code, k) \<Rightarrow>
            let mc2 = mc1\<lparr>mc_kernel := k\<rparr> in
            if code \<noteq> 0 then Inr (Exited code, mc2)
            else
              let caPEM = readCAPEM cfg (mc_os mc2) in
              (case await events of
                 StillServing \<Rightarrow> Inr (Serving proxyServer st caPEM, mc2)
               | ProcessExit c \<Rightarrow> Inr (Exited c, mc2)
               | Shutdown \<Rightarrow> Inr (Exited 0, mc2\<lparr>mc_kernel := shutdownTransparent (pe_runner pe) cfg iptMgr k\<rparr>)))))"

section \<open>The main function\<close>

definition main :: "('k, 'key, 'r) process_env \<Rightarrow> string list \<Rightarrow> main_event list \<Rightarrow> ('k, 'r) machine \<Rightarrow> (run_result \<times> ('k, 'r) machine) go" where
  "main pe args events mc =
     (case parseConfig (pe_cli pe) args of
        Inl err \<Rightarrow> Inr (Exited 2, mc)
      | Inr cfg \<Rightarrow> run pe cfg events mc)"

section \<open>Facts about the life of the process\<close>

lemma await_quiet: "await (replicate n (ServerReturned None) @ evs) = await evs"
  by (induction n) (simp_all add: runServer_def)

lemma setupOutputs_outputs:
  "sv_outputs (setupOutputs env s cfg) = sv_outputs s @
     (if cf_NoCapture cfg \<or> cf_OutputDir cfg = [] then []
      else [(if cf_OutputFormat cfg = ''ndjson'' then NDJSONBodyWriter_WriteEntry else JSONBodyWriter_WriteEntry)
              env OSFileSystem (cf_OutputDir cfg)])"
  by (simp add: setupOutputs_def wireOutputs_def AddOutput_def new_writer_defs)

text \<open>The process of an accepted command line whose CA could be loaded, up to the rules.\<close>

lemma main_started:
  assumes "parseConfig (pe_cli pe) args = Inr cfg" "cf_BufferSize cfg \<le> 2 ^ 45"
    and "LoadOrCreateCA (pe_crypto pe) (pe_now pe 0) (pe_now pe 1) (cf_CADir cfg) (mc_rand mc) (mc_os mc) = Inr (Inr ca, r', os')"
  obtains s st where "sv_outputs s = []" "store_ok st"
    "\<And>events. main pe args events mc =
      (case setupTransparentIfEnabled (pe_runner pe) (pe_euid pe) cfg (NewManager (pe_uid pe) (cf_Port cfg)) (mc_kernel mc) of (code, k) \<Rightarrow>
         let mc2 = mc\<lparr>mc_log := Some (setupLogging cfg), mc_rand := r', mc_os := os', mc_kernel := k\<rparr> in
         if code \<noteq> 0 then Inr (Exited code, mc2)
         else (case await events of
             StillServing \<Rightarrow> Inr (Serving (setupOutputs (pe_std pe) s cfg) st (readCAPEM cfg os'), mc2)
           | ProcessExit c \<Rightarrow> Inr (Exited c, mc2)
           | Shutdown \<Rightarrow> Inr (Exited 0, mc2\<lparr>mc_kernel :=
               shutdownTransparent (pe_runner pe) cfg (NewManager (pe_uid pe) (cf_Port cfg)) k\<rparr>)))"
proof -
  obtain s st where n: "NewServer (pe_cli pe) (Inr ca) (pe_now pe 2) cfg = Inr (Inr (s :: os_state server, st, ca))"
      "sv_outputs s = []" "store_ok st"
    using NewServer_accepted [OF assms(1,2), of ca "pe_now pe 2"] by blast
  show thesis
    by (rule that [OF n(2,3)]) (use assms n(1) in \<open>simp add: main_def run_def Let_def split: prod.splits serving_end.splits\<close>)
qed

definition fresh_chain :: "('k, 'key, 'r) process_env \<Rightarrow> config \<Rightarrow> rule_table \<Rightarrow> bool" where
  "fresh_chain pe cfg t \<longleftrightarrow> set (goper_specs (pe_uid pe) (cf_Port cfg)) \<inter> set (out_chain t) = {}"

definition redirected :: "('k, 'key, 'r) process_env \<Rightarrow> config \<Rightarrow> rule_table \<Rightarrow> rule_table" where
  "redirected pe cfg t =
     (if cf_Transparent cfg then with_out t (out_chain t @ goper_specs (pe_uid pe) (cf_Port cfg)) else t)"

lemma setupTransparent_ok:
  assumes "rule_runner (pe_runner pe) healthy tab" "healthy k" "fresh_chain pe cfg (tab k)" "cf_Transparent cfg \<longrightarrow> pe_euid pe = 0"
  shows "\<exists>k'. setupTransparentIfEnabled (pe_runner pe) (pe_euid pe) cfg (NewManager (pe_uid pe) (cf_Port cfg)) k = (0, k')
    \<and> healthy k' \<and> tab k' = redirected pe cfg (tab k)"
  using rule_runner.Setup_fresh [OF assms(1), OF assms(2), of "pe_uid pe" "cf_Port cfg"] assms(2-4)
  by (auto simp: setupTransparentIfEnabled_def installRules_def checkTransparentPrivileges_def redirected_def fresh_chain_def)

lemma shutdownTransparent_ok:
  assumes "rule_runner (pe_runner pe) healthy tab" "healthy k'" "fresh_chain pe cfg t" "tab k' = redirected pe cfg t"
  shows "tab (shutdownTransparent (pe_runner pe) cfg (NewManager (pe_uid pe) (cf_Port cfg)) k') = t"
  using rule_runner.Teardown_undoes [OF assms(1), OF assms(2), of t "pe_uid pe" "cf_Port cfg"] assms(3,4)
  by (auto simp: redirected_def fresh_chain_def shutdownTransparent_def teardownTransparent_def)

section \<open>Properties\<close>

definition demo_process :: "(kernel, nat, nat) process_env" where
  "demo_process = \<lparr>pe_euid = 0, pe_uid = 0, pe_std = demo_env, pe_cli = demo_cli, pe_crypto = demo_crypto, pe_now = int,
     pe_runner = kernel_run\<rparr>"

definition demo_machine :: "(kernel, nat) machine" where
  "demo_machine = \<lparr>mc_log = None, mc_os = demo_os, mc_kernel = demo_kernel, mc_rand = 0\<rparr>"

definition demo_args :: "string list" where
  "demo_args = [''--ca-dir=/ca'', ''--transparent'']"

abbreviation demo_cfg :: config where
  "demo_cfg \<equiv> Default\<lparr>cf_CADir := ''/ca'', cf_Transparent := True\<rparr>"

lemma demo_parse: "parseConfig demo_cli demo_args = Inr demo_cfg"
proof -
  have "split_flag ''--ca-dir=/ca'' = FlagArg ''ca-dir'' (Some ''/ca'')" "split_flag ''--transparent'' = FlagArg ''transparent'' None"
    by code_simp+
  then show ?thesis
    by (simp add: demo_args_def parseConfig_def parse_flags.simps is_bool_flag_def parse_bool_def flag_table_def set_flag_def on_cfg_def validateConfig_def
        validOutputFormat_def validateCaptureRegex_def applyDerivedSettings_def expandHomeDir_def demo_cli_def Default_def)
qed

lemma demo_buffer: "cf_BufferSize demo_cfg \<le> 2 ^ 45"
  by (simp add: Default_def)

lemma demo_loads:
  "\<exists>ca r' os'. LoadOrCreateCA (pe_crypto demo_process) (pe_now demo_process 0) (pe_now demo_process 1) (cf_CADir demo_cfg)
      (mc_rand demo_machine) (mc_os demo_machine) = Inr (Inr ca, r', os')"
  using demo_CA_created by (simp add: demo_process_def demo_machine_def)

lemma demo_kernel_ok:
  "rule_runner (pe_runner demo_process) kernel_healthy kn_rules"
  "kernel_healthy (mc_kernel demo_machine)" "fresh_chain demo_process demo_cfg (kn_rules (mc_kernel demo_machine))"
  using kern.rule_runner_axioms
  by (simp_all add: demo_process_def demo_machine_def demo_kernel_def kernel_healthy_def fresh_chain_def)

text \<open>
  \<^bold>\<open>C29\<close>. The normal life of the process. Suppose that the command line is accepted, with a buffer
  of at most \<open>2 ^ 45\<close> entries, that the CA can be loaded or created, that \<^verbatim>\<open>iptables\<close> works and the
  chain holds none of goper's rules yet, and that the process is root if transparent mode is
  on. Then the process comes to serve, with the redirection rules installed exactly in
  transparent mode and with one writer of the requested format (none if capturing is
  disabled or the output directory is empty), and a signal ends it with exit code 0 and
  every chain as it was before the start.
\<close>

theorem main_lifecycle:
  assumes "parseConfig (pe_cli pe) args = Inr cfg" "cf_BufferSize cfg \<le> 2 ^ 45"
    and "LoadOrCreateCA (pe_crypto pe) (pe_now pe 0) (pe_now pe 1) (cf_CADir cfg) (mc_rand mc) (mc_os mc) = Inr (Inr ca, r', os')"
    and "rule_runner (pe_runner pe) healthy tab" "healthy (mc_kernel mc)" "fresh_chain pe cfg (tab (mc_kernel mc))" "cf_Transparent cfg \<longrightarrow> pe_euid pe = 0"
  shows "\<exists>s st pem mc1 mc2.
    main pe args (replicate n (ServerReturned None)) mc = Inr (Serving s st pem, mc1) \<and> store_ok st
    \<and> tab (mc_kernel mc1) = redirected pe cfg (tab (mc_kernel mc))
    \<and> sv_outputs s = (if cf_NoCapture cfg \<or> cf_OutputDir cfg = [] then []
        else [(if cf_OutputFormat cfg = ''ndjson'' then NDJSONBodyWriter_WriteEntry else JSONBodyWriter_WriteEntry)
                (pe_std pe) OSFileSystem (cf_OutputDir cfg)])
    \<and> main pe args (replicate n (ServerReturned None) @ SignalReceived # rest) mc = Inr (Exited 0, mc2)
    \<and> tab (mc_kernel mc2) = tab (mc_kernel mc) \<and> mc_os mc2 = os'"
proof -
  obtain s st where m: "sv_outputs s = []" "store_ok st"
    "\<And>events. main pe args events mc =
      (case setupTransparentIfEnabled (pe_runner pe) (pe_euid pe) cfg (NewManager (pe_uid pe) (cf_Port cfg)) (mc_kernel mc) of (code, k) \<Rightarrow>
         let mc2 = mc\<lparr>mc_log := Some (setupLogging cfg), mc_rand := r', mc_os := os', mc_kernel := k\<rparr> in
         if code \<noteq> 0 then Inr (Exited code, mc2)
         else (case await events of
             StillServing \<Rightarrow> Inr (Serving (setupOutputs (pe_std pe) s cfg) st (readCAPEM cfg os'), mc2)
           | ProcessExit c \<Rightarrow> Inr (Exited c, mc2)
           | Shutdown \<Rightarrow> Inr (Exited 0, mc2\<lparr>mc_kernel :=
               shutdownTransparent (pe_runner pe) cfg (NewManager (pe_uid pe) (cf_Port cfg)) k\<rparr>)))"
    using main_started [OF assms(1-3)] by blast
  obtain k where k: "setupTransparentIfEnabled (pe_runner pe) (pe_euid pe) cfg (NewManager (pe_uid pe) (cf_Port cfg)) (mc_kernel mc) = (0, k)"
    "healthy k" "tab k = redirected pe cfg (tab (mc_kernel mc))"
    using setupTransparent_ok [OF assms(4-7)] by blast
  have a: "await (replicate n (ServerReturned None)) = StillServing"
    using await_quiet [of n "[]"] by simp
  show ?thesis
    using k(1,3) m(1,2) shutdownTransparent_ok [OF assms(4) k(2) assms(6) k(3)]
    by (simp add: m(3) a await_quiet setupOutputs_outputs Let_def)
qed

theorem main_lifecycle_witness:
  "\<exists>s st pem mc1 mc2.
    main demo_process demo_args (replicate 0 (ServerReturned None)) demo_machine = Inr (Serving s st pem, mc1)
    \<and> out_chain (kn_rules (mc_kernel mc1)) = goper_specs 0 (cf_Port demo_cfg)
    \<and> main demo_process demo_args (replicate 0 (ServerReturned None) @ SignalReceived # []) demo_machine = Inr (Exited 0, mc2)
    \<and> kn_rules (mc_kernel mc2) = kn_rules (mc_kernel demo_machine)"
proof -
  obtain ca r' os' where l: "LoadOrCreateCA (pe_crypto demo_process) (pe_now demo_process 0) (pe_now demo_process 1)
      (cf_CADir demo_cfg) (mc_rand demo_machine) (mc_os demo_machine) = Inr (Inr ca, r', os')"
    using demo_loads by blast
  have p: "parseConfig (pe_cli demo_process) demo_args = Inr demo_cfg" by (simp add: demo_process_def demo_parse)
  have e: "cf_Transparent demo_cfg \<longrightarrow> pe_euid demo_process = 0" by (simp add: demo_process_def)
  have r: "out_chain (redirected demo_process demo_cfg (kn_rules (mc_kernel demo_machine))) = goper_specs 0 (cf_Port demo_cfg)"
    by (simp add: redirected_def demo_machine_def demo_kernel_def demo_process_def)
  from main_lifecycle [OF p demo_buffer l demo_kernel_ok e, of 0 "[]"] r show ?thesis by metis
qed

text \<open>
  \<^bold>\<open>C39\<close>. A server that fails takes the process down without the clean-up. Suppose that a process
  of root starts in transparent mode (the command line is accepted with a buffer of at most
  \<open>2 ^ 45\<close> entries, the CA can be loaded or created, \<^verbatim>\<open>iptables\<close> works and the chain holds none of
  goper's rules) and that the proxy's port is already taken. Then the proxy's \<^verbatim>\<open>Run\<close> returns
  the error of listening, the process exits with code 1, and the chain is left with all three
  of goper's rules behind the old ones, so that every TCP connection of another user to port
  80 or 443 that no earlier rule decides is redirected to the port where goper does not
  listen.
\<close>

theorem server_failure_leaves_rules:
  assumes "parseConfig (pe_cli pe) args = Inr cfg" "cf_BufferSize cfg \<le> 2 ^ 45"
    and "LoadOrCreateCA (pe_crypto pe) (pe_now pe 0) (pe_now pe 1) (cf_CADir cfg) (mc_rand mc) (mc_os mc) = Inr (Inr ca, r', os')"
    and "rule_runner (pe_runner pe) healthy tab" "healthy (mc_kernel mc)" "fresh_chain pe cfg (tab (mc_kernel mc))" "cf_Transparent cfg" "pe_euid pe = 0"
    and "0 \<le> pe_uid pe" "net_Listen ''tcp'' ('':'' @ itoa (cf_Port cfg)) = Inl e"
  shows "\<exists>err mc'. proxy_Run net_Listen serve linux res cfg proxy accepts = Some err
    \<and> main pe args (replicate n (ServerReturned None) @ ServerReturned err # rest) mc = Inr (Exited 1, mc')
    \<and> tab (mc_kernel mc') = with_out (tab (mc_kernel mc))
        (out_chain (tab (mc_kernel mc)) @ goper_specs (pe_uid pe) (cf_Port cfg))
    \<and> (\<forall>p. 0 \<le> pk_uid p \<and> pk_uid p \<noteq> pe_uid pe \<and> pk_proto p = ''tcp'' \<and> (pk_dport p = 80 \<or> pk_dport p = 443)
          \<and> chain_verdict (out_chain (tab (mc_kernel mc))) p = None \<longrightarrow>
        chain_verdict (out_chain (tab (mc_kernel mc'))) p = Some (Redirect (itoa (cf_Port cfg))))"
proof -
  obtain k where k: "setupTransparentIfEnabled (pe_runner pe) (pe_euid pe) cfg (NewManager (pe_uid pe) (cf_Port cfg)) (mc_kernel mc) = (0, k)"
    "tab k = redirected pe cfg (tab (mc_kernel mc))"
    using setupTransparent_ok [OF assms(4-6)] assms(8) by blast
  then have t: "tab k = with_out (tab (mc_kernel mc)) (out_chain (tab (mc_kernel mc)) @ goper_specs (pe_uid pe) (cf_Port cfg))"
    using assms(7) by (simp add: redirected_def)
  have "chain_verdict (out_chain (tab k)) p = Some (Redirect (itoa (cf_Port cfg)))"
    if "0 \<le> pk_uid p" "pk_uid p \<noteq> pe_uid pe" "pk_proto p = ''tcp''" "pk_dport p = 80 \<or> pk_dport p = 443"
      "chain_verdict (out_chain (tab (mc_kernel mc))) p = None" for p
    using t that goper_verdict [OF assms(9) that(1), of "cf_Port cfg"] by (auto simp: chain_verdict_append)
  moreover have "\<exists>mc'. main pe args (replicate n (ServerReturned None) @ ServerReturned (Some err) # rest) mc = Inr (Exited 1, mc')
      \<and> mc_kernel mc' = k" for err
    by (rule main_started [OF assms(1-3)]) (simp add: k(1) await_quiet runServer_def Let_def)
  moreover have "proxy_Run net_Listen serve linux res cfg proxy accepts = Some (Some (''listen :'' @ itoa (cf_Port cfg) @ '': '' @ e))"
    using assms(10) by (simp add: proxy_Run_def httpx_Listen_def)
  ultimately show ?thesis using t by blast
qed

theorem server_failure_leaves_rules_witness:
  "\<exists>err mc'. proxy_Run (\<lambda>_ _. Inl ''address already in use'' :: string + unit) (\<lambda>_ _. None) True None demo_cfg () (\<lambda>_. []) = Some err
    \<and> main demo_process demo_args (replicate 1 (ServerReturned None) @ ServerReturned err # []) demo_machine = Inr (Exited 1, mc')
    \<and> out_chain (kn_rules (mc_kernel mc')) = goper_specs 0 (cf_Port demo_cfg)
    \<and> chain_verdict (out_chain (kn_rules (mc_kernel mc'))) \<lparr>pk_uid = 1000, pk_proto = ''tcp'', pk_dport = 80\<rparr>
        = Some (Redirect (itoa (cf_Port demo_cfg)))"
proof -
  obtain ca r' os' where l: "LoadOrCreateCA (pe_crypto demo_process) (pe_now demo_process 0) (pe_now demo_process 1)
      (cf_CADir demo_cfg) (mc_rand demo_machine) (mc_os demo_machine) = Inr (Inr ca, r', os')"
    using demo_loads by blast
  have p: "parseConfig (pe_cli demo_process) demo_args = Inr demo_cfg" by (simp add: demo_process_def demo_parse)
  have c: "out_chain (kn_rules (mc_kernel demo_machine)) = []" by (simp add: demo_machine_def demo_kernel_def)
  have u: "cf_Transparent demo_cfg" "pe_euid demo_process = 0" "0 \<le> pe_uid demo_process" "pe_uid demo_process = 0"
    by (simp_all add: demo_process_def)
  let ?listen = "\<lambda>_ _. Inl ''address already in use'' :: string + unit"
  have n: "?listen ''tcp'' ('':'' @ itoa (cf_Port demo_cfg)) = Inl ''address already in use''" by simp
  obtain err mc' where r: "proxy_Run ?listen (\<lambda>_ _. None) True None demo_cfg () (\<lambda>_. []) = Some err"
    "main demo_process demo_args (replicate 1 (ServerReturned None) @ ServerReturned err # []) demo_machine = Inr (Exited 1, mc')"
    "kn_rules (mc_kernel mc') = with_out (kn_rules (mc_kernel demo_machine))
        (out_chain (kn_rules (mc_kernel demo_machine)) @ goper_specs (pe_uid demo_process) (cf_Port demo_cfg))"
    "\<forall>p. 0 \<le> pk_uid p \<and> pk_uid p \<noteq> pe_uid demo_process \<and> pk_proto p = ''tcp'' \<and> (pk_dport p = 80 \<or> pk_dport p = 443)
          \<and> chain_verdict (out_chain (kn_rules (mc_kernel demo_machine))) p = None \<longrightarrow>
        chain_verdict (out_chain (kn_rules (mc_kernel mc'))) p = Some (Redirect (itoa (cf_Port demo_cfg)))"
    using server_failure_leaves_rules [OF p demo_buffer l demo_kernel_ok u(1-3) n, of "\<lambda>_ _. None" True None "()" "\<lambda>_. []" 1 "[]"]
    by (elim exE conjE)
  show ?thesis using r(1-3) r(4) [rule_format, of "\<lparr>pk_uid = 1000, pk_proto = ''tcp'', pk_dport = 80\<rparr>"] c u(4) by auto
qed

text \<open>
  A failed installation is not rolled back: if \<^verbatim>\<open>iptables\<close> refuses the third rule, the process
  exits with code 1 and leaves the first two behind, so that port 80 stays redirected.
\<close>

theorem failed_setup_leaves_rules:
  assumes "parseConfig (pe_cli pe) args = Inr cfg" "cf_BufferSize cfg \<le> 2 ^ 45"
    and "LoadOrCreateCA (pe_crypto pe) (pe_now pe 0) (pe_now pe 1) (cf_CADir cfg) (mc_rand mc) (mc_os mc) = Inr (Inr ca, r', os')"
    and "pe_runner pe = kernel_run" "fresh_chain pe cfg (kn_rules (mc_kernel mc))" "cf_Transparent cfg" "pe_euid pe = 0" "kn_exec (mc_kernel mc) = None"
    and "kn_refuse (mc_kernel mc) = (\<lambda>s. if s = goper_specs (pe_uid pe) (cf_Port cfg) ! 2 then Some msg else None)"
  shows "\<exists>mc'. main pe args events mc = Inr (Exited 1, mc')
    \<and> out_chain (kn_rules (mc_kernel mc')) = out_chain (kn_rules (mc_kernel mc)) @ take 2 (goper_specs (pe_uid pe) (cf_Port cfg))"
proof -
  let ?k = "mc_kernel mc" and ?m = "NewManager (pe_uid pe) (cf_Port cfg)"
  have "\<exists>err k'. Setup kernel_run ?m ?k = (Some err, k')
      \<and> out_chain (kn_rules k') = out_chain (kn_rules ?k) @ take 2 (goper_specs (pe_uid pe) (cf_Port cfg))"
    using assms(5,8,9)
    by (simp add: Setup_def NewManager_def goper_specs_def fresh_chain_def ensureRule_def ruleExists_def addRule_def
        kernel_run_rule isExecFailure_def present_def chain_of_def set_chain_def numeral_2_eq_2)
  then obtain err k' where k: "Setup kernel_run ?m ?k = (Some err, k')"
    "out_chain (kn_rules k') = out_chain (kn_rules ?k) @ take 2 (goper_specs (pe_uid pe) (cf_Port cfg))"
    by blast
  show ?thesis
    by (rule main_started [OF assms(1-3)])
      (use k assms(4,6,7) in \<open>simp add: setupTransparentIfEnabled_def installRules_def checkTransparentPrivileges_def Let_def\<close>)
qed

theorem failed_setup_leaves_rules_witness:
  "\<exists>mc'. main demo_process demo_args [SignalReceived]
        (demo_machine\<lparr>mc_kernel := demo_kernel\<lparr>kn_refuse := (\<lambda>s. if s = goper_specs 0 8080 ! 2 then Some ''no'' else None)\<rparr>\<rparr>)
      = Inr (Exited 1, mc')
    \<and> out_chain (kn_rules (mc_kernel mc')) = take 2 (goper_specs 0 8080)"
proof -
  let ?mc = "demo_machine\<lparr>mc_kernel := demo_kernel\<lparr>kn_refuse := (\<lambda>s. if s = goper_specs 0 8080 ! 2 then Some ''no'' else None)\<rparr>\<rparr>"
  have "\<exists>ca r' os'. LoadOrCreateCA (pe_crypto demo_process) (pe_now demo_process 0) (pe_now demo_process 1) (cf_CADir demo_cfg)
      (mc_rand ?mc) (mc_os ?mc) = Inr (Inr ca, r', os')"
    using demo_loads by simp
  then obtain ca r' os' where l: "LoadOrCreateCA (pe_crypto demo_process) (pe_now demo_process 0) (pe_now demo_process 1)
      (cf_CADir demo_cfg) (mc_rand ?mc) (mc_os ?mc) = Inr (Inr ca, r', os')"
    by blast
  have p: "parseConfig (pe_cli demo_process) demo_args = Inr demo_cfg" by (simp add: demo_process_def demo_parse)
  have "pe_runner demo_process = kernel_run" "fresh_chain demo_process demo_cfg (kn_rules (mc_kernel ?mc))"
    by (simp_all add: demo_kernel_def fresh_chain_def demo_process_def)
  from failed_setup_leaves_rules [OF p demo_buffer l this, of "''no''" "[SignalReceived]"] show ?thesis
    by (simp add: demo_process_def demo_kernel_def Default_def)
qed

lemma readCAPEM_active:
  assumes "codec_ok cr" "LoadOrCreateCA cr t1 t2 (cf_CADir cfg) r st = Inr (Inr ca, r', st')"
    and "os_deny st OpRead = (\<lambda>_. None)"
  shows "\<exists>pem keyPEM. readCAPEM cfg st' = Some pem
    \<and> os_ReadFile (path_Join [cf_CADir cfg, ''ca-key.pem'']) st' = Inr keyPEM
    \<and> X509KeyPair cr pem keyPEM = Inr (ca_TLS ca)"
proof (cases "os_Stat_ok (path_Join [cf_CADir cfg, ''ca-cert.pem'']) st")
  case True
  then have l: "loadCA cr (path_Join [cf_CADir cfg, ''ca-cert.pem'']) (path_Join [cf_CADir cfg, ''ca-key.pem'']) st = Inr (Inr ca)"
      "st' = st"
    using assms(2) by (auto simp: LoadOrCreateCA_def Let_def go_bind_eq_Inr)
  obtain cp kp tls where "os_ReadFile (path_Join [cf_CADir cfg, ''ca-cert.pem'']) st = Inr cp"
      "os_ReadFile (path_Join [cf_CADir cfg, ''ca-key.pem'']) st = Inr kp"
      "X509KeyPair cr cp kp = Inr tls" "parseCAPair cr tls = Inr (Inr ca)"
    using l(1) by (auto simp: loadCA_def readCAPairFiles_def split: sum.splits)
  then show ?thesis using l(2) by (simp add: readCAPEM_def parseCAPair_TLS)
next
  case False
  then have "createAndPersistCA cr t1 t2 (cf_CADir cfg) (path_Join [cf_CADir cfg, ''ca-cert.pem''])
      (path_Join [cf_CADir cfg, ''ca-key.pem'']) r st = (Inr ca, r', st')"
    using assms(2) by (simp add: LoadOrCreateCA_def Let_def)
  from createAndPersistCA_files [OF assms(1) this ca_paths_differ] show ?thesis
    using assms(3) by (auto simp: readCAPEM_def os_ReadFile_def)
qed

text \<open>
  \<^bold>\<open>C30\<close>. The certificate offered for download is the one in use: after the CA has been loaded or
  created, if the operating system refuses no read (an unreadable certificate would be served
  as a 404), a GET request for \<^verbatim>\<open>/api/ca.pem\<close> is answered with the PEM text of the certificate
  which, with the stored key, forms the pair that signs the host certificates.
\<close>

theorem served_CA_is_active:
  assumes "codec_ok cr" "LoadOrCreateCA cr t1 t2 (cf_CADir cfg) r st = Inr (Inr ca, r', st')"
    and "os_deny st OpRead = (\<lambda>_. None)" "router chi" "aq_Method q = ''GET''" "aq_Path q = ''/api/ca.pem''"
  shows "\<exists>a pem keyPEM. api_serve (api_NewServer ae html chi nf rc (readCAPEM cfg st')) q rb = (Inl a, rb)
    \<and> ar_Status a = 200 \<and> ar_Body a = RawBody pem
    \<and> os_ReadFile (path_Join [cf_CADir cfg, ''ca-key.pem'']) st' = Inr keyPEM
    \<and> X509KeyPair cr pem keyPEM = Inr (ca_TLS ca)"
proof -
  obtain pem keyPEM where "readCAPEM cfg st' = Some pem" "os_ReadFile (path_Join [cf_CADir cfg, ''ca-key.pem'']) st' = Inr keyPEM"
      "X509KeyPair cr pem keyPEM = Inr (ca_TLS ca)"
    using readCAPEM_active [OF assms(1-3)] by blast
  then show ?thesis using router.serve_ca [OF assms(4-6)] by (simp add: GetCA_def)
qed

theorem served_CA_is_active_witness:
  "\<exists>ca r' st' a pem keyPEM. LoadOrCreateCA demo_crypto 0 1 (cf_CADir demo_cfg) 0 demo_os = Inr (Inr ca, r', st')
    \<and> api_serve (api_NewServer demo_api [] segment_router (\<lambda>_ _. json_error 404 ''x'') (\<lambda>_. json_error 500 ''x'') (readCAPEM demo_cfg st'))
        (demo_api_request ''/api/ca.pem'') demo_store = (Inl a, demo_store)
    \<and> ar_Body a = RawBody pem \<and> X509KeyPair demo_crypto pem keyPEM = Inr (ca_TLS ca)"
proof -
  have d: "os_deny demo_os OpRead = (\<lambda>_. None)" by (simp add: demo_os_def)
  have q: "aq_Method (demo_api_request ''/api/ca.pem'') = ''GET''" "aq_Path (demo_api_request ''/api/ca.pem'') = ''/api/ca.pem''"
    by (simp_all add: demo_api_request_def)
  have "\<exists>ca r' st'. LoadOrCreateCA demo_crypto 0 1 (cf_CADir demo_cfg) 0 demo_os = Inr (Inr ca, r', st')"
    using demo_CA_created by simp
  then obtain ca r' st' where l: "LoadOrCreateCA demo_crypto 0 1 (cf_CADir demo_cfg) 0 demo_os = Inr (Inr ca, r', st')" by blast
  from served_CA_is_active [OF demo_codec l d seg.router_axioms q,
      of demo_api "[]" "\<lambda>_ _. json_error 404 ''x''" "\<lambda>_. json_error 500 ''x''" demo_store] l
  show ?thesis by blast
qed

end
