(* ===== verification/Running_Process.thy ===== *)
theory Running_Process
  imports Stream_Delivery Goper_Main
begin

text \<open>
  The process from its command line to any state that its goroutines can reach: what
  \<^verbatim>\<open>main\<close> (\<open>Goper_Main\<close>) sets up is the start of the system of \<open>Proxy_System\<close>, so that the settings
  on the command line bound what every interleaving does to the store and to the files.
\<close>

section \<open>The state in which the process serves\<close>

text \<open>The counter of identifiers is at zero and no exchange has begun.\<close>

definition serving_psys :: "store \<Rightarrow> os_state \<Rightarrow> os_state psys" where
  "serving_psys st out =
     \<lparr>py_sys = \<lparr>sy_store = st, sy_ctr = 0, sy_inflight = [], sy_panic = None\<rparr>, py_out = out, py_tasks = []\<rparr>"

lemma NewServer_Inr:
  assumes "NewServer cenv loaded now cfg = Inr (Inr (s, st, ca))"
  shows "st = \<lparr>st_ring = empty_ring (cf_BufferSize cfg) now, st_chans = Map.empty, st_next = 0\<rparr>"
    and "sv_recorder s = NewDefaultRecorder (cf_RequestBodyLimit cfg) (cf_ResponseBodyLimit cfg)"
    and "sv_responseBodyLimit s = cf_ResponseBodyLimit cfg" and "sv_outputs s = []"
    and "cf_CaptureInclude cfg = [] \<Longrightarrow> sv_includeRE s = None" and "cf_CaptureExclude cfg = [] \<Longrightarrow> sv_excludeRE s = None"
  using assms by (auto simp: NewServer_def NewRingBuffer_def go_bind_eq_Inr configureCaptureRegexes_def compileCaptureRegex_def Let_def split: sum.splits if_splits)

lemma setupOutputs_keeps:
  "sv_recorder (setupOutputs env s cfg) = sv_recorder s"
  "sv_responseBodyLimit (setupOutputs env s cfg) = sv_responseBodyLimit s"
  "sv_includeRE (setupOutputs env s cfg) = sv_includeRE s" "sv_excludeRE (setupOutputs env s cfg) = sv_excludeRE s"
  by (simp_all add: setupOutputs_def wireOutputs_def AddOutput_def)

lemma main_serving:
  fixes pe :: "('k, 'key, 'r) process_env"
  assumes "main pe args events mc = Inr (Serving s st pem, mc1)"
  obtains cfg s0 and loaded :: "string + 'key CA" and ca where "parseConfig (pe_cli pe) args = Inr cfg"
    "NewServer (pe_cli pe) loaded (pe_now pe 2) cfg = Inr (Inr (s0, st, ca))" "s = setupOutputs (pe_std pe) s0 cfg"
proof -
  obtain cfg where cfg: "parseConfig (pe_cli pe) args = Inr cfg"
    using assms by (auto simp: main_def split: sum.splits)
  then have r: "run pe cfg events mc = Inr (Serving s st pem, mc1)" using assms by (simp add: main_def)
  obtain loaded r' os' where "LoadOrCreateCA (pe_crypto pe) (pe_now pe 0) (pe_now pe 1) (cf_CADir cfg) (mc_rand mc) (mc_os mc)
      = Inr (loaded, r', os')"
    using r by (auto simp: run_def go_bind_def split: sum.splits)
  moreover from this r obtain created :: "string + os_state server \<times> store \<times> 'key CA" where n: "NewServer (pe_cli pe) loaded (pe_now pe 2) cfg = Inr created"
    by (auto simp: run_def Let_def go_bind_eq_Inr)
  ultimately have "\<exists>s0 ca. created = Inr (s0, st, ca) \<and> s = setupOutputs (pe_std pe) s0 cfg"
    using r by (cases created) (auto simp: run_def Let_def split: prod.splits if_splits serving_end.splits)
  then show thesis using that [OF cfg, of loaded] n by blast
qed

lemma serving_psys_start:
  fixes pe :: "('k, 'key, 'r) process_env"
  assumes "main pe args events mc = Inr (Serving s st pem, mc1)"
  obtains cfg where "parseConfig (pe_cli pe) args = Inr cfg"
    "serving_psys st out = init_psys (cf_BufferSize cfg) (pe_now pe 2) out"
    "sv_recorder s = NewDefaultRecorder (cf_RequestBodyLimit cfg) (cf_ResponseBodyLimit cfg)"
    "sv_outputs s = (if cf_NoCapture cfg \<or> cf_OutputDir cfg = [] then []
        else [(if cf_OutputFormat cfg = ''ndjson'' then NDJSONBodyWriter_WriteEntry else JSONBodyWriter_WriteEntry)
                (pe_std pe) OSFileSystem (cf_OutputDir cfg)])"
proof -
  obtain cfg s0 and loaded :: "string + 'key CA" and ca where c: "parseConfig (pe_cli pe) args = Inr cfg"
    "NewServer (pe_cli pe) loaded (pe_now pe 2) cfg = Inr (Inr (s0, st, ca))" "s = setupOutputs (pe_std pe) s0 cfg"
    using main_serving [OF assms] .
  show thesis
    by (rule that [OF c(1)])
      (use c(3) NewServer_Inr [OF c(2)] in \<open>simp_all add: serving_psys_def init_psys_def init_sys_def
        setupOutputs_keeps setupOutputs_outputs\<close>)
qed

section \<open>Identifiers are file names\<close>

definition slashless_ids :: "'w psys \<Rightarrow> bool" where
  "slashless_ids p \<longleftrightarrow> (\<forall>i e ws. task_of p i = Some (Pushing e ws) \<or> task_of p i = Some (Writing e ws) \<longrightarrow> slashless_id e)
     \<and> (\<forall>x \<in> set (sy_inflight (py_sys p)). slashless_id (snd x))"

definition slashless_clock :: "std_env \<Rightarrow> bool" where
  "slashless_clock env \<longleftrightarrow> (\<forall>t. CHR ''/'' \<notin> set (time_stamp env t))"

lemma NewEntryID_slashless: "slashless_clock env \<Longrightarrow> CHR ''/'' \<notin> set (fst (NewEntryID env t c))"
  by (simp add: slashless_clock_def NewEntryID_def Let_def itoa_no_slash)

lemma finalizeEntry_slashless:
  "finalizeEntry env n1 n2 c e = (e', c') \<Longrightarrow> slashless_clock env \<Longrightarrow> slashless_id e \<Longrightarrow> slashless_id e'"
  using NewEntryID_slashless [of env n1 c]
  by (auto simp: finalizeEntry_def slashless_id_def Let_def split: if_splits prod.splits)

lemma slashless_ids_sys:
  assumes "slashless_ids p" "sys_step env (py_sys p) a y" "\<And>e n1 n2. a \<noteq> APush e n1 n2"
  shows "slashless_ids (p\<lparr>py_sys := y\<rparr>)"
  using assms(1) sys_step_inflight_wf [OF assms(2,3), of slashless_id] by (simp add: slashless_ids_def)

lemma slashless_ids_set:
  "slashless_ids p \<Longrightarrow> (\<And>e ws. t = Pushing e ws \<or> t = Writing e ws \<Longrightarrow> slashless_id e) \<Longrightarrow> slashless_ids (set_task i t p)"
  "slashless_ids p \<Longrightarrow> slashless_ids (p\<lparr>py_out := out\<rparr>)"
  by (auto simp: slashless_ids_def)

lemma slashless_ids_step:
  assumes ok: "slashless_ids p" and inv: "psys_inv s p" and st: "proxy_step env s p a p'" and ck: "slashless_clock env"
  shows "slashless_ids p'"
  using st
proof cases
  case (request now req)
  then show ?thesis using ok by (auto simp: slashless_ids_def task_of_new split: option.splits)
next
  case (respond i data ck resp t c)
  then show ?thesis
    using ok NewEntryID_slashless [OF ck]
    by (cases rule: begin_recording_cases [of env s ck data resp "sy_ctr (py_sys p)"])
      (auto simp: slashless_ids_def slashless_id_def)
next
  case (push i e ws n1 n2 y)
  obtain e' c where fin: "finalizeEntry env n1 n2 (sy_ctr (py_sys p)) e = (e', c)" by fastforce
  have "slashless_id e" using ok push(3) unfolding slashless_ids_def by blast
  then have "slashless_id e'" using finalizeEntry_slashless [OF fin ck] by blast
  moreover have "sy_inflight y = sy_inflight (py_sys p) @ [(rb_subscribers (ring_of p), e')]"
    using sys_step_push(6) [OF _ push(4) fin] inv by (simp add: psys_inv_def)
  ultimately have "slashless_ids (p\<lparr>py_sys := y\<rparr>)" using ok by (simp add: slashless_ids_def)
  then show ?thesis using push(2) slashless_ids_set(1) by fastforce
next
  case (notify i k ws y)
  then show ?thesis using slashless_ids_sys [OF ok notify(4)] by simp
next
  case (notified i k ws e)
  then have "slashless_id e" using ok nth_mem [of k "sy_inflight (py_sys p)"] by (fastforce simp: slashless_ids_def)
  then show ?thesis using notified(2) ok slashless_ids_set(1) by blast
next
  case (write_out i e w ws err out)
  then have "slashless_id e" using ok unfolding slashless_ids_def by blast
  then show ?thesis
    unfolding write_out(2) by (intro slashless_ids_set(1)) (use ok slashless_ids_set(2) in auto)
next
  case (finish i e)
  then show ?thesis using ok slashless_ids_set(1) by blast
next
  case (client b y)
  then show ?thesis using slashless_ids_sys [OF ok client(4)] by (cases b) auto
qed (use ok in \<open>auto simp: panicking_def slashless_ids_def\<close>)

section \<open>Only outputs write\<close>

text \<open>An output that changes no file outside \<open>D\<close>.\<close>

definition writes_within :: "path_key set \<Rightarrow> os_state entry_output \<Rightarrow> bool" where
  "writes_within D w \<longleftrightarrow> (\<forall>e st err st' k. slashless_id e \<longrightarrow> w (Some e) st = Inr (err, st') \<longrightarrow> k \<notin> D
     \<longrightarrow> os_files st' k = os_files st k)"

lemma proxy_step_files:
  assumes "slashless_ids p" "psys_inv s p" "proxy_step env s p a p'" "\<forall>w \<in> set (sv_outputs s). writes_within D w" "k \<notin> D"
  shows "os_files (py_out p') k = os_files (py_out p) k"
  using assms(3)
proof cases
  case (write_out i e w ws err out)
  have "slashless_id e" using assms(1) write_out(4) unfolding slashless_ids_def by blast
  moreover have "w \<in> set (sv_outputs s)"
    using assms(2) write_out(4) unfolding psys_inv_def by fastforce
  ultimately have "os_files out k = os_files (py_out p) k"
    using write_out(5) assms(4,5) unfolding writes_within_def by blast
  then show ?thesis using write_out(2) by simp
qed (simp_all add: panicking_def)

lemma proxy_run_files:
  assumes "proxy_run env s (serving_psys st out) as p" "psys_inv s (serving_psys st out)" "outputs_total (sv_outputs s)"
    "slashless_clock env" "\<forall>w \<in> set (sv_outputs s). writes_within D w" "k \<notin> D"
  shows "slashless_ids p \<and> os_files (py_out p) k = os_files out k"
  using assms(1)
proof (induction rule: proxy_run.induct)
  case run_nil
  then show ?case by (simp add: slashless_ids_def serving_psys_def task_of_def)
next
  case (run_snoc as q a q')
  have "psys_inv s q" using run_snoc(1) assms(2,3) by (rule proxy_run_inv)
  then show ?case
    using slashless_ids_step [OF _ _ run_snoc(2) assms(4)] proxy_step_files [OF _ _ run_snoc(2) assms(5,6)] run_snoc.IH
    by simp
qed

text \<open>The files that belong to the capture directory.\<close>

definition capture_files :: "string \<Rightarrow> path_key set" where
  "capture_files dir = {k. \<exists>d file. k = (is_rooted dir, path_segments dir @ [d, file])
     \<and> plain_segment d \<and> list_all safe_byte d \<and> plain_segment file}"

lemma json_writes_within: "writes_within (capture_files dir) (JSONBodyWriter_WriteEntry env OSFileSystem dir)"
proof -
  have "json_key env dir e \<in> capture_files dir" if "slashless_id e" for e
    using that safeDomain_plain safeDomain_bytes plain_json_name
    unfolding capture_files_def json_key_def slashless_id_def by blast
  then show ?thesis unfolding writes_within_def using json_w.frame by metis
qed

lemma ndjson_writes_within: "writes_within (capture_files dir) (NDJSONBodyWriter_WriteEntry env OSFileSystem dir)"
proof -
  have "plain_segment ''responses.jsonl''" by (simp add: plain_segment_def)
  then have "ndjson_key env dir e \<in> capture_files dir" for e
    using safeDomain_plain safeDomain_bytes unfolding capture_files_def ndjson_key_def by blast
  then show ?thesis unfolding writes_within_def using ndjson_w.frame by metis
qed

lemma writers_total:
  "outputs_total [JSONBodyWriter_WriteEntry env OSFileSystem dir]"
  "outputs_total [NDJSONBodyWriter_WriteEntry env OSFileSystem dir]"
  unfolding outputs_total_def using json_w.no_panic ndjson_w.no_panic by simp_all

section \<open>Properties\<close>

lemma serving_run:
  assumes "main pe args events mc = Inr (Serving s st pem, mc1)" "slashless_clock (pe_std pe)"
    and "proxy_run (pe_std pe) s (serving_psys st out) as p"
  obtains cfg now where "parseConfig (pe_cli pe) args = Inr cfg"
    "proxy_run (pe_std pe) s (init_psys (cf_BufferSize cfg) now out) as p" "outputs_total (sv_outputs s)"
    "sv_recorder s = NewDefaultRecorder (cf_RequestBodyLimit cfg) (cf_ResponseBodyLimit cfg)"
    "\<And>k. os_files (py_out p) k \<noteq> os_files out k \<Longrightarrow>
      \<not> cf_NoCapture cfg \<and> cf_OutputDir cfg \<noteq> [] \<and> k \<in> capture_files (cf_OutputDir cfg)"
proof -
  obtain cfg where c: "parseConfig (pe_cli pe) args = Inr cfg"
    "serving_psys st out = init_psys (cf_BufferSize cfg) (pe_now pe 2) out"
    "sv_recorder s = NewDefaultRecorder (cf_RequestBodyLimit cfg) (cf_ResponseBodyLimit cfg)"
    and o: "sv_outputs s = (if cf_NoCapture cfg \<or> cf_OutputDir cfg = [] then []
        else [(if cf_OutputFormat cfg = ''ndjson'' then NDJSONBodyWriter_WriteEntry else JSONBodyWriter_WriteEntry)
                (pe_std pe) OSFileSystem (cf_OutputDir cfg)])"
    using serving_psys_start [OF assms(1)] .
  have t: "outputs_total (sv_outputs s)"
    using writers_total [of "pe_std pe" "cf_OutputDir cfg"] by (simp add: o outputs_total_def)
  define D where "D = (if cf_NoCapture cfg \<or> cf_OutputDir cfg = [] then {} else capture_files (cf_OutputDir cfg))"
  have "\<forall>w \<in> set (sv_outputs s). writes_within D w"
    using json_writes_within ndjson_writes_within by (simp add: o D_def)
  moreover have "psys_inv s (serving_psys st out)" by (simp add: c(2) psys_inv_init)
  ultimately have "k \<notin> D \<Longrightarrow> os_files (py_out p) k = os_files out k" for k
    using proxy_run_files [OF assms(3) _ t assms(2)] by blast
  then have "\<And>k. os_files (py_out p) k \<noteq> os_files out k \<Longrightarrow>
      \<not> cf_NoCapture cfg \<and> cf_OutputDir cfg \<noteq> [] \<and> k \<in> capture_files (cf_OutputDir cfg)"
    unfolding D_def by (metis empty_iff)
  then show thesis using that [OF c(1) _ t c(3)] assms(3) c(2) by simp
qed

text \<open>
  \<^bold>\<open>C3\<close>. The settings of the command line bound the whole process: once \<^verbatim>\<open>main\<close> serves, in every
  state that any interleaving of its exchanges and API clients reaches, nothing but the
  send on a closed channel has panicked; the store holds at most the configured number of
  entries (10000 if that is not positive); every entry in it has the form that the recorder
  promises under the configured limits, with credentials redacted; and no file has changed
  since the start except files in directories directly below the output directory, none at
  all if capturing is disabled.
\<close>

theorem serving_process_bounded:
  assumes "main pe args events mc = Inr (Serving s st pem, mc1)" "slashless_clock (pe_std pe)"
    and "proxy_run (pe_std pe) s (serving_psys st (mc_os mc1)) as p"
  shows "\<exists>cfg. parseConfig (pe_cli pe) args = Inr cfg
    \<and> (sy_panic (py_sys p) = None \<or> sy_panic (py_sys p) = Some SendOnClosed)
    \<and> length (entries (ring_of p)) \<le> (if cf_BufferSize cfg \<le> 0 then 10000 else nat (cf_BufferSize cfg))
    \<and> sv_recorder s = NewDefaultRecorder (cf_RequestBodyLimit cfg) (cf_ResponseBodyLimit cfg)
    \<and> (\<forall>e \<in> set (entries (ring_of p)). entry_wf (pe_std pe) s e)
    \<and> (\<forall>k. os_files (py_out p) k \<noteq> os_files (mc_os mc1) k \<longrightarrow>
        \<not> cf_NoCapture cfg \<and> cf_OutputDir cfg \<noteq> [] \<and> k \<in> capture_files (cf_OutputDir cfg))"
proof -
  obtain cfg now where c: "parseConfig (pe_cli pe) args = Inr cfg"
    and run: "proxy_run (pe_std pe) s (init_psys (cf_BufferSize cfg) now (mc_os mc1)) as p"
    and t: "outputs_total (sv_outputs s)"
    and rec: "sv_recorder s = NewDefaultRecorder (cf_RequestBodyLimit cfg) (cf_ResponseBodyLimit cfg)"
    and files: "\<And>k. os_files (py_out p) k \<noteq> os_files (mc_os mc1) k \<Longrightarrow>
      \<not> cf_NoCapture cfg \<and> cf_OutputDir cfg \<noteq> [] \<and> k \<in> capture_files (cf_OutputDir cfg)"
    using serving_run [OF assms] by metis
  have "psys_inv s p" using run psys_inv_init t by (rule proxy_run_inv)
  then have "sy_panic (py_sys p) = None \<or> sy_panic (py_sys p) = Some SendOnClosed"
    by (auto simp: psys_inv_def sys_inv_def)
  moreover have k: "holds_newest (if cf_BufferSize cfg \<le> 0 then 10000 else nat (cf_BufferSize cfg)) (cleared as) p"
    using proxy_run_newest [OF run t] by blast
  moreover have "entries_wf (pe_std pe) s p" using proxy_run_wf [OF run t] .
  moreover have "set (entries (ring_of p)) \<subseteq> set (push_log p)"
    using k by (auto simp: holds_newest_def dest: in_set_dropD)
  ultimately show ?thesis
    using c rec files by (fastforce simp: holds_newest_def entries_wf_def push_log_def)
qed

text \<open>A started process and a first exchange.\<close>

lemma demo_main_serves:
  "\<exists>s st pem mc1. main demo_process demo_args [] demo_machine = Inr (Serving s st pem, mc1) \<and> store_ok st
     \<and> shouldCapture demo_env s demo_get \<and> sv_responseBodyLimit s = 1048576"
proof -
  obtain ca r' os' where l: "LoadOrCreateCA (pe_crypto demo_process) (pe_now demo_process 0) (pe_now demo_process 1)
      (cf_CADir demo_cfg) (mc_rand demo_machine) (mc_os demo_machine) = Inr (Inr ca, r', os')"
    using demo_loads by blast
  have p: "parseConfig (pe_cli demo_process) demo_args = Inr demo_cfg" by (simp add: demo_process_def demo_parse)
  obtain k where k: "setupTransparentIfEnabled (pe_runner demo_process) (pe_euid demo_process) demo_cfg
      (NewManager (pe_uid demo_process) (cf_Port demo_cfg)) (mc_kernel demo_machine) = (0, k)"
    using setupTransparent_ok [OF demo_kernel_ok] by (auto simp: demo_process_def)
  obtain s st pem mc1 where m: "main demo_process demo_args [] demo_machine = Inr (Serving s st pem, mc1)" "store_ok st"
    by (rule main_started [OF p demo_buffer l]) (simp add: k [simplified] Let_def)
  obtain cfg s0 and loaded :: "string + nat CA" and ca where c: "parseConfig (pe_cli demo_process) demo_args = Inr cfg"
    "NewServer (pe_cli demo_process) loaded (pe_now demo_process 2) cfg = Inr (Inr (s0, st, ca))"
    "s = setupOutputs (pe_std demo_process) s0 cfg"
    using main_serving [OF m(1)] .
  have "cfg = demo_cfg" using c(1) p by simp
  then have "sv_includeRE s = None" "sv_excludeRE s = None" "sv_responseBodyLimit s = 1048576"
    using NewServer_Inr(3,5,6) [OF c(2)] c(3) by (simp_all add: setupOutputs_keeps Default_def)
  then show ?thesis
    using m by (auto simp: shouldCapture_def regexAllows_def regexExcludes_def)
qed

lemma demo_served_exchange:
  assumes "store_ok st" "outputs_total (sv_outputs s)" "shouldCapture demo_env s demo_get" "sv_responseBodyLimit s = 1048576"
  shows "\<exists>as q. proxy_run demo_env s (serving_psys st out) as q \<and> entries (ring_of q) \<noteq> []"
proof -
  obtain data where d: "snd (handleRequest demo_env s 4 demo_get) = Some data"
    by (cases "recorder_CaptureRequest demo_env (sv_recorder s) demo_get") (use assms(3) in \<open>auto simp: handleRequest_def\<close>)
  define p where "p = (serving_psys st out)\<lparr>py_tasks := [Awaiting data]\<rparr>"
  have req: "proxy_step demo_env s (serving_psys st out) (PRequest 4 demo_get) p"
    using proxy_step.request [of "serving_psys st out" demo_env s 4 demo_get] d by (simp add: p_def serving_psys_def)
  have "store_ok (pw_store (world_of p))" using assms(1) by (simp add: p_def serving_psys_def world_of_def)
  moreover have "sint (sv_responseBodyLimit s) < 2 ^ 63 - 1" by (simp add: assms(4))
  ultimately obtain resp' w' where w': "handleResponse demo_env s demo_clocks (Some data) (Some demo_response) (world_of p) = Inr (Some resp', w')"
    "entries (st_ring (pw_store w')) \<noteq> []"
    using recordResponse_eof [OF _ assms(2) demo_can_read(2), of "world_of p" "\<lparr>rd_bytes = ''hello'', rd_err = None\<rparr>" demo_clocks data]
    by (auto simp: demo_response_def spec_push_def handleResponse_def responseData_def)
  obtain as q where "proxy_run demo_env s p as q" "world_of q = w'"
    using exchange_schedule [of p 0 data, OF _ _ w'(1)] by (auto simp: p_def task_of_def serving_psys_def)
  then show ?thesis
    using proxy_run_Cons [OF req] w'(2) by (metis proxy_world.select_convs(1) world_of_def)
qed

theorem serving_process_bounded_witness:
  "\<exists>s st pem mc1 as p cfg. main demo_process demo_args [] demo_machine = Inr (Serving s st pem, mc1)
    \<and> proxy_run demo_env s (serving_psys st (mc_os mc1)) as p
    \<and> entries (ring_of p) \<noteq> [] \<and> parseConfig demo_cli demo_args = Inr cfg
    \<and> length (entries (ring_of p)) \<le> (if cf_BufferSize cfg \<le> 0 then 10000 else nat (cf_BufferSize cfg))
    \<and> (\<forall>k. os_files (py_out p) k \<noteq> os_files (mc_os mc1) k \<longrightarrow>
        \<not> cf_NoCapture cfg \<and> cf_OutputDir cfg \<noteq> [] \<and> k \<in> capture_files (cf_OutputDir cfg))"
proof -
  obtain s st pem mc1 where m: "main demo_process demo_args [] demo_machine = Inr (Serving s st pem, mc1)" "store_ok st"
     "shouldCapture demo_env s demo_get" "sv_responseBodyLimit s = 1048576"
    using demo_main_serves by blast
  have ck: "slashless_clock (pe_std demo_process)" by (simp add: slashless_clock_def demo_process_def demo_env_def)
  have e: "pe_std demo_process = demo_env" "pe_cli demo_process = demo_cli" by (simp_all add: demo_process_def)
  have "proxy_run (pe_std demo_process) s (serving_psys st (mc_os mc1)) [] (serving_psys st (mc_os mc1))"
    by (rule proxy_run.run_nil)
  then have "outputs_total (sv_outputs s)" using serving_run [OF m(1) ck] by metis
  then obtain as p where r: "proxy_run demo_env s (serving_psys st (mc_os mc1)) as p" "entries (ring_of p) \<noteq> []"
    using demo_served_exchange [OF m(2) _ m(3,4)] by blast
  show ?thesis
    using serving_process_bounded [OF m(1) ck, unfolded e, OF r(1)] m(1) r by metis
qed

end
