(* ===== verification/Spec2Isabelle.thy ===== *)
theory Spec2Isabelle
  imports Output_Concurrency Running_Process Http_Servers
begin

text \<open>
  goper is an HTTP(S) proxy that records what passes through it. Clients reach it as an
  explicit proxy or transparently, through iptables rules that redirect ports 80 and 443 to
  it. It terminates TLS with certificates of its own CA, hands requests and responses on
  through the library \<^verbatim>\<open>goproxy\<close>, and records each exchange as an entry in a ring buffer, in
  files below an output directory and in an event stream. A second server offers the
  entries over an HTTP API. The theories of this development model the Go code under \<^verbatim>\<open>src/\<close>
  and prove what makes each part, and their composition, correct.

  \<^bold>\<open>Theories and code.\<close> Definitions carry the names of the Go functions; a method shared by
  two types has its type in front.

  \<^item> \<open>Goper_Prelude\<close>, \<open>Go_Strings\<close>, \<open>Go_Paths\<close>, \<open>Json_Scan\<close>: what the code uses of the language
    and its standard library. A Go operation that can panic returns \<open>'a go\<close>, the sum of the
    panics and the values, so that the absence of panics is proved and not assumed. Strings
    are byte strings with UTF-8 decoding as \<^verbatim>\<open>range\<close> does it; \<^verbatim>\<open>int64\<close> is a 64-bit word read
    with \<open>sint\<close>; \<^verbatim>\<open>filepath.Clean\<close> and \<^verbatim>\<open>Join\<close> with the meaning of a path, \<^verbatim>\<open>net.SplitHostPort\<close>, and the
    scanner of \<^verbatim>\<open>encoding/json\<close> with \<^verbatim>\<open>Compact\<close> and \<^verbatim>\<open>Indent\<close>.
  \<^item> \<open>Capture_Entry\<close> (\<^verbatim>\<open>capture/entry.go\<close>): entries and identifiers; identifiers are distinct.
  \<^item> \<open>Capture_Recorder\<close> (\<^verbatim>\<open>capture/capture.go\<close>): recording a request and a response. The locale
    \<open>recorder\<close> states what the proxy relies on (the request stays as it was, limits are
    respected, credentials are hidden) and is interpreted on \<^verbatim>\<open>DefaultRecorder\<close>.
  \<^item> \<open>Ring_Store\<close> (\<^verbatim>\<open>capture/store.go\<close>): the ring buffer, refined to a bounded list of entries;
    the locale \<open>entry_store\<close> is the interface \<^verbatim>\<open>Store\<close>, interpreted on the ring. Channels are a
    heap of bounded queues.
  \<^item> \<open>Store_Concurrency\<close>: the critical sections of the store as a step relation, with the
    invariant of every interleaving, the condition under which none panics, and the
    interleaving that does.
  \<^item> \<open>Output_Writers\<close> (\<^verbatim>\<open>output/file_writer.go\<close>, \<^verbatim>\<open>output/output.go\<close>): both body writers over the
    interface \<^verbatim>\<open>FileSystem\<close> (locale \<open>file_contract\<close>, interpreted on \<^verbatim>\<open>OSFileSystem\<close> over a file tree);
    the locale \<open>entry_writer\<close> is the interface \<^verbatim>\<open>Writer\<close>. Writes stay below the output directory,
    whatever the host name, and the line file can be read back.
  \<^item> \<open>Output_Concurrency\<close>: the writer of line files, which goroutines share, system call by system
    call: its mutex makes concurrent calls serialisable, no line is torn, no schedule blocks.
  \<^item> \<open>Goper_Config\<close> (\<^verbatim>\<open>config/config.go\<close> and the flags of \<^verbatim>\<open>cmd/goper/main.go\<close>): parsing and
    validating the command line; rendering a configuration and parsing it is the identity.
  \<^item> \<open>Proxy_Server\<close> (\<^verbatim>\<open>proxy/proxy.go\<close>, \<^verbatim>\<open>proxy/proxy_body.go\<close>): the request and response hooks.
    Recording is invisible to the client, announced lengths are right, filters decide.
  \<^item> \<open>Proxy_System\<close> and \<open>Stream_Delivery\<close>: the running proxy, any number of exchanges in goroutines
    of their own together with API clients, as a step relation on top of the one of the store.
    Every interleaving keeps the store consistent and records nothing of credentials, all
    recorded entries have the promised form, the store is one bounded queue, an exchange cannot
    be held up (locale \<open>progress\<close> of the prelude), and a stream client can account for every entry.
    A step is what a goroutine does between two accesses to shared state; \<^verbatim>\<open>handleResponse\<close>
    as one function is shown to be a schedule of these steps.
  \<^item> \<open>Mitm_Certs\<close> (\<^verbatim>\<open>proxy/mitm.go\<close>, \<^verbatim>\<open>mitm_ca_store.go\<close>, \<^verbatim>\<open>mitm_cert_cache.go\<close>): the CA, its files,
    host certificates and the cache, whose interleavings are a step relation.
  \<^item> \<open>Tls_Sni\<close> (\<^verbatim>\<open>proxy/transparent_shared.go\<close>): the parser of the ClientHello, every index and
    slice checked, with an encoder for the round trip.
  \<^item> \<open>Httpx\<close> (\<^verbatim>\<open>httpx/httpx.go\<close>): the settings with which all servers serve, and what \<^verbatim>\<open>http.Server\<close>
    does with the read deadline of a connection under them, until it closes it.
  \<^item> \<open>Transparent_Loop\<close> (\<^verbatim>\<open>proxy/transparent_loop.go\<close>, \<^verbatim>\<open>transparent.go\<close>): the accept loop, one
    redirected connection as a trace of actions, those of \<^verbatim>\<open>http.Server\<close> on it included, and
    the listener of a single connection, whose waiting \<^verbatim>\<open>Accept\<close> calls are released by a close.
  \<^item> \<open>Iptables_Rules\<close> (\<^verbatim>\<open>iptables/iptables.go\<close>): the rule manager over a command runner (locale
    \<open>rule_runner\<close>), and what its rules do to a packet.
  \<^item> \<open>Api_Handlers\<close> (\<^verbatim>\<open>api/handlers.go\<close>, \<^verbatim>\<open>handlers_sse.go\<close>, \<^verbatim>\<open>handlers_replay.go\<close>, \<^verbatim>\<open>ui.go\<close>) and
    \<open>Http_Servers\<close> (\<^verbatim>\<open>api/api.go\<close>, the \<^verbatim>\<open>Run\<close> methods): the handlers, the event stream over a
    connection that can break at any byte, the routes over a router (locale \<open>router\<close>), the middleware and the servers.
  \<^item> \<open>Goper_Main\<close> (\<^verbatim>\<open>cmd/goper/main.go\<close>): the life of the process, from the command line to the
    removal of the rules.
  \<^item> \<open>Running_Process\<close>: what \<^verbatim>\<open>main\<close> sets up is the start of \<open>Proxy_System\<close>; the settings on the command
    line bound what every interleaving does to the store and to the files.
  \<^item> This theory: an exchange through request hook, response hook, store, outputs and API, and
    a redirected TLS connection from its first byte to the recorded entry; requests to the API
    are the client steps of \<open>Proxy_System\<close>.

  \<^bold>\<open>Parameters.\<close> Code that is not part of the repository is a parameter, with what is relied on
  as a named hypothesis: the \<^verbatim>\<open>iptables\<close> command (\<open>rule_runner\<close>), the router \<^verbatim>\<open>chi\<close> (\<open>router\<close>), key
  generation, signing and encoding of certificates (\<open>crypto\<close>, \<open>codec_ok\<close>), regular expressions
  (\<open>cli_env\<close>), the upstream of a replay (\<open>api_env\<close>), \<^verbatim>\<open>goproxy\<close> on a redirected connection
  (\<open>serves_exchanges\<close>), the TLS handshake (\<open>tn_handshake\<close>), \<^verbatim>\<open>net.Listen\<close>
  and \<^verbatim>\<open>http.Server.Serve\<close>, the digits of a formatted time (\<open>slashless_clock\<close>). Each hypothesis is shown to be satisfiable by the witness of a theorem that
  uses it. The clock is an argument of every operation that reads it. The readings of
  Unicode tables beyond ASCII are the parameter \<open>unicode_lower\<close>.

  \<^bold>\<open>Loops and bounds.\<close> No definition uses fuel. Loops over data are structural or have a measure
  (the remaining bytes in the parser, the remaining slots in the ring's scan, the remaining
  results in the accept loop); loops that end only when the outside world ends them (the
  accept loop, the event loop of a stream, the wait for a signal) run over the list of
  what the world delivers, and the theorems quantify over all such lists; that exchanges end
  is proved for endless runs under weak fairness. A body is a finite
  byte sequence that ends with EOF or an error. Theorems about lengths state the bound of
  \<^verbatim>\<open>int64\<close> where the code's arithmetic needs it, and what happens at the bound is proved too.

  \<^bold>\<open>Not modelled.\<close> Running out of memory (a ring too large for the address space panics in
  \<open>NewRingBuffer\<close>; one that only exceeds the machine's memory ends the process); whether the
  user of the process may read or write a file, which is a fault like any other (\<open>os_deny\<close>);
  the text of log messages; the serialisation of JSON values (\<^verbatim>\<open>json.Marshal\<close> of an
  entry is a parameter of the event stream); the TLS and HTTP protocols below \<^verbatim>\<open>net/http\<close>; the
  library \<^verbatim>\<open>goproxy\<close>, which calls the two hooks; accessors of the configuration and of the CA, which
  are the fields of their records; the dashboard page, the container images and browser
  scripts, and the tests. Goroutines are modelled where they share state (the store and the
  recording of exchanges, the writer of line files, the certificate cache, the
  single-connection listener), not in the other parts. A run is followed up to its first panic: whether \<^verbatim>\<open>net/http\<close> recovers from a
  panic or the process dies is up to the library that started the goroutine. In
  \<open>Proxy_System\<close> a call of \<^verbatim>\<open>WriteEntry\<close> is a single step; \<open>Output_Concurrency\<close> shows of the one writer
  whose calls touch a common file that this loses no behaviour. \<^verbatim>\<open>MkdirAll\<close> is a single step there too.
\<close>

section \<open>An exchange through the whole proxy\<close>

text \<open>What is left behind by an exchange: the outcome without the response that goes to the client.\<close>

definition exchange_effect ::
  "std_env \<Rightarrow> 'w server \<Rightarrow> go_time \<Rightarrow> clocks \<Rightarrow> http_request \<Rightarrow> http_response \<Rightarrow> 'w proxy_world \<Rightarrow> 'w proxy_world go" where
  "exchange_effect env s now ck req resp w =
     go_bind (handleResponse env s ck (snd (handleRequest env s now req)) (Some resp) w) (\<lambda>(_, w'). Inr w')"

lemma capture_request_fields:
  "ce_Method (fst (recorder_CaptureRequest env r req)) = rq_Method req"
  "ce_URL (fst (recorder_CaptureRequest env r req)) = url_string env (rq_URL req)"
  "ce_Scheme (fst (recorder_CaptureRequest env r req)) = u_Scheme (rq_URL req)"
  "ce_Host (fst (recorder_CaptureRequest env r req)) = u_Host (rq_URL req)"
  "ce_Path (fst (recorder_CaptureRequest env r req)) = u_Path (rq_URL req)"
  by (simp_all add: recorder_CaptureRequest_def captureRequest_def request_entry_def zero_entry_def Let_def
      split: option.splits prod.splits)

lemma exchange_recorded:
  assumes "store_ok (pw_store w)" "ring_inv (st_ring (pw_store w))" "outputs_total (sv_outputs s)" "shouldCapture env s req"
    and "canReadBody env resp" "rp_Body resp = Some r" "rd_err r = None"
    and "sint (sv_responseBodyLimit s) < 2 ^ 63 - 1" "length (rd_bytes r) < 2 ^ 63"
    and "fst (NewEntryID env (ck_id ck) (pw_counter w)) \<notin> ce_ID ` set (entries (st_ring (pw_store w)))"
  shows "\<exists>w' e. exchange_effect env s now ck req resp w = Inr w'
    \<and> GetRequest (pw_store w') (fst (NewEntryID env (ck_id ck) (pw_counter w))) = Inr (writeJSON 200 (entry_json e))
    \<and> last (entries (st_ring (pw_store w'))) = e
    \<and> ce_Method e = rq_Method req \<and> ce_URL e = url_string env (rq_URL req) \<and> ce_StatusCode e = rp_StatusCode resp"
proof -
  define data where "data = \<lparr>cc_entry = fst (recorder_CaptureRequest env (sv_recorder s) req), cc_start = now\<rparr>"
  have d: "snd (handleRequest env s now req) = Some data"
    using assms(4) by (simp add: handleRequest_def data_def split: prod.splits)
  obtain resp' b w' where w': "recordResponse env s ck data resp w = Inr (resp', w')"
    "entries (st_ring (pw_store w')) = spec_push (rb_capacity (st_ring (pw_store w)))
        (entries (st_ring (pw_store w))) (exchange_entry env s ck data resp' b (pw_counter w))"
    "keeps_index (pw_store w) (exchange_entry env s ck data resp' b (pw_counter w)) (pw_store w')"
    "rp_StatusCode resp' = rp_StatusCode resp"
    using recordResponse_eof [OF assms(1,3,5-9), of ck data] by (auto simp: fixContentLength_def)
  define e where "e = exchange_entry env s ck data resp' b (pw_counter w)"
  have id: "ce_ID e = fst (NewEntryID env (ck_id ck) (pw_counter w))"
    unfolding e_def by (rule exchange_entry_fields)
  have "ring_inv (st_ring (pw_store w'))"
    using w'(3) assms(2,10) id unfolding keeps_index_def e_def by metis
  moreover have "e \<in> set (entries (st_ring (pw_store w')))" "last (entries (st_ring (pw_store w'))) = e"
    using w'(2) by (simp_all add: spec_push_def e_def)
  ultimately have "GetRequest (pw_store w') (ce_ID e) = Inr (writeJSON 200 (entry_json e))"
    using ring.get_present by (simp add: GetRequest_def)
  moreover have "exchange_effect env s now ck req resp w = Inr w'"
    using w'(1) d by (simp add: exchange_effect_def handleResponse_def responseData_def)
  moreover have "ce_Method e = rq_Method req" "ce_URL e = url_string env (rq_URL req)" "ce_StatusCode e = rp_StatusCode resp"
    using w'(4) unfolding e_def by (simp_all add: exchange_entry_fields data_def capture_request_fields)
  ultimately show ?thesis using \<open>last (entries (st_ring (pw_store w'))) = e\<close> id by metis
qed

lemma entry_id_param:
  assumes "CHR ''/'' \<notin> set (time_stamp env t)"
  shows "path_param (fst (NewEntryID env t c))" "fst (NewEntryID env t c) \<noteq> ''stream''"
proof -
  show "path_param (fst (NewEntryID env t c))"
    using assms itoa_no_slash by (auto simp: path_param_def NewEntryID_def Let_def)
  have "CHR ''-'' \<in> set (fst (NewEntryID env t c))" by (simp add: NewEntryID_def Let_def)
  then show "fst (NewEntryID env t c) \<noteq> ''stream''" by auto
qed

text \<open>
  \<^bold>\<open>C4\<close>. What passes through the proxy can be read from the API: an exchange that the filters
  select and whose response body ends normally is stored as the newest entry, and a GET
  request for its new identifier is routed to it and answered with its JSON form, with
  the method and URL of the request, the status of the response and the CORS headers,
  leaving the store alone.
\<close>

theorem captured_exchange_served:
  assumes "store_ok (pw_store w)" "ring_inv (st_ring (pw_store w))" "outputs_total (sv_outputs s)" "shouldCapture env s req"
    and "canReadBody env resp" "rp_Body resp = Some r" "rd_err r = None"
    and "sint (sv_responseBodyLimit s) < 2 ^ 63 - 1" "length (rd_bytes r) < 2 ^ 63"
    and "fst (NewEntryID env (ck_id ck) (pw_counter w)) \<notin> ce_ID ` set (entries (st_ring (pw_store w)))"
    and "router chi" "CHR ''/'' \<notin> set (time_stamp env (ck_id ck))"
    and "aq_Method q = ''GET''" "aq_Path q = ''/api/requests/'' @ fst (NewEntryID env (ck_id ck) (pw_counter w))"
  shows "\<exists>w' e a. exchange_effect env s now ck req resp w = Inr w'
    \<and> api_serve (api_NewServer ae html chi nf rc pem) q (pw_store w') = (Inl a, pw_store w')
    \<and> ar_Status a = 200 \<and> ar_Body a = JSONBody (entry_json e) \<and> ar_Header a ''Access-Control-Allow-Origin'' = Some ''*''
    \<and> last (entries (st_ring (pw_store w'))) = e
    \<and> ce_Method e = rq_Method req \<and> ce_URL e = url_string env (rq_URL req) \<and> ce_StatusCode e = rp_StatusCode resp"
proof -
  obtain w' e where w': "exchange_effect env s now ck req resp w = Inr w'"
    "GetRequest (pw_store w') (fst (NewEntryID env (ck_id ck) (pw_counter w))) = Inr (writeJSON 200 (entry_json e))"
    "last (entries (st_ring (pw_store w'))) = e"
    "ce_Method e = rq_Method req" "ce_URL e = url_string env (rq_URL req)" "ce_StatusCode e = rp_StatusCode resp"
    using exchange_recorded [OF assms(1-10)] by blast
  from router.serve_item [OF assms(11) entry_id_param [OF assms(12)] assms(13,14) w'(2)] w'
  show ?thesis by (auto simp: writeJSON_def cors_headers_def)
qed

theorem captured_exchange_served_witness:
  "\<exists>w' e a. exchange_effect demo_env (demo_server 5) 4 demo_clocks demo_get demo_response demo_world = Inr w'
    \<and> api_serve (api_NewServer demo_api ''<html>'' segment_router (\<lambda>_ _. json_error 404 ''x'') (\<lambda>_. json_error 500 ''x'') None)
        (demo_api_request (''/api/requests/'' @ fst (NewEntryID demo_env 10 0))) (pw_store w') = (Inl a, pw_store w')
    \<and> ar_Status a = 200 \<and> ar_Body a = JSONBody (entry_json e)
    \<and> ce_Method e = ''GET'' \<and> ce_URL e = ''http://a.example/x'' \<and> ce_StatusCode e = 200"
proof -
  have e: "entries (st_ring demo_store) = []"
    by (simp add: demo_store_def empty_ring_def entries_def)
  have i: "ring_inv (st_ring (pw_store demo_world))"
    using demo_store_ok(1) by (simp add: ring_inv_def demo_world_def)
      (simp add: index_complete_def demo_store_def empty_ring_def)
  have b: "rp_Body demo_response = Some \<lparr>rd_bytes = ''hello'', rd_err = None\<rparr>" by (simp add: demo_response_def)
  have "\<exists>w' e a. exchange_effect demo_env (demo_server 5) 4 demo_clocks demo_get demo_response demo_world = Inr w'
    \<and> api_serve (api_NewServer demo_api ''<html>'' segment_router (\<lambda>_ _. json_error 404 ''x'') (\<lambda>_. json_error 500 ''x'') None)
        (demo_api_request (''/api/requests/'' @ fst (NewEntryID demo_env 10 0))) (pw_store w') = (Inl a, pw_store w')
    \<and> ar_Status a = 200 \<and> ar_Body a = JSONBody (entry_json e) \<and> ar_Header a ''Access-Control-Allow-Origin'' = Some ''*''
    \<and> last (entries (st_ring (pw_store w'))) = e
    \<and> ce_Method e = rq_Method demo_get \<and> ce_URL e = url_string demo_env (rq_URL demo_get) \<and> ce_StatusCode e = rp_StatusCode demo_response"
    by (rule captured_exchange_served [OF demo_world_ok(1) i demo_world_ok(2) demo_get_captured demo_can_read(2) b])
      (simp_all add: e demo_server_def seg.router_axioms demo_env_def demo_api_request_def demo_clocks_def demo_world_def)
  moreover have "rq_Method demo_get = ''GET''" "url_string demo_env (rq_URL demo_get) = ''http://a.example/x''"
    "rp_StatusCode demo_response = 200"
    by (simp_all add: demo_get_def demo_response_def demo_env_def)
  ultimately show ?thesis by metis
qed

text \<open>
  What an API request does to the store is a step of an API client in the running system:
  unless it is routed to the stream, it leaves the store alone or clears the ring.
\<close>

theorem api_request_is_client_step:
  assumes "\<And>i. as_route srv (aq_Method q) (aq_Path q) \<noteq> Some (EpStream, i)" "sy_panic y = None"
  shows "snd (api_serve srv q (sy_store y)) = sy_store y
    \<or> sys_step env y AClear (y\<lparr>sy_store := snd (api_serve srv q (sy_store y))\<rparr>)"
proof -
  have "snd (api_serve srv q (sy_store y)) = sy_store y
      \<or> snd (api_serve srv q (sy_store y)) = (sy_store y)\<lparr>st_ring := Clear (st_ring (sy_store y))\<rparr>"
  proof (cases "as_route srv (aq_Method q) (aq_Path q)")
    case None
    then show ?thesis by (simp add: api_serve_def corsMiddleware_def Let_def)
  next
    case (Some x)
    obtain ep i where x: "x = (ep, i)" by fastforce
    have "snd (endpoint_serve srv q ep i (sy_store y)) = sy_store y
        \<or> snd (endpoint_serve srv q ep i (sy_store y)) = (sy_store y)\<lparr>st_ring := Clear (st_ring (sy_store y))\<rparr>"
      using assms(1) Some x by (cases ep) (auto simp: endpoint_serve_def ClearRequests_def Let_def)
    then show ?thesis
      using Some x by (auto simp: api_serve_def corsMiddleware_def Let_def split: prod.splits sum.splits)
  qed
  then show ?thesis using sys_step.clear [OF assms(2)] by metis
qed

section \<open>A redirected connection\<close>

text \<open>
  \<^verbatim>\<open>goproxy\<close> hands a request to the request hook, gets the response from the upstream and hands
  it to the response hook: its effect on the proxy is that of the exchange.
\<close>

definition serves_exchanges ::
  "std_env \<Rightarrow> 'w server \<Rightarrow> go_time \<Rightarrow> clocks \<Rightarrow> (http_request \<Rightarrow> http_response)
     \<Rightarrow> ('w proxy_world \<Rightarrow> http_request \<Rightarrow> 'w proxy_world) \<Rightarrow> bool" where
  "serves_exchanges env s now ck upstream proxy_ServeHTTP \<longleftrightarrow>
     (\<forall>w r w'. exchange_effect env s now ck r (upstream r) w = Inr w' \<longrightarrow> proxy_ServeHTTP w r = w')"

lemma exchange_stored:
  assumes "store_ok (pw_store w)" "outputs_total (sv_outputs s)" "shouldCapture env s req"
    and "canReadBody env resp" "rp_Body resp = Some r" "rd_err r = None"
    and "sint (sv_responseBodyLimit s) < 2 ^ 63 - 1" "length (rd_bytes r) < 2 ^ 63"
  shows "\<exists>w' e. exchange_effect env s now ck req resp w = Inr w' \<and> store_ok (pw_store w')
    \<and> entries (st_ring (pw_store w')) = spec_push (rb_capacity (st_ring (pw_store w))) (entries (st_ring (pw_store w))) e
    \<and> ce_Method e = rq_Method req \<and> ce_Scheme e = u_Scheme (rq_URL req) \<and> ce_Host e = u_Host (rq_URL req)
    \<and> ce_Path e = u_Path (rq_URL req) \<and> ce_StatusCode e = rp_StatusCode resp"
proof -
  define data where "data = \<lparr>cc_entry = fst (recorder_CaptureRequest env (sv_recorder s) req), cc_start = now\<rparr>"
  have d: "snd (handleRequest env s now req) = Some data"
    using assms(3) by (simp add: handleRequest_def data_def split: prod.splits)
  obtain resp' b w' where w': "recordResponse env s ck data resp w = Inr (resp', w')" "store_ok (pw_store w')"
    "entries (st_ring (pw_store w')) = spec_push (rb_capacity (st_ring (pw_store w)))
        (entries (st_ring (pw_store w))) (exchange_entry env s ck data resp' b (pw_counter w))"
    "rp_StatusCode resp' = rp_StatusCode resp"
    using recordResponse_eof [OF assms(1,2,4-8), of ck data] by (auto simp: fixContentLength_def)
  then show ?thesis
    using d by (intro exI [of _ w'] exI [of _ "exchange_entry env s ck data resp' b (pw_counter w)"])
      (simp add: exchange_effect_def handleResponse_def responseData_def exchange_entry_fields data_def capture_request_fields)
qed

text \<open>
  \<^bold>\<open>C15\<close>. Redirected TLS traffic is recorded under the name the client asked for: a connection whose
  ClientHello names a server and whose handshake succeeds is served as https for that name,
  and a request with a relative URL that is read from it, if the filters select it and its
  response ends normally, becomes the newest entry, with the scheme https, the host of its
  Host header (or, without one, the name in the ClientHello), and its method, path and status.
\<close>

theorem redirected_exchange_recorded:
  fixes name :: string and q' :: http_request and req :: http_request
  assumes "wf_hello h" "length (enc_record v1 v2 h) \<le> 65536" "length (enc_hello h) < 2 ^ 16"
    and "tn_bytes conn = enc_record v1 v2 h @ trail" "\<not> tn_deadline_err conn"
    and "tn_handshake conn (bytes_string (hp_name h)) = None"
    and "u_Scheme (rq_URL req) = []" "rq_Method req \<noteq> ''CONNECT''"
  defines "name \<equiv> bytes_string (hp_name h)"
  defines "q' \<equiv> req\<lparr>rq_URL := (rq_URL req)\<lparr>u_Scheme := ''https'', u_Host := (if rq_Host req = [] then name else rq_Host req)\<rparr>\<rparr>"
  assumes "serves_exchanges env s now ck upstream proxy_ServeHTTP"
    and "store_ok (pw_store w)" "outputs_total (sv_outputs s)" "shouldCapture env s q'"
    and "canReadBody env (upstream q')" "rp_Body (upstream q') = Some r" "rd_err r = None"
    and "sint (sv_responseBodyLimit s) < 2 ^ 63 - 1" "length (rd_bytes r) < 2 ^ 63"
  shows "\<exists>acts e. handleTransparentConn True None t conn = Inr acts \<and> ServeInner ''https'' name \<in> set acts
    \<and> entries (st_ring (pw_store (serveInner proxy_ServeHTTP ''https'' name [req] w)))
        = spec_push (rb_capacity (st_ring (pw_store w))) (entries (st_ring (pw_store w))) e
    \<and> ce_Scheme e = ''https'' \<and> ce_Host e = (if rq_Host req = [] then name else rq_Host req)
    \<and> ce_Method e = rq_Method req \<and> ce_Path e = u_Path (rq_URL req) \<and> ce_StatusCode e = rp_StatusCode (upstream q')"
proof -
  obtain w' e where e: "exchange_effect env s now ck q' (upstream q') w = Inr w'"
    "entries (st_ring (pw_store w')) = spec_push (rb_capacity (st_ring (pw_store w))) (entries (st_ring (pw_store w))) e"
    "ce_Method e = rq_Method q'" "ce_Scheme e = u_Scheme (rq_URL q')" "ce_Host e = u_Host (rq_URL q')"
    "ce_Path e = u_Path (rq_URL q')" "ce_StatusCode e = rp_StatusCode (upstream q')"
    using exchange_stored [OF assms(12-19)] by blast
  have "serveInner proxy_ServeHTTP ''https'' name [req] w = proxy_ServeHTTP w q'"
    using assms(7,8) by (simp add: serveInner_rewrites q'_def)
  then have "serveInner proxy_ServeHTTP ''https'' name [req] w = w'"
    using assms(11) e(1) by (simp add: serves_exchanges_def)
  then show ?thesis
    using tls_trace [OF assms(1-6), of t] e(2-7) unfolding name_def q'_def
    by (intro exI [of _ e] exI conjI) (auto simp: serveInner_actions_def)
qed

definition demo_proxy :: "os_state proxy_world \<Rightarrow> http_request \<Rightarrow> os_state proxy_world" where
  "demo_proxy w r = (case exchange_effect demo_env (demo_server 5) 4 demo_clocks r demo_response w of Inl _ \<Rightarrow> w | Inr w' \<Rightarrow> w')"

definition demo_relative :: http_request where
  "demo_relative = \<lparr>rq_Method = ''GET'', rq_URL = \<lparr>u_Scheme = [], u_Host = [], u_Path = ''/x'', u_RawQuery = []\<rparr>,
     rq_Host = [], rq_Header = Map.empty, rq_Body = None\<rparr>"

theorem redirected_exchange_recorded_witness:
  "\<exists>acts e. handleTransparentConn True None 0 demo_conn = Inr acts \<and> ServeInner ''https'' ''a.b'' \<in> set acts
    \<and> entries (st_ring (pw_store (serveInner demo_proxy ''https'' ''a.b'' [demo_relative] demo_world)))
        = spec_push (rb_capacity (st_ring (pw_store demo_world))) (entries (st_ring (pw_store demo_world))) e
    \<and> ce_Scheme e = ''https'' \<and> ce_Host e = ''a.b'' \<and> ce_Path e = ''/x'' \<and> ce_StatusCode e = 200"
proof -
  have p: "serves_exchanges demo_env (demo_server 5) 4 demo_clocks (\<lambda>_. demo_response) demo_proxy"
    by (simp add: serves_exchanges_def demo_proxy_def)
  have rel: "u_Scheme (rq_URL demo_relative) = []" "rq_Method demo_relative \<noteq> ''CONNECT''" by (simp_all add: demo_relative_def)
  have "shouldCapture demo_env (demo_server 5)
      (demo_relative\<lparr>rq_URL := (rq_URL demo_relative)\<lparr>u_Scheme := ''https'',
         u_Host := (if rq_Host demo_relative = [] then bytes_string (hp_name demo_hello) else rq_Host demo_relative)\<rparr>\<rparr>)"
    by (simp add: shouldCapture_def regexAllows_def regexExcludes_def demo_server_def demo_relative_def demo_env_def
        demo_conn_hello(1) Let_def)
  from redirected_exchange_recorded [OF demo_conn_hello(2-7) rel p demo_world_ok this demo_can_read(2), of "\<lparr>rd_bytes = ''hello'', rd_err = None\<rparr>" 0]
  show ?thesis
    by (simp add: demo_conn_hello(1) demo_response_def demo_server_def demo_relative_def) blast
qed

end
